(* ===== verification/Prelude.thy ===== *)
theory Prelude
  imports Main "HOL-Library.Word" "HOL-Library.Char_ord" "HOL-Library.List_Lexorder"
    "HOL-Library.AList" "HOL-Library.Sublist"
begin

text \<open>
  What every component of the development shares.

  \<^item> The collections of rewrite rules: \<open>rust_str\<close> (the string functions of the Rust standard
    library), \<open>io_simps\<close> (the state-and-error plumbing of \<open>std::io\<close>), \<open>cred_simps\<close>
    (credentials).
  \<^item> Fixed-width integers as words, I/O errors as values, and the state-and-error monad
    \<open>('s, 'a) io\<close> in which every fallible operation of the server is written. The operator
    \<open>?\<close> of the source is \<open>bindE\<close>; \<open>let _ = e\<close> is \<open>ignoreE\<close>.
  \<^item> \<open>std::collections::HashMap\<close> as an association list with distinct keys, with the laws its
    clients use stated as the locale \<open>hash_map\<close> and discharged for the model.
  \<^item> A locale for reachable-state arguments, interpreted by every component that is a state
    machine.
\<close>

unbundle bit_operations_syntax

named_theorems rust_str "characterisations of the string functions of the Rust standard library"
named_theorems io_simps "rewrite rules for the state-and-error monad"
named_theorems cred_simps "characterisations of the credential checks"

section \<open>Machine integers\<close>

type_synonym u8 = "8 word"
type_synonym u32 = "32 word"
type_synonym u64 = "64 word"
type_synonym i64 = "64 word"

text \<open>Largest values of the unsigned types that are kept as natural numbers.\<close>

definition u8_max :: nat where "u8_max = 255"
definition u16_max :: nat where "u16_max = 65535"
definition u32_max :: nat where "u32_max = 4294967295"
definition u64_max :: nat where "u64_max = 18446744073709551615"

section \<open>Errors and results\<close>

text \<open>
  \<open>std::io::Error\<close> is either an error code of the operating system or an error the program
  made itself from a kind and a message. \<open>kind\<close> maps the codes the program can meet the way
  the standard library does; the codes that it never inspects are \<open>Uncategorized\<close>.
\<close>

datatype io_kind =
    NotFound | PermissionDenied | AlreadyExists | WouldBlock | InvalidInput | InvalidData
  | TimedOut | UnexpectedEof | Interrupted | Unsupported | WriteZero | OtherKind | Uncategorized

datatype io_error = OsError nat | IoError io_kind string

type_synonym 'a result = "io_error + 'a"

definition EPERM :: nat where "EPERM = 1"
definition ENOENT :: nat where "ENOENT = 2"
definition EINTR :: nat where "EINTR = 4"
definition EAGAIN :: nat where "EAGAIN = 11"
definition EACCES :: nat where "EACCES = 13"
definition EEXIST :: nat where "EEXIST = 17"
definition ENOTDIR :: nat where "ENOTDIR = 20"
definition EISDIR :: nat where "EISDIR = 21"
definition EINVAL :: nat where "EINVAL = 22"
definition ELOOP :: nat where "ELOOP = 40"
definition ETIMEDOUT :: nat where "ETIMEDOUT = 110"

lemmas errno_defs = EPERM_def ENOENT_def EINTR_def EAGAIN_def EACCES_def EEXIST_def
  ENOTDIR_def EISDIR_def EINVAL_def ELOOP_def ETIMEDOUT_def

fun kind :: "io_error \<Rightarrow> io_kind" where
  "kind (IoError k _) = k"
| "kind (OsError n) =
     (if n = ENOENT then NotFound
      else if n = EPERM \<or> n = EACCES then PermissionDenied
      else if n = EEXIST then AlreadyExists
      else if n = EAGAIN then WouldBlock
      else if n = EINVAL then InvalidInput
      else if n = ETIMEDOUT then TimedOut
      else if n = EINTR then Interrupted
      else Uncategorized)"

fun raw_os_error :: "io_error \<Rightarrow> nat option" where
  "raw_os_error (OsError n) = Some n"
| "raw_os_error (IoError _ _) = None"

section \<open>The state-and-error monad\<close>

type_synonym ('s, 'a) io = "'s \<Rightarrow> 'a result \<times> 's"

definition returnE :: "'a \<Rightarrow> ('s, 'a) io" where
  "returnE x s = (Inr x, s)"

definition throwE :: "io_error \<Rightarrow> ('s, 'a) io" where
  "throwE e s = (Inl e, s)"

definition bindE :: "('s, 'a) io \<Rightarrow> ('a \<Rightarrow> ('s, 'b) io) \<Rightarrow> ('s, 'b) io" where
  "bindE m f s = (case m s of (Inl e, s') \<Rightarrow> (Inl e, s') | (Inr x, s') \<Rightarrow> f x s')"

definition thenE :: "('s, 'a) io \<Rightarrow> ('s, 'b) io \<Rightarrow> ('s, 'b) io" where
  "thenE m n = bindE m (\<lambda>_. n)"

text \<open>\<open>match m { Ok(x) => f x, Err(e) => h e }\<close>.\<close>

definition catchE :: "('s, 'a) io \<Rightarrow> ('a \<Rightarrow> ('s, 'b) io) \<Rightarrow> (io_error \<Rightarrow> ('s, 'b) io) \<Rightarrow> ('s, 'b) io" where
  "catchE m f h s = (case m s of (Inl e, s') \<Rightarrow> h e s' | (Inr x, s') \<Rightarrow> f x s')"

text \<open>\<open>let _ = m;\<close>: the effect of \<open>m\<close> without its result.\<close>

definition ignoreE :: "('s, 'a) io \<Rightarrow> ('s, unit) io" where
  "ignoreE m s = (Inr (), snd (m s))"

definition liftR :: "'a result \<Rightarrow> ('s, 'a) io" where
  "liftR r s = (r, s)"

lemma bindE_simps [io_simps]:
  "bindE (returnE x) f = f x"
  "bindE (throwE e) f = throwE e"
  "bindE (liftR (Inr x)) f = f x"
  "bindE (liftR (Inl e)) f = throwE e"
  by (rule ext, simp add: bindE_def returnE_def throwE_def liftR_def)+

lemma bindE_assoc: "bindE (bindE m f) g = bindE m (\<lambda>x. bindE (f x) g)"
  by (rule ext) (simp add: bindE_def split: prod.split sum.split)

lemma bindE_Inr: "bindE m f s = (Inr y, s') \<longleftrightarrow> (\<exists>x t. m s = (Inr x, t) \<and> f x t = (Inr y, s'))"
  by (auto simp: bindE_def split: prod.splits sum.splits)

lemma catchE_Inr: "catchE m f h s = (Inr y, s') \<longleftrightarrow>
    (\<exists>x t. m s = (Inr x, t) \<and> f x t = (Inr y, s')) \<or> (\<exists>e t. m s = (Inl e, t) \<and> h e t = (Inr y, s'))"
  by (auto simp: catchE_def split: prod.splits sum.splits)

lemma bindE_run [io_simps]:
  "m s = (Inr x, t) \<Longrightarrow> bindE m f s = f x t"
  "m s = (Inl e, t) \<Longrightarrow> bindE m f s = (Inl e, t)"
  by (simp_all add: bindE_def)

lemma catchE_run [io_simps]:
  "m s = (Inr x, t) \<Longrightarrow> catchE m f h s = f x t"
  "m s = (Inl e, t) \<Longrightarrow> catchE m f h s = h e t"
  by (simp_all add: catchE_def)

text \<open>
  A relation between the state before and the state after, kept by every operation whatever its
  result: the frame rule of the monad.
\<close>

definition keeps :: "('s \<Rightarrow> 's \<Rightarrow> bool) \<Rightarrow> ('s, 'a) io \<Rightarrow> bool" where
  "keeps R m \<longleftrightarrow> (\<forall>s. R s (snd (m s)))"

locale frame_relation =
  fixes R :: "'s \<Rightarrow> 's \<Rightarrow> bool"
  assumes R_refl: "R s s"
    and R_trans: "R s t \<Longrightarrow> R t u \<Longrightarrow> R s u"
begin

lemma keeps_returnE: "keeps R (returnE x)"
  by (simp add: keeps_def returnE_def R_refl)

lemma keeps_throwE: "keeps R (throwE e)"
  by (simp add: keeps_def throwE_def R_refl)

lemma keeps_liftR: "keeps R (liftR r)"
  by (simp add: keeps_def liftR_def R_refl)

lemma keeps_bindE: "keeps R m \<Longrightarrow> (\<And>x. keeps R (f x)) \<Longrightarrow> keeps R (bindE m f)"
  unfolding keeps_def bindE_def
  by (auto split: prod.split sum.split) (metis R_trans snd_conv)+

lemma keeps_thenE: "keeps R m \<Longrightarrow> keeps R n \<Longrightarrow> keeps R (thenE m n)"
  unfolding thenE_def by (rule keeps_bindE)

lemma keeps_catchE:
  "keeps R m \<Longrightarrow> (\<And>x. keeps R (f x)) \<Longrightarrow> (\<And>e. keeps R (h e)) \<Longrightarrow> keeps R (catchE m f h)"
  unfolding keeps_def catchE_def
  by (auto split: prod.split sum.split) (metis R_trans snd_conv)+

lemma keeps_ignoreE: "keeps R m \<Longrightarrow> keeps R (ignoreE m)"
  by (simp add: keeps_def ignoreE_def)

lemma keeps_if: "keeps R m \<Longrightarrow> keeps R n \<Longrightarrow> keeps R (if b then m else n)"
  by simp

lemmas keeps_intros = keeps_returnE keeps_throwE keeps_liftR keeps_bindE keeps_thenE
  keeps_catchE keeps_ignoreE keeps_if

end

section \<open>Hash maps\<close>

text \<open>
  A \<open>HashMap\<close> is an association list with distinct keys. The list order stands for the
  iteration order, which the source never relies on.
\<close>

type_synonym ('k, 'v) hashmap = "('k \<times> 'v) list"

definition hm_get :: "('k, 'v) hashmap \<Rightarrow> 'k \<Rightarrow> 'v option" where
  "hm_get m k = map_of m k"

definition hm_insert :: "'k \<Rightarrow> 'v \<Rightarrow> ('k, 'v) hashmap \<Rightarrow> ('k, 'v) hashmap" where
  "hm_insert k v m = AList.update k v m"

definition hm_remove :: "'k \<Rightarrow> ('k, 'v) hashmap \<Rightarrow> ('k, 'v) hashmap" where
  "hm_remove k m = AList.delete k m"

definition hm_contains_key :: "('k, 'v) hashmap \<Rightarrow> 'k \<Rightarrow> bool" where
  "hm_contains_key m k \<longleftrightarrow> hm_get m k \<noteq> None"

definition hm_ok :: "('k, 'v) hashmap \<Rightarrow> bool" where
  "hm_ok m \<longleftrightarrow> distinct (map fst m)"

locale hash_map =
  fixes empty :: 'm
    and get :: "'m \<Rightarrow> 'k \<Rightarrow> 'v option"
    and insert :: "'k \<Rightarrow> 'v \<Rightarrow> 'm \<Rightarrow> 'm"
    and remove :: "'k \<Rightarrow> 'm \<Rightarrow> 'm"
    and entries :: "'m \<Rightarrow> ('k \<times> 'v) set"
    and len :: "'m \<Rightarrow> nat"
    and ok :: "'m \<Rightarrow> bool"
  assumes get_empty: "get empty = Map.empty"
    and get_insert: "get (insert k v m) = (get m)(k \<mapsto> v)"
    and get_remove: "get (remove k m) = (get m)(k := None)"
    and entries_get: "ok m \<Longrightarrow> entries m = {(k, v). get m k = Some v}"
    and len_dom: "ok m \<Longrightarrow> len m = card (dom (get m))"
    and fin_dom: "finite (dom (get m))"
    and ok_empty: "ok empty"
    and ok_insert: "ok m \<Longrightarrow> ok (insert k v m)"
    and ok_remove: "ok m \<Longrightarrow> ok (remove k m)"
begin

lemma len_insert_new: "ok m \<Longrightarrow> get m k = None \<Longrightarrow> len (insert k v m) = Suc (len m)"
  using fin_dom [of m] by (simp add: len_dom ok_insert get_insert card_insert_if domIff)

lemma len_remove: "ok m \<Longrightarrow> get m k = Some v \<Longrightarrow> len (remove k m) = len m - 1"
  by (simp add: len_dom ok_remove get_remove card_Diff_singleton domI)

lemma len_remove_absent: "ok m \<Longrightarrow> get m k = None \<Longrightarrow> len (remove k m) = len m"
  by (simp add: len_dom ok_remove get_remove) (metis Diff_empty Diff_insert0 domIff)

lemma entries_insert:
  "ok m \<Longrightarrow> entries (insert k v m) = {(k, v)} \<union> {e \<in> entries m. fst e \<noteq> k}"
  by (auto simp: entries_get ok_insert get_insert split: if_splits)

lemma entries_remove: "ok m \<Longrightarrow> entries (remove k m) = {e \<in> entries m. fst e \<noteq> k}"
  by (auto simp: entries_get ok_remove get_remove split: if_splits)

end

interpretation hm: hash_map "[]" hm_get hm_insert hm_remove set length hm_ok
proof unfold_locales
  fix k :: 'a and v :: 'b and m :: "('a, 'b) hashmap"
  show "hm_get [] = Map.empty" by (rule ext) (simp add: hm_get_def)
  show "hm_get (hm_insert k v m) = (hm_get m)(k \<mapsto> v)"
    by (rule ext) (simp add: hm_get_def hm_insert_def update_conv)
  show "hm_get (hm_remove k m) = (hm_get m)(k := None)"
    by (rule ext) (simp add: hm_get_def hm_remove_def delete_conv)
  show "finite (dom (hm_get m))"
    by (simp add: hm_get_def [abs_def] finite_dom_map_of)
  show "hm_ok []" by (simp add: hm_ok_def)
  show "hm_ok m \<Longrightarrow> hm_ok (hm_insert k v m)"
    by (simp add: hm_ok_def hm_insert_def distinct_update)
  show "hm_ok m \<Longrightarrow> hm_ok (hm_remove k m)"
    by (simp add: hm_ok_def hm_remove_def distinct_delete)
  show "hm_ok m \<Longrightarrow> set m = {(k, v). hm_get m k = Some v}"
    by (auto simp: hm_ok_def hm_get_def)
  show "hm_ok m \<Longrightarrow> length m = card (dom (hm_get m))"
  proof -
    assume ok: "hm_ok m"
    have "dom (hm_get m) = fst ` set m"
      by (simp add: hm_get_def [abs_def] dom_map_of_conv_image_fst)
    with ok distinct_card [of "map fst m"] show ?thesis by (simp add: hm_ok_def)
  qed
qed

lemmas hm_simps = hm.get_empty hm.get_insert hm.get_remove

section \<open>Reachable states\<close>

text \<open>
  A component that is a state machine has a set of initial states and a step relation. An
  invariant that holds initially and is kept by each step holds in every reachable state.
\<close>

inductive reach :: "('s \<Rightarrow> bool) \<Rightarrow> ('s \<Rightarrow> 's \<Rightarrow> bool) \<Rightarrow> 's \<Rightarrow> bool"
  for init :: "'s \<Rightarrow> bool" and stp :: "'s \<Rightarrow> 's \<Rightarrow> bool" where
  reach_init: "init s \<Longrightarrow> reach init stp s"
| reach_step: "reach init stp s \<Longrightarrow> stp s t \<Longrightarrow> reach init stp t"

lemma reach_steps:
  assumes "reach init stp s" and "stp\<^sup>*\<^sup>* s t"
  shows "reach init stp t"
  using assms(2,1) by (induction rule: rtranclp_induct) (auto intro: reach_step)

locale inductive_invariant =
  fixes init :: "'s \<Rightarrow> bool" and stp :: "'s \<Rightarrow> 's \<Rightarrow> bool" and inv :: "'s \<Rightarrow> bool"
  assumes inv_init: "init s \<Longrightarrow> inv s"
    and inv_step: "inv s \<Longrightarrow> stp s t \<Longrightarrow> inv t"
begin

lemma reach_inv: "reach init stp s \<Longrightarrow> inv s"
  by (induction rule: reach.induct) (blast intro: inv_init inv_step)+

end

section \<open>Lists\<close>

lemma set_list_update_eq: "i < length xs \<Longrightarrow> set (xs[i := y]) \<subseteq> insert y (set xs)"
  by (simp add: set_update_subset_insert)

lemma find_SomeD: "find P xs = Some x \<Longrightarrow> P x \<and> x \<in> set xs"
  by (induction xs) (auto split: if_splits)

lemma sorted_last_max: "sorted xs \<Longrightarrow> x \<in> set xs \<Longrightarrow> x \<le> last xs"
  by (induction xs) (auto split: if_splits)

lemma count_filter_split:
  "length (filter P xs) + length (filter (\<lambda>x. \<not> P x) xs) = length xs"
  by (rule sum_length_filter_compl)

end
