(* ===== verification/Rust_Str.thy ===== *)
theory Rust_Str
  imports Prelude
begin

text \<open>
  The functions of Rust's standard library on strings and bytes that the server uses.

  A Rust \<open>str\<close>, \<open>String\<close>, \<open>OsStr\<close> or \<open>[u8]\<close> is a list of bytes, here \<open>string\<close>, that is
  \<open>char list\<close>: an Isabelle character is one byte. Splitting, trimming, ASCII case mapping,
  integer parsing and printing, and the lossy UTF-8 decoding of \<open>String::from_utf8_lossy\<close> are
  defined by recursion and characterised here; the component theories use the lemmas only.
\<close>

section \<open>Bytes\<close>

definition byte :: "char \<Rightarrow> nat" where
  "byte c = of_char c"

definition CR :: char where "CR = CHR 0x0D"
definition LF :: char where "LF = CHR 0x0A"
definition TAB :: char where "TAB = CHR 0x09"
definition NUL :: char where "NUL = CHR 0x00"

definition CRLF :: string where "CRLF = [CR, LF]"

lemmas ctl_defs = CR_def LF_def TAB_def NUL_def

lemma byte_less_256 [simp]: "byte c < 256"
  by (simp add: byte_def)

lemma byte_eq_iff [simp]: "byte c = byte d \<longleftrightarrow> c = d"
  by (simp add: byte_def)

lemma char_of_byte [simp]: "char_of (byte c) = c"
  by (simp add: byte_def)

lemma byte_char_of [simp]: "n < 256 \<Longrightarrow> byte (char_of n) = n"
  by (simp add: byte_def)

definition is_ascii :: "char \<Rightarrow> bool" where
  "is_ascii c \<longleftrightarrow> byte c < 128"

definition is_ascii_digit :: "char \<Rightarrow> bool" where
  "is_ascii_digit c \<longleftrightarrow> 48 \<le> byte c \<and> byte c \<le> 57"

definition is_ascii_uppercase :: "char \<Rightarrow> bool" where
  "is_ascii_uppercase c \<longleftrightarrow> 65 \<le> byte c \<and> byte c \<le> 90"

definition is_ascii_lowercase :: "char \<Rightarrow> bool" where
  "is_ascii_lowercase c \<longleftrightarrow> 97 \<le> byte c \<and> byte c \<le> 122"

definition is_ascii_alphabetic :: "char \<Rightarrow> bool" where
  "is_ascii_alphabetic c \<longleftrightarrow> is_ascii_uppercase c \<or> is_ascii_lowercase c"

definition is_ascii_alphanumeric :: "char \<Rightarrow> bool" where
  "is_ascii_alphanumeric c \<longleftrightarrow> is_ascii_alphabetic c \<or> is_ascii_digit c"

lemmas ascii_defs = is_ascii_def is_ascii_digit_def is_ascii_uppercase_def is_ascii_lowercase_def
  is_ascii_alphabetic_def is_ascii_alphanumeric_def

definition upper_byte :: "char \<Rightarrow> char" where
  "upper_byte c = (if is_ascii_lowercase c then char_of (byte c - 32) else c)"

definition lower_byte :: "char \<Rightarrow> char" where
  "lower_byte c = (if is_ascii_uppercase c then char_of (byte c + 32) else c)"

definition to_ascii_uppercase :: "string \<Rightarrow> string" where
  "to_ascii_uppercase s = map upper_byte s"

definition to_ascii_lowercase :: "string \<Rightarrow> string" where
  "to_ascii_lowercase s = map lower_byte s"

lemma upper_byte_alpha: "is_ascii_alphabetic c \<Longrightarrow> is_ascii_uppercase (upper_byte c)"
  by (auto simp: upper_byte_def ascii_defs)

lemma byte_lower: "byte (lower_byte c) = (if is_ascii_uppercase c then byte c + 32 else byte c)"
  by (auto simp: lower_byte_def ascii_defs)

lemma lower_byte_idem [simp]: "lower_byte (lower_byte c) = lower_byte c"
proof -
  have "\<not> is_ascii_uppercase (lower_byte c)"
    by (auto simp: is_ascii_uppercase_def byte_lower)
  then show ?thesis by (simp add: lower_byte_def [of "lower_byte c"])
qed

lemma to_ascii_lowercase_idem [rust_str]:
  "to_ascii_lowercase (to_ascii_lowercase s) = to_ascii_lowercase s"
  by (simp add: to_ascii_lowercase_def)

lemma length_to_ascii_lowercase [simp]: "length (to_ascii_lowercase s) = length s"
  by (simp add: to_ascii_lowercase_def)

lemma to_ascii_lowercase_Nil [simp]: "to_ascii_lowercase s = [] \<longleftrightarrow> s = []"
  by (simp add: to_ascii_lowercase_def)

lemma to_ascii_uppercase_id:
  "list_all is_ascii_uppercase s \<Longrightarrow> to_ascii_uppercase s = s"
  by (induction s) (auto simp: to_ascii_uppercase_def upper_byte_def ascii_defs)

section \<open>Splitting and trimming\<close>

text \<open>\<open>s.split_once(c)\<close>.\<close>

fun split_once :: "char \<Rightarrow> string \<Rightarrow> (string \<times> string) option" where
  "split_once c [] = None"
| "split_once c (x # xs) =
     (if x = c then Some ([], xs)
      else (case split_once c xs of None \<Rightarrow> None | Some (a, b) \<Rightarrow> Some (x # a, b)))"

lemma split_once_None [rust_str]: "split_once c s = None \<longleftrightarrow> c \<notin> set s"
  by (induction s) (auto split: option.splits)

lemma split_once_append: "c \<notin> set a \<Longrightarrow> split_once c (a @ c # b) = Some (a, b)"
  by (induction a) auto

lemma split_once_Some [rust_str]:
  "split_once c s = Some (a, b) \<longleftrightarrow> s = a @ c # b \<and> c \<notin> set a"
proof
  show "split_once c s = Some (a, b) \<Longrightarrow> s = a @ c # b \<and> c \<notin> set a"
    by (induction s arbitrary: a) (auto split: option.splits if_splits)
qed (auto intro: split_once_append)

text \<open>\<open>s.split(c)\<close> for one byte, collected.\<close>

fun split_char :: "char \<Rightarrow> string \<Rightarrow> string list" where
  "split_char c [] = [[]]"
| "split_char c (x # xs) =
     (if x = c then [] # split_char c xs
      else (case split_char c xs of [] \<Rightarrow> [[x]] | y # ys \<Rightarrow> (x # y) # ys))"

text \<open>\<open>parts.join(sep)\<close>.\<close>

fun join :: "string \<Rightarrow> string list \<Rightarrow> string" where
  "join sep [] = []"
| "join sep [x] = x"
| "join sep (x # y # ys) = x @ sep @ join sep (y # ys)"

lemma split_char_not_Nil [simp]: "split_char c s \<noteq> []"
  by (induction s) (auto split: list.splits)

lemma split_char_no_sep: "x \<in> set (split_char c s) \<Longrightarrow> c \<notin> set x"
  by (induction s arbitrary: x) (auto split: list.splits if_splits)

lemma split_char_sub: "x \<in> set (split_char c s) \<Longrightarrow> set x \<subseteq> set s"
proof (induction s arbitrary: x)
  case Nil
  then show ?case by simp
next
  case (Cons a s)
  obtain y ys where sp: "split_char c s = y # ys" by (cases "split_char c s") auto
  show ?case
  proof (cases "a = c")
    case True
    with Cons show ?thesis by auto
  next
    case False
    with Cons.prems sp consider "x = a # y" | "x \<in> set ys" by auto
    then show ?thesis
      using Cons.IH [of y] Cons.IH [of x] sp by cases auto
  qed
qed

lemma join_split_char: "join [c] (split_char c s) = s"
proof (induction s)
  case (Cons a s)
  obtain y ys where sp: "split_char c s = y # ys" by (cases "split_char c s") auto
  show ?case
  proof (cases "a = c")
    case True
    with sp Cons show ?thesis by simp
  next
    case False
    have "join [c] ((a # y) # ys) = a # join [c] (y # ys)" by (cases ys) auto
    with False sp Cons show ?thesis by simp
  qed
qed simp

lemma split_char_no_occurrence: "c \<notin> set s \<Longrightarrow> split_char c s = [s]"
  by (induction s) auto

lemma split_char_append: "c \<notin> set a \<Longrightarrow> split_char c (a @ c # b) = a # split_char c b"
  by (induction a) auto

lemma split_char_join:
  "xs \<noteq> [] \<Longrightarrow> (\<And>x. x \<in> set xs \<Longrightarrow> c \<notin> set x) \<Longrightarrow> split_char c (join [c] xs) = xs"
  by (induction "[c]" xs rule: join.induct) (auto simp: split_char_no_occurrence split_char_append)

lemma length_split_char: "length (split_char c s) = Suc (count_list s c)"
  by (induction s) (auto split: list.splits)

text \<open>\<open>s.split("\r\n")\<close>, collected.\<close>

fun split_crlf :: "string \<Rightarrow> string list" where
  "split_crlf [] = [[]]"
| "split_crlf [x] = [[x]]"
| "split_crlf (x # y # r) =
     (if x = CR \<and> y = LF then [] # split_crlf r
      else (case split_crlf (y # r) of [] \<Rightarrow> [[x]] | l # ls \<Rightarrow> (x # l) # ls))"

lemma split_crlf_not_Nil [simp]: "split_crlf s \<noteq> []"
  by (induction s rule: split_crlf.induct) (auto split: list.splits)

lemma split_crlf_sub: "l \<in> set (split_crlf s) \<Longrightarrow> set l \<subseteq> set s"
proof (induction s arbitrary: l rule: split_crlf.induct)
  case (3 x y r)
  show ?case
  proof (cases "x = CR \<and> y = LF")
    case True
    with 3 show ?thesis by auto
  next
    case False
    obtain k ks where sp: "split_crlf (y # r) = k # ks" by (cases "split_crlf (y # r)") auto
    with False 3(3) consider "l = x # k" | "l \<in> set ks" by (auto simp del: split_crlf.simps simp: split_crlf.simps(3) [of x y r])
    then show ?thesis using 3(2) [OF False, of k] 3(2) [OF False, of l] sp by cases auto
  qed
qed auto

text \<open>A line with no carriage return is not cut, and a line break after it is.\<close>

lemma split_crlf_line: "CR \<notin> set a \<Longrightarrow> split_crlf a = [a]"
  by (induction a rule: split_crlf.induct) auto

lemma split_crlf_append: "CR \<notin> set a \<Longrightarrow> split_crlf (a @ CR # LF # b) = a # split_crlf b"
proof (induction a)
  case (Cons x a)
  then show ?case by (cases a) auto
qed simp

lemma split_crlf_join:
  "xs \<noteq> [] \<Longrightarrow> (\<And>x. x \<in> set xs \<Longrightarrow> CR \<notin> set x) \<Longrightarrow> split_crlf (join CRLF xs) = xs"
  by (induction CRLF xs rule: join.induct) (auto simp: CRLF_def split_crlf_line split_crlf_append)

text \<open>\<open>s.trim_end_matches(pat)\<close>: every trailing copy of the pattern is removed.\<close>

function trim_end_matches :: "string \<Rightarrow> string \<Rightarrow> string" where
  "trim_end_matches pat s =
     (if pat \<noteq> [] \<and> suffix pat s then trim_end_matches pat (take (length s - length pat) s) else s)"
  by pat_completeness auto
termination
  by (relation "measure (length \<circ> snd)") (auto simp: suffix_def)

declare trim_end_matches.simps [simp del]

lemma trim_end_matches_stop [rust_str]: "\<not> suffix pat s \<Longrightarrow> trim_end_matches pat s = s"
  by (subst trim_end_matches.simps) simp

lemma trim_end_matches_step [rust_str]:
  "pat \<noteq> [] \<Longrightarrow> trim_end_matches pat (s @ pat) = trim_end_matches pat s"
  by (subst trim_end_matches.simps) (simp add: suffix_def)

lemma set_trim_end_matches: "set (trim_end_matches pat s) \<subseteq> set s"
proof (induction pat s rule: trim_end_matches.induct)
  case (1 pat s)
  then show ?case
    by (subst trim_end_matches.simps) (auto dest: in_set_takeD)
qed

text \<open>\<open>s.trim_matches(cs)\<close> for a set of bytes.\<close>

definition trim_matches :: "(char \<Rightarrow> bool) \<Rightarrow> string \<Rightarrow> string" where
  "trim_matches P s = rev (dropWhile P (rev (dropWhile P s)))"

lemma set_trim_matches: "set (trim_matches P s) \<subseteq> set s"
  unfolding trim_matches_def by (auto dest!: set_dropWhileD)

lemma trim_matches_id [rust_str]:
  "s = [] \<or> (\<not> P (hd s) \<and> \<not> P (last s)) \<Longrightarrow> trim_matches P s = s"
proof (cases "s = []")
  case False
  assume "s = [] \<or> (\<not> P (hd s) \<and> \<not> P (last s))"
  with False have "dropWhile P s = s" and "dropWhile P (rev s) = rev s"
    by (simp_all add: dropWhile_eq_self_iff hd_rev)
  then show ?thesis by (simp add: trim_matches_def)
qed (simp add: trim_matches_def)

lemma trim_matches_Cons [simp]: "P c \<Longrightarrow> trim_matches P (c # s) = trim_matches P s"
  by (simp add: trim_matches_def)

lemma trim_matches_ends:
  "trim_matches P s = [] \<or> (\<not> P (hd (trim_matches P s)) \<and> \<not> P (last (trim_matches P s)))"
proof -
  let ?d = "dropWhile P s"
  have hd: "?d = [] \<or> \<not> P (hd ?d)" by (metis hd_dropWhile)
  show ?thesis
  proof (cases "dropWhile P (rev ?d) = []")
    case False
    have ls: "\<not> P (last (trim_matches P s))"
      using False hd_dropWhile [of P "rev ?d"] by (simp add: trim_matches_def last_rev)
    obtain ys where "rev ?d = ys @ dropWhile P (rev ?d)"
      by (metis takeWhile_dropWhile_id)
    then have "?d = trim_matches P s @ rev ys"
      by (metis rev_append rev_rev_ident trim_matches_def)
    with False hd have "\<not> P (hd (trim_matches P s))"
      by (metis append_is_Nil_conv hd_append2 rev_is_Nil_conv trim_matches_def)
    with ls show ?thesis by simp
  qed (simp add: trim_matches_def)
qed

lemma trim_matches_idem [simp]: "trim_matches P (trim_matches P s) = trim_matches P s"
  using trim_matches_ends [of P s] by (rule trim_matches_id)

text \<open>\<open>str::strip_prefix\<close>.\<close>

definition strip_prefix :: "string \<Rightarrow> string \<Rightarrow> string option" where
  "strip_prefix pat s = (if prefix pat s then Some (drop (length pat) s) else None)"

lemma strip_prefix_append [simp]: "strip_prefix pat (pat @ s) = Some s"
  by (simp add: strip_prefix_def)

text \<open>\<open>s.contains(pat)\<close>.\<close>

fun contains_str :: "string \<Rightarrow> string \<Rightarrow> bool" where
  "contains_str pat [] = (pat = [])"
| "contains_str pat (x # xs) = (prefix pat (x # xs) \<or> contains_str pat xs)"

lemma contains_str_iff [rust_str]: "contains_str pat s \<longleftrightarrow> (\<exists>a b. s = a @ pat @ b)"
proof (induction s)
  case (Cons x xs)
  have "(\<exists>a b. x # xs = a @ pat @ b) \<longleftrightarrow> prefix pat (x # xs) \<or> (\<exists>a b. xs = a @ pat @ b)"
    by (auto simp: prefix_def) (metis append_Cons append_Nil append_eq_Cons_conv)+
  with Cons show ?case by simp
qed auto

section \<open>Parsing and printing integers\<close>

text \<open>\<open>char::to_digit\<close>.\<close>

definition to_digit :: "nat \<Rightarrow> char \<Rightarrow> nat option" where
  "to_digit radix c =
     (let v = (if is_ascii_digit c then byte c - 48
               else if is_ascii_lowercase c then byte c - 87
               else if is_ascii_uppercase c then byte c - 55
               else radix)
      in if v < radix then Some v else None)"

fun parse_digits :: "nat \<Rightarrow> nat \<Rightarrow> nat \<Rightarrow> string \<Rightarrow> nat option" where
  "parse_digits radix mx acc [] = Some acc"
| "parse_digits radix mx acc (c # cs) =
     (case to_digit radix c of
        None \<Rightarrow> None
      | Some d \<Rightarrow> let v = acc * radix + d in if mx < v then None else parse_digits radix mx v cs)"

text \<open>
  \<open>uN::from_str_radix\<close>, hence \<open>str::parse::<uN>\<close> for radix 10: one leading \<open>+\<close> is
  accepted, an empty digit sequence, a foreign byte and an overflow are errors.
\<close>

definition from_str_radix :: "nat \<Rightarrow> nat \<Rightarrow> string \<Rightarrow> nat option" where
  "from_str_radix radix mx s =
     (let ds = (case s of [] \<Rightarrow> [] | c # r \<Rightarrow> if c = CHR ''+'' then r else s)
      in if ds = [] then None else parse_digits radix mx 0 ds)"

definition parse_u16 :: "string \<Rightarrow> nat option" where "parse_u16 = from_str_radix 10 u16_max"
definition parse_u32 :: "string \<Rightarrow> nat option" where "parse_u32 = from_str_radix 10 u32_max"
definition parse_u64 :: "string \<Rightarrow> nat option" where "parse_u64 = from_str_radix 10 u64_max"
definition parse_usize :: "string \<Rightarrow> nat option" where "parse_usize = parse_u64"

text \<open>\<open>str::parse::<i32>\<close>: the magnitude of a negative value may be one larger.\<close>

definition parse_i32 :: "string \<Rightarrow> int option" where
  "parse_i32 s =
     (case s of
        c # r \<Rightarrow> if c = CHR ''-'' then
                   (if r = [] then None
                    else map_option (\<lambda>n. - int n) (parse_digits 10 2147483648 0 r))
                 else map_option int (from_str_radix 10 2147483647 s)
      | [] \<Rightarrow> None)"

text \<open>The value of a digit sequence, with no bound.\<close>

fun digits_value :: "nat \<Rightarrow> nat \<Rightarrow> string \<Rightarrow> nat" where
  "digits_value radix acc [] = acc"
| "digits_value radix acc (c # cs) =
     digits_value radix (acc * radix + (case to_digit radix c of None \<Rightarrow> 0 | Some d \<Rightarrow> d)) cs"

lemma digits_value_ge: "0 < radix \<Longrightarrow> acc \<le> digits_value radix acc ds"
proof (induction ds arbitrary: acc)
  case (Cons c cs)
  let ?v = "acc * radix + (case to_digit radix c of None \<Rightarrow> 0 | Some d \<Rightarrow> d)"
  have "acc \<le> acc * radix" using Cons.prems by simp
  also have "acc * radix \<le> ?v" by simp
  also have "?v \<le> digits_value radix ?v cs" using Cons by blast
  finally show ?case by simp
qed simp

lemma parse_digits_Some:
  "0 < radix \<Longrightarrow> acc \<le> mx \<Longrightarrow>
   parse_digits radix mx acc ds = Some v \<longleftrightarrow>
     (\<forall>c \<in> set ds. to_digit radix c \<noteq> None) \<and> v = digits_value radix acc ds \<and> v \<le> mx"
proof (induction ds arbitrary: acc)
  case Nil
  then show ?case by auto
next
  case (Cons c cs)
  show ?case
  proof (cases "to_digit radix c")
    case None
    then show ?thesis by simp
  next
    case (Some d)
    then show ?thesis
      using Cons.IH [of "acc * radix + d"] Cons.prems
        digits_value_ge [of radix "acc * radix + d" cs]
      by (auto simp: Let_def)
  qed
qed

lemma to_digit_10: "to_digit 10 c \<noteq> None \<longleftrightarrow> is_ascii_digit c"
  by (auto simp: to_digit_def Let_def ascii_defs)

text \<open>A plain decimal literal parses to its value exactly when that value fits.\<close>

lemma from_str_radix_decimal:
  assumes "s \<noteq> []" and "list_all is_ascii_digit s"
  shows "from_str_radix 10 mx s =
    (if digits_value 10 0 s \<le> mx then Some (digits_value 10 0 s) else None)"
proof -
  have "hd s \<noteq> CHR ''+''"
    using assms by (cases s) (auto simp: is_ascii_digit_def byte_def)
  then have "from_str_radix 10 mx s = parse_digits 10 mx 0 s"
    using assms(1) by (cases s) (auto simp: from_str_radix_def)
  moreover have "\<forall>c \<in> set s. to_digit 10 c \<noteq> None"
    using assms(2) by (metis to_digit_10 list_all_iff)
  ultimately show ?thesis
    using parse_digits_Some [of 10 0 mx s] by (cases "parse_digits 10 mx 0 s") auto
qed

lemma from_str_radix_le: "0 < radix \<Longrightarrow> from_str_radix radix mx s = Some v \<Longrightarrow> v \<le> mx"
  unfolding from_str_radix_def Let_def
  using parse_digits_Some [of radix 0 mx] by (auto split: if_splits list.splits)

text \<open>\<open>format!("{}", n)\<close> and \<open>format!("{:x}", n)\<close>.\<close>

definition digit_char :: "nat \<Rightarrow> char" where
  "digit_char d = (if d < 10 then char_of (48 + d) else char_of (87 + d))"

function show_radix :: "nat \<Rightarrow> nat \<Rightarrow> string" where
  "show_radix radix n =
     (if radix < 2 \<or> n < radix then [digit_char n]
      else show_radix radix (n div radix) @ [digit_char (n mod radix)])"
  by pat_completeness auto
termination
  by (relation "measure snd") (auto intro: div_less_dividend)

declare show_radix.simps [simp del]

abbreviation show_nat :: "nat \<Rightarrow> string" where "show_nat \<equiv> show_radix 10"
abbreviation show_hex :: "nat \<Rightarrow> string" where "show_hex \<equiv> show_radix 16"

lemma byte_digit_char: "d < 36 \<Longrightarrow> byte (digit_char d) = (if d < 10 then 48 + d else 87 + d)"
  by (simp add: digit_char_def)

lemma to_digit_digit_char: "d < radix \<Longrightarrow> radix \<le> 36 \<Longrightarrow> to_digit radix (digit_char d) = Some d"
  by (simp add: to_digit_def Let_def ascii_defs byte_digit_char)

lemma show_radix_not_Nil [simp]: "show_radix radix n \<noteq> []"
  by (subst show_radix.simps) simp

lemma digits_value_append:
  "digits_value radix acc (a @ b) = digits_value radix (digits_value radix acc a) b"
  by (induction a arbitrary: acc) auto

lemma digits_value_show: "2 \<le> radix \<Longrightarrow> radix \<le> 36 \<Longrightarrow> digits_value radix 0 (show_radix radix n) = n"
proof (induction radix n rule: show_radix.induct)
  case (1 radix n)
  show ?case
  proof (cases "n < radix")
    case True
    with 1 show ?thesis by (simp add: show_radix.simps [of radix n] to_digit_digit_char)
  next
    case False
    with 1 show ?thesis
      by (simp add: show_radix.simps [of radix n] digits_value_append to_digit_digit_char)
  qed
qed

lemma show_radix_chars:
  "2 \<le> radix \<Longrightarrow> c \<in> set (show_radix radix n) \<Longrightarrow> \<exists>d < radix. c = digit_char d"
proof (induction radix n rule: show_radix.induct)
  case (1 radix n)
  show ?case
  proof (cases "n < radix")
    case True
    with 1 show ?thesis by (auto simp: show_radix.simps [of radix n])
  next
    case False
    with 1 have "c \<in> set (show_radix radix (n div radix)) \<or> c = digit_char (n mod radix)"
      by (auto simp: show_radix.simps [of radix n])
    then show ?thesis
    proof
      assume "c \<in> set (show_radix radix (n div radix))"
      with 1 False show ?thesis by simp
    next
      assume "c = digit_char (n mod radix)"
      moreover have "n mod radix < radix" using 1 by simp
      ultimately show ?thesis by blast
    qed
  qed
qed

lemma show_nat_digits: "list_all is_ascii_digit (show_nat n)"
  using show_radix_chars [of 10 _ n]
  by (fastforce simp: list_all_iff is_ascii_digit_def byte_digit_char)

text \<open>Printing a number that fits and parsing it again gives the number.\<close>

lemma parse_show_nat: "n \<le> mx \<Longrightarrow> from_str_radix 10 mx (show_nat n) = Some n"
  by (simp add: from_str_radix_decimal show_nat_digits digits_value_show)

lemma show_nat_inj:
  assumes "show_nat m = show_nat n"
  shows "m = n"
proof -
  have "digits_value 10 0 (show_nat k) = k" for k by (rule digits_value_show) simp_all
  from this [of m] this [of n] assms show ?thesis by argo
qed

section \<open>UTF-8\<close>

definition is_cont :: "char \<Rightarrow> bool" where
  "is_cont c \<longleftrightarrow> 128 \<le> byte c \<and> byte c \<le> 191"

text \<open>The length a leading byte announces, 0 for a byte that cannot lead.\<close>

definition utf8_width :: "char \<Rightarrow> nat" where
  "utf8_width c =
     (let b = byte c in
      if b < 128 then 1
      else if 194 \<le> b \<and> b \<le> 223 then 2
      else if 224 \<le> b \<and> b \<le> 239 then 3
      else if 240 \<le> b \<and> b \<le> 244 then 4
      else 0)"

text \<open>The second byte excludes overlong forms, surrogates and code points past U+10FFFF.\<close>

definition second_ok :: "char \<Rightarrow> char \<Rightarrow> bool" where
  "second_ok c d =
     (let b = byte c; e = byte d in
      if b = 224 then 160 \<le> e \<and> e \<le> 191
      else if b = 237 then 128 \<le> e \<and> e \<le> 159
      else if b = 240 then 144 \<le> e \<and> e \<le> 191
      else if b = 244 then 128 \<le> e \<and> e \<le> 143
      else 128 \<le> e \<and> e \<le> 191)"

text \<open>
  One step of the decoder: whether the next sequence is well formed, and how many bytes it or
  its longest well-formed beginning takes.
\<close>

fun utf8_step :: "string \<Rightarrow> bool \<times> nat" where
  "utf8_step [] = (True, 0)"
| "utf8_step (b0 # r) =
     (let w = utf8_width b0 in
      if w = 0 then (False, 1) else if w = 1 then (True, 1)
      else (case r of [] \<Rightarrow> (False, 1)
      | b1 # r2 \<Rightarrow>
        if \<not> second_ok b0 b1 then (False, 1) else if w = 2 then (True, 2)
        else (case r2 of [] \<Rightarrow> (False, 2)
        | b2 # r3 \<Rightarrow>
          if \<not> is_cont b2 then (False, 2) else if w = 3 then (True, 3)
          else (case r3 of [] \<Rightarrow> (False, 3)
          | b3 # _ \<Rightarrow> if is_cont b3 then (True, 4) else (False, 3)))))"

lemma utf8_step_pos [simp]: "s \<noteq> [] \<Longrightarrow> 0 < snd (utf8_step s)"
  by (cases s) (auto simp: Let_def split: list.split)

text \<open>U+FFFD, encoded.\<close>

definition replacement :: string where
  "replacement = [CHR 0xEF, CHR 0xBF, CHR 0xBD]"

text \<open>\<open>String::from_utf8_lossy\<close>.\<close>

function from_utf8_lossy :: "string \<Rightarrow> string" where
  "from_utf8_lossy s =
     (if s = [] then []
      else (let (ok, n) = utf8_step s in
            (if ok then take n s else replacement) @ from_utf8_lossy (drop n s)))"
  by pat_completeness auto
termination
proof (relation "measure length")
  fix s :: string and x ok n
  assume "s \<noteq> []" and "x = utf8_step s" and "(ok, n) = x"
  then have "0 < n" using utf8_step_pos [of s] by (metis snd_conv)
  with \<open>s \<noteq> []\<close> show "(drop n s, s) \<in> measure length" by simp
qed simp

declare from_utf8_lossy.simps [simp del]

text \<open>\<open>std::str::from_utf8(..).is_ok()\<close>.\<close>

function is_utf8 :: "string \<Rightarrow> bool" where
  "is_utf8 s =
     (if s = [] then True else (let (ok, n) = utf8_step s in ok \<and> is_utf8 (drop n s)))"
  by pat_completeness auto
termination
proof (relation "measure length")
  fix s :: string and x ok n
  assume "s \<noteq> []" and "x = utf8_step s" and "(ok, n) = x"
  then have "0 < n" using utf8_step_pos [of s] by (metis snd_conv)
  with \<open>s \<noteq> []\<close> show "(drop n s, s) \<in> measure length" by simp
qed simp

declare is_utf8.simps [simp del]

lemma from_utf8_lossy_Nil [simp]: "from_utf8_lossy [] = []"
  by (subst from_utf8_lossy.simps) simp

lemma is_utf8_Nil [simp]: "is_utf8 []"
  by (subst is_utf8.simps) simp

lemma from_utf8_lossy_id [rust_str]: "is_utf8 s \<Longrightarrow> from_utf8_lossy s = s"
proof (induction s rule: from_utf8_lossy.induct)
  case (1 s)
  show ?case
  proof (cases "s = []")
    case False
    obtain ok n where st: "utf8_step s = (ok, n)" by (cases "utf8_step s")
    with 1(2) False have "ok" and "is_utf8 (drop n s)"
      by (auto simp: is_utf8.simps [of s])
    with 1(1) [OF False] st have "from_utf8_lossy (drop n s) = drop n s" by auto
    with False st \<open>ok\<close> show ?thesis by (simp add: from_utf8_lossy.simps [of s])
  qed simp
qed

lemma is_utf8_ascii_Cons [rust_str]: "is_ascii c \<Longrightarrow> is_utf8 (c # s) = is_utf8 s"
  by (subst is_utf8.simps) (simp add: utf8_width_def is_ascii_def)

lemma from_utf8_lossy_ascii_Cons [rust_str]:
  "is_ascii c \<Longrightarrow> from_utf8_lossy (c # s) = c # from_utf8_lossy s"
  by (subst from_utf8_lossy.simps) (simp add: utf8_width_def is_ascii_def)

lemma is_utf8_ascii: "list_all is_ascii s \<Longrightarrow> is_utf8 s"
  by (induction s) (auto simp: is_utf8_ascii_Cons)

text \<open>A well-formed sequence stays one in front of any other text.\<close>

lemma utf8_step_take:
  assumes "s \<noteq> []" and "utf8_step s = (True, n)"
  shows "utf8_step (take n s @ t) = (True, n) \<and> length (take n s) = n"
proof -
  obtain b r where s: "s = b # r" using assms(1) by (cases s) auto
  show ?thesis
  proof (cases "utf8_width b = 1")
    case True
    with assms(2) s have "n = 1" by (simp add: Let_def)
    with True s show ?thesis by (simp add: Let_def)
  next
    case False
    with assms(2) s show ?thesis
      by (auto simp: Let_def split: list.splits if_splits)
  qed
qed

lemma utf8_step_replacement: "utf8_step (replacement @ t) = (True, 3)"
  by (simp add: replacement_def utf8_width_def second_ok_def is_cont_def byte_def Let_def)

lemma is_utf8_step_append:
  assumes "a \<noteq> []" and "utf8_step (a @ t) = (True, length a)"
  shows "is_utf8 (a @ t) = is_utf8 t"
  using assms by (simp add: is_utf8.simps [of "a @ t"])

text \<open>Whatever the input, the decoder's output is well-formed UTF-8: a Rust \<open>String\<close>.\<close>

lemma is_utf8_from_utf8_lossy [rust_str]: "is_utf8 (from_utf8_lossy s)"
proof (induction s rule: from_utf8_lossy.induct)
  case (1 s)
  show ?case
  proof (cases "s = []")
    case False
    obtain ok n where st: "utf8_step s = (ok, n)" by (cases "utf8_step s")
    let ?rest = "from_utf8_lossy (drop n s)"
    have IH: "is_utf8 ?rest" using 1 False st by auto
    show ?thesis
    proof (cases ok)
      case True
      with st have st': "utf8_step s = (True, n)" by simp
      have n: "utf8_step (take n s @ ?rest) = (True, n)" "length (take n s) = n"
        using utf8_step_take [OF False st'] by auto
      have "take n s \<noteq> []" using n(2) utf8_step_pos [OF False] st by auto
      then have "is_utf8 (take n s @ ?rest)"
        using is_utf8_step_append [of "take n s" ?rest] n IH by simp
      with False st True show ?thesis by (simp add: from_utf8_lossy.simps [of s])
    next
      case bad: False
      have "is_utf8 (replacement @ ?rest)"
        using is_utf8_step_append [of replacement ?rest] utf8_step_replacement IH
        by (simp add: replacement_def)
      with False st bad show ?thesis by (simp add: from_utf8_lossy.simps [of s])
    qed
  qed simp
qed

section \<open>Evaluation of concrete strings by the simplifier\<close>

lemmas str_eval = ctl_defs CRLF_def ascii_defs byte_def char_of_def bit_Suc_0_iff
  trim_end_matches.simps suffix_to_prefix to_ascii_uppercase_def to_ascii_lowercase_def
  upper_byte_def lower_byte_def trim_matches_def parse_u16_def parse_u32_def parse_u64_def
  parse_usize_def from_str_radix_def to_digit_def u8_max_def u16_max_def u32_max_def u64_max_def
  show_radix.simps digit_char_def is_utf8_ascii from_utf8_lossy_id

end
