(* ===== verification/Json.thy ===== *)
theory Json
  imports Rust_Str
begin

text \<open>
  JSON values and the boundary to \<open>serde_json\<close>.

  \<open>serde_json\<close> is a package outside the repository. Its parser and its serializer are the two
  fields of the record \<open>codec\<close>, an argument of every definition that calls them; nothing is
  assumed about either. The source takes values apart by the public constructors of
  \<open>serde_json::Value\<close> and by its accessors \<open>get\<close>, \<open>as_str\<close>, \<open>as_bool\<close>, \<open>as_u64\<close>,
  \<open>as_i64\<close>, \<open>as_object\<close>, whose documented meaning is written out here; a floating-point
  number is kept as its bit pattern and never computed with.
\<close>

datatype number = NInt int | NFloat u64

datatype json =
    JNull
  | JBool bool
  | JNumber number
  | JString string
  | JArray "json list"
  | JObject "(string \<times> json) list"

record codec =
  to_vec :: "json \<Rightarrow> string"
  from_slice :: "string \<Rightarrow> string + json"

abbreviation JInt :: "int \<Rightarrow> json" where "JInt i \<equiv> JNumber (NInt i)"
abbreviation JNat :: "nat \<Rightarrow> json" where "JNat n \<equiv> JNumber (NInt (int n))"

fun json_get :: "json \<Rightarrow> string \<Rightarrow> json option" where
  "json_get (JObject kvs) k = map_of kvs k"
| "json_get _ _ = None"

fun as_bool :: "json \<Rightarrow> bool option" where
  "as_bool (JBool b) = Some b"
| "as_bool _ = None"

fun as_str :: "json \<Rightarrow> string option" where
  "as_str (JString s) = Some s"
| "as_str _ = None"

fun as_object :: "json \<Rightarrow> (string \<times> json) list option" where
  "as_object (JObject kvs) = Some kvs"
| "as_object _ = None"

fun as_u64 :: "json \<Rightarrow> nat option" where
  "as_u64 (JNumber (NInt i)) = (if 0 \<le> i \<and> i \<le> int u64_max then Some (nat i) else None)"
| "as_u64 _ = None"

fun as_i64 :: "json \<Rightarrow> int option" where
  "as_i64 (JNumber (NInt i)) =
     (if - 9223372036854775808 \<le> i \<and> i \<le> 9223372036854775807 then Some i else None)"
| "as_i64 _ = None"

text \<open>\<open>as_f64\<close> converts any number; the number itself is kept, the conversion is a parameter
  of the place that uses it.\<close>

fun as_f64 :: "json \<Rightarrow> number option" where
  "as_f64 (JNumber n) = Some n"
| "as_f64 _ = None"

fun json_opt :: "('a \<Rightarrow> json) \<Rightarrow> 'a option \<Rightarrow> json" where
  "json_opt f None = JNull"
| "json_opt f (Some x) = f x"

text \<open>
  \<open>json_string_map\<close> of \<open>main.rs\<close>: the members of \<open>value[key]\<close> as strings, a member that is
  not a string as the empty string; a missing or non-object \<open>value[key]\<close> gives the empty map.
\<close>

definition json_string_map :: "json \<Rightarrow> string \<Rightarrow> (string, string) hashmap" where
  "json_string_map value key =
     (case Option.bind (json_get value key) as_object of
        None \<Rightarrow> []
      | Some m \<Rightarrow>
          foldl (\<lambda>acc (k, v). hm_insert k (case as_str v of None \<Rightarrow> [] | Some s \<Rightarrow> s) acc) [] m)"

lemma as_u64_bound: "as_u64 j = Some n \<Longrightarrow> n \<le> u64_max"
  by (cases j rule: as_u64.cases) (auto split: if_splits)

lemma hm_ok_foldl_insert:
  "hm_ok acc \<Longrightarrow> hm_ok (foldl (\<lambda>a (k, v). hm_insert k (f v) a) acc m)"
  by (induction m arbitrary: acc) (auto simp: hm.ok_insert)

lemma hm_ok_json_string_map: "hm_ok (json_string_map j k)"
  unfolding json_string_map_def
  by (auto simp: hm.ok_empty intro!: hm_ok_foldl_insert [where f = "\<lambda>v. case as_str v of None \<Rightarrow> [] | Some s \<Rightarrow> s"] split: option.split)

text \<open>A codec for the concrete examples of the development.\<close>

definition demo_codec :: codec where
  "demo_codec = \<lparr>to_vec = (\<lambda>_. ''{}''), from_slice = (\<lambda>_. Inr JNull)\<rparr>"

end
