(* ===== verification/Kernel.thy ===== *)
theory Kernel
  imports Rust_Str
begin

text \<open>
  The boundary to the operating system's file interface.

  The kernel is not part of the repository. Its calls are the fields of the record \<open>kernel\<close>, an
  argument of every definition that makes one; the state of the machine is a type parameter and
  each call may change it arbitrarily, which covers whatever other processes do between two
  calls. A theorem that needs documented behaviour of a call names it as a hypothesis.

  \<open>osw\<close> pairs that state with the log of the calls the server has made. The log has no
  counterpart in the code: it lets a theorem speak about which calls an operation makes.
\<close>

type_synonym fd = nat
type_synonym flags = "32 word"

datatype file_kind = RegularFile | Directory | Symlink | UnixSocket | SpecialFile

record metadata =
  md_kind :: file_kind
  md_len :: nat
  md_uid :: nat
  md_mode :: nat
  md_mtime_ms :: "int option"

abbreviation is_dir :: "metadata \<Rightarrow> bool" where "is_dir m \<equiv> md_kind m = Directory"
abbreviation is_file :: "metadata \<Rightarrow> bool" where "is_file m \<equiv> md_kind m = RegularFile"
abbreviation is_symlink :: "metadata \<Rightarrow> bool" where "is_symlink m \<equiv> md_kind m = Symlink"

text \<open>The flag bits of \<open>open(2)\<close> on x86-64 Linux.\<close>

definition O_RDONLY :: flags where "O_RDONLY = 0"
definition O_WRONLY :: flags where "O_WRONLY = 1"
definition O_CREAT :: flags where "O_CREAT = 0x40"
definition O_TRUNC :: flags where "O_TRUNC = 0x200"
definition O_NONBLOCK :: flags where "O_NONBLOCK = 0x800"
definition O_DIRECTORY :: flags where "O_DIRECTORY = 0x10000"
definition O_NOFOLLOW :: flags where "O_NOFOLLOW = 0x20000"
definition O_CLOEXEC :: flags where "O_CLOEXEC = 0x80000"
definition O_PATH :: flags where "O_PATH = 0x200000"
definition AT_REMOVEDIR :: nat where "AT_REMOVEDIR = 0x200"

lemmas open_flags = O_RDONLY_def O_WRONLY_def O_CREAT_def O_TRUNC_def O_NONBLOCK_def
  O_DIRECTORY_def O_NOFOLLOW_def O_CLOEXEC_def O_PATH_def

record 'w kernel =
  \<comment> \<open>relative to a descriptor\<close>
  k_openat :: "fd \<Rightarrow> string \<Rightarrow> flags \<Rightarrow> nat \<Rightarrow> ('w, fd) io"
  k_mkdirat :: "fd \<Rightarrow> string \<Rightarrow> nat \<Rightarrow> ('w, unit) io"
  k_unlinkat :: "fd \<Rightarrow> string \<Rightarrow> nat \<Rightarrow> ('w, unit) io"
  k_dup :: "fd \<Rightarrow> ('w, fd) io"
  k_fchown :: "fd \<Rightarrow> nat \<Rightarrow> ('w, unit) io"
  k_fchmod :: "fd \<Rightarrow> nat \<Rightarrow> ('w, unit) io"
  k_fstat :: "fd \<Rightarrow> ('w, metadata) io"
  k_readdir :: "fd \<Rightarrow> ('w, string result list) io"
  k_read :: "fd \<Rightarrow> nat \<Rightarrow> ('w, string) io"
  k_write_all :: "fd \<Rightarrow> string \<Rightarrow> ('w, unit) io"
  k_seek :: "fd \<Rightarrow> nat \<Rightarrow> ('w, unit) io"
  k_set_len :: "fd \<Rightarrow> nat \<Rightarrow> ('w, unit) io"
  \<comment> \<open>by path\<close>
  k_open :: "string \<Rightarrow> flags \<Rightarrow> nat \<Rightarrow> ('w, fd) io"
  k_create_dir_all :: "string \<Rightarrow> ('w, unit) io"
  k_lstat :: "string \<Rightarrow> ('w, metadata) io"
  k_read_dir :: "string \<Rightarrow> ('w, (string \<times> metadata result) result list) io"
  k_remove_dir_all :: "string \<Rightarrow> ('w, unit) io"
  k_remove_dir :: "string \<Rightarrow> ('w, unit) io"
  k_remove_file :: "string \<Rightarrow> ('w, unit) io"
  \<comment> \<open>the text of an error code\<close>
  k_strerror :: "nat \<Rightarrow> string"

text \<open>\<open>Display\<close> of an error: the message, or the text of the code and the code.\<close>

fun error_text :: "('w, 'z) kernel_scheme \<Rightarrow> io_error \<Rightarrow> string" where
  "error_text K (IoError k msg) = msg"
| "error_text K (OsError n) = k_strerror K n @ '' (os error '' @ show_nat n @ '')''"

text \<open>The calls an operation can make, as they are logged.\<close>

datatype fs_call =
    Openat fd string flags nat
  | Mkdirat fd string nat
  | Unlinkat fd string nat
  | Dup fd
  | Fchown fd nat
  | Fchmod fd nat
  | Fstat fd
  | Readdir fd
  | ReadFd fd nat
  | WriteFd fd string
  | SeekFd fd nat
  | SetLen fd nat
  | CloseFd fd
  | ConnectFd fd
  | ByPath string
  | LlCreate u64 u64 u64
  | LlAddRule fd fd u64
  | LlRestrict fd
  | KillPid int nat

record 'w osw =
  kst :: 'w
  log :: "(fs_call \<times> fd option) list"

text \<open>A call that returns a descriptor, and any other call.\<close>

definition sys_fd :: "fs_call \<Rightarrow> ('w, fd) io \<Rightarrow> ('w osw, fd) io" where
  "sys_fd c m s =
     (case m (kst s) of (r, w) \<Rightarrow>
        (r, s\<lparr>kst := w, log := log s @ [(c, case r of Inl _ \<Rightarrow> None | Inr f \<Rightarrow> Some f)]\<rparr>))"

definition sys :: "fs_call \<Rightarrow> ('w, 'a) io \<Rightarrow> ('w osw, 'a) io" where
  "sys c m s = (case m (kst s) of (r, w) \<Rightarrow> (r, s\<lparr>kst := w, log := log s @ [(c, None)]\<rparr>))"

section \<open>Descriptor discipline\<close>

text \<open>
  A name that stands for exactly one entry of the directory it is looked up in: it has no
  separator and is neither the directory itself nor its parent.
\<close>

definition plain_name :: "string \<Rightarrow> bool" where
  "plain_name n \<longleftrightarrow> n \<noteq> [] \<and> CHR ''/'' \<notin> set n \<and> n \<noteq> ''.'' \<and> n \<noteq> ''..''"

text \<open>
  The documented promise of \<open>std::fs::read_dir\<close>: it yields the entries of the directory without
  \<open>.\<close> and \<open>..\<close>, each a single path component.
\<close>

definition readdir_plain :: "('w, 'z) kernel_scheme \<Rightarrow> bool" where
  "readdir_plain K \<longleftrightarrow>
     (\<forall>f w es w'. k_readdir K f w = (Inr es, w') \<longrightarrow> (\<forall>n. Inr n \<in> set es \<longrightarrow> plain_name n))"

text \<open>
  A call is disciplined if it names its object by a descriptor out of a known set, at most with
  one plain name, and opens without following a symbolic link; a descriptor that a disciplined
  call returns becomes known.
\<close>

fun call_ok :: "fd set \<Rightarrow> fs_call \<Rightarrow> bool" where
  "call_ok S (Openat d n fl m) \<longleftrightarrow> d \<in> S \<and> plain_name n \<and> fl AND O_NOFOLLOW = O_NOFOLLOW"
| "call_ok S (Mkdirat d n m) \<longleftrightarrow> d \<in> S \<and> plain_name n"
| "call_ok S (Unlinkat d n fl) \<longleftrightarrow> d \<in> S \<and> plain_name n"
| "call_ok S (Dup d) \<longleftrightarrow> d \<in> S"
| "call_ok S (Fchown d u) \<longleftrightarrow> d \<in> S"
| "call_ok S (Fchmod d m) \<longleftrightarrow> d \<in> S"
| "call_ok S (Fstat d) \<longleftrightarrow> d \<in> S"
| "call_ok S (Readdir d) \<longleftrightarrow> d \<in> S"
| "call_ok S (ReadFd d n) \<longleftrightarrow> d \<in> S"
| "call_ok S (WriteFd d b) \<longleftrightarrow> d \<in> S"
| "call_ok S (SeekFd d n) \<longleftrightarrow> d \<in> S"
| "call_ok S (SetLen d n) \<longleftrightarrow> d \<in> S"
| "call_ok S (CloseFd d) \<longleftrightarrow> d \<in> S"
| "call_ok S (ConnectFd d) \<longleftrightarrow> d \<in> S"
| "call_ok S (ByPath p) \<longleftrightarrow> False"
| "call_ok S (LlCreate h n c) \<longleftrightarrow> False"
| "call_ok S (LlAddRule r d a) \<longleftrightarrow> False"
| "call_ok S (LlRestrict r) \<longleftrightarrow> False"
| "call_ok S (KillPid p sig) \<longleftrightarrow> False"

fun known :: "fd set \<Rightarrow> (fs_call \<times> fd option) list \<Rightarrow> fd set" where
  "known S [] = S"
| "known S ((c, r) # es) = known (case r of None \<Rightarrow> S | Some f \<Rightarrow> insert f S) es"

fun disciplined :: "fd set \<Rightarrow> (fs_call \<times> fd option) list \<Rightarrow> bool" where
  "disciplined S [] \<longleftrightarrow> True"
| "disciplined S ((c, r) # es) \<longleftrightarrow>
     call_ok S c \<and> disciplined (case r of None \<Rightarrow> S | Some f \<Rightarrow> insert f S) es"

lemma known_append: "known S (a @ b) = known (known S a) b"
  by (induction S a rule: known.induct) auto

lemma disciplined_append: "disciplined S (a @ b) \<longleftrightarrow> disciplined S a \<and> disciplined (known S a) b"
  by (induction S a rule: disciplined.induct) auto

lemma known_mono: "S \<subseteq> known S es"
proof (induction S es rule: known.induct)
  case (2 S c r es)
  then show ?case by (cases r) auto
qed simp

text \<open>
  \<open>safe_on lg S m Q\<close>: started with the descriptors \<open>S\<close> known, \<open>m\<close> makes disciplined calls
  only, and a result it returns satisfies \<open>Q\<close> with the descriptors known at the end. \<open>lg\<close> finds
  the log in the state \<open>m\<close> runs on.
\<close>

definition safe_on ::
  "('s \<Rightarrow> (fs_call \<times> fd option) list) \<Rightarrow> fd set \<Rightarrow> ('s, 'a) io \<Rightarrow> ('a \<Rightarrow> fd set \<Rightarrow> bool) \<Rightarrow> bool" where
  "safe_on lg S m Q \<longleftrightarrow>
     (\<forall>s. \<exists>new. lg (snd (m s)) = lg s @ new \<and> disciplined S new \<and>
        (\<forall>x. fst (m s) = Inr x \<longrightarrow> Q x (known S new)))"

lemma safeD:
  assumes "safe_on lg S m Q" and "m s = (r, t)"
  obtains new where "lg t = lg s @ new" "disciplined S new" "\<And>x. r = Inr x \<Longrightarrow> Q x (known S new)"
  using assms unfolding safe_on_def by (metis fst_conv snd_conv)

lemma safe_returnE: "Q x S \<Longrightarrow> safe_on lg S (returnE x) Q"
  by (auto simp: safe_on_def returnE_def intro!: exI [of _ "[]"])

lemma safe_throwE: "safe_on lg S (throwE e) Q"
  by (auto simp: safe_on_def throwE_def intro!: exI [of _ "[]"])

lemma safe_liftR: "(\<And>x. r = Inr x \<Longrightarrow> Q x S) \<Longrightarrow> safe_on lg S (liftR r) Q"
  by (auto simp: safe_on_def liftR_def intro!: exI [of _ "[]"])

lemma safe_weaken: "safe_on lg S m Q \<Longrightarrow> (\<And>x T. S \<subseteq> T \<Longrightarrow> Q x T \<Longrightarrow> R x T) \<Longrightarrow> safe_on lg S m R"
  unfolding safe_on_def using known_mono by metis

lemma safe_bindE:
  assumes m: "safe_on lg S m Q" and f: "\<And>x T. S \<subseteq> T \<Longrightarrow> Q x T \<Longrightarrow> safe_on lg T (f x) R"
  shows "safe_on lg S (bindE m f) R"
  unfolding safe_on_def
proof
  fix s
  obtain r t where mt: "m s = (r, t)" by (cases "m s")
  from safeD [OF m mt] obtain n1 where n1: "lg t = lg s @ n1" "disciplined S n1"
    "\<And>x. r = Inr x \<Longrightarrow> Q x (known S n1)" by blast
  show "\<exists>new. lg (snd (bindE m f s)) = lg s @ new \<and> disciplined S new \<and>
      (\<forall>x. fst (bindE m f s) = Inr x \<longrightarrow> R x (known S new))"
  proof (cases r)
    case (Inl e)
    with mt n1 show ?thesis by (auto simp: bindE_def)
  next
    case (Inr x)
    obtain r2 u where fu: "f x t = (r2, u)" by (cases "f x t")
    from f [OF known_mono n1(3) [OF Inr]] have "safe_on lg (known S n1) (f x) R" .
    from safeD [OF this fu] obtain n2 where "lg u = lg t @ n2" "disciplined (known S n1) n2"
      "\<And>y. r2 = Inr y \<Longrightarrow> R y (known (known S n1) n2)" by blast
    with mt fu Inr n1 show ?thesis
      by (intro exI [of _ "n1 @ n2"]) (auto simp: bindE_def disciplined_append known_append)
  qed
qed

lemma safe_thenE: "safe_on lg S m Q \<Longrightarrow> (\<And>x T. S \<subseteq> T \<Longrightarrow> Q x T \<Longrightarrow> safe_on lg T n R) \<Longrightarrow> safe_on lg S (thenE m n) R"
  unfolding thenE_def by (rule safe_bindE)

lemma safe_ignoreE:
  assumes "safe_on lg S m Q" and "\<And>T. S \<subseteq> T \<Longrightarrow> R () T"
  shows "safe_on lg S (ignoreE m) R"
proof -
  have "\<exists>new. lg (snd (m s)) = lg s @ new \<and> disciplined S new" for s
    using assms(1) by (auto simp: safe_on_def)
  with assms(2) known_mono show ?thesis by (fastforce simp: safe_on_def ignoreE_def)
qed

lemma safe_catchE:
  assumes m: "safe_on lg S m Q" and f: "\<And>x T. S \<subseteq> T \<Longrightarrow> Q x T \<Longrightarrow> safe_on lg T (f x) R"
    and h: "\<And>e T. S \<subseteq> T \<Longrightarrow> safe_on lg T (h e) R"
  shows "safe_on lg S (catchE m f h) R"
  unfolding safe_on_def
proof
  fix s
  obtain r t where mt: "m s = (r, t)" by (cases "m s")
  from safeD [OF m mt] obtain n1 where n1: "lg t = lg s @ n1" "disciplined S n1"
    "\<And>x. r = Inr x \<Longrightarrow> Q x (known S n1)" by blast
  define k where "k = (case r of Inl e \<Rightarrow> h e | Inr x \<Rightarrow> f x)"
  have "safe_on lg (known S n1) k R"
    using n1(3) f [OF known_mono] h [OF known_mono] by (cases r) (auto simp: k_def)
  moreover obtain r2 u where ku: "k t = (r2, u)" by (cases "k t")
  ultimately obtain n2 where "lg u = lg t @ n2" "disciplined (known S n1) n2"
    "\<And>y. r2 = Inr y \<Longrightarrow> R y (known (known S n1) n2)" by (metis safeD)
  moreover have "catchE m f h s = (r2, u)"
    using mt ku by (cases r) (auto simp: catchE_def k_def)
  ultimately show "\<exists>new. lg (snd (catchE m f h s)) = lg s @ new \<and> disciplined S new \<and>
      (\<forall>x. fst (catchE m f h s) = Inr x \<longrightarrow> R x (known S new))"
    using n1 by (intro exI [of _ "n1 @ n2"]) (auto simp: disciplined_append known_append)
qed

abbreviation safe :: "fd set \<Rightarrow> ('w osw, 'a) io \<Rightarrow> ('a \<Rightarrow> fd set \<Rightarrow> bool) \<Rightarrow> bool" where
  "safe \<equiv> safe_on log"

lemma safe_sys_res:
  "call_ok S c \<Longrightarrow> (\<And>w x w'. m w = (Inr x, w') \<Longrightarrow> Q x S) \<Longrightarrow> safe S (sys c m) Q"
  by (auto simp: safe_on_def sys_def split: prod.split intro!: exI [of _ "[(c, None)]"])

lemma safe_sys: "call_ok S c \<Longrightarrow> (\<And>x. Q x S) \<Longrightarrow> safe S (sys c m) Q"
  by (rule safe_sys_res)

lemma safe_sys_fd: "call_ok S c \<Longrightarrow> (\<And>f. Q f (insert f S)) \<Longrightarrow> safe S (sys_fd c m) Q"
  unfolding safe_on_def sys_fd_def
  by (rule allI, rule_tac x = "[(c, case fst (m (kst s)) of Inl _ \<Rightarrow> None | Inr f \<Rightarrow> Some f)]" in exI)
     (auto split: prod.split sum.split)

lemmas safe_intros = safe_returnE safe_throwE safe_liftR safe_sys safe_sys_fd

section \<open>A concrete kernel\<close>

text \<open>A concrete kernel for the witnesses: descriptors are counted up, every file is regular.\<close>

definition demo_kernel :: "nat kernel" where
  "demo_kernel = \<lparr>
     k_openat = (\<lambda>d n fl m w. (Inr w, Suc w)),
     k_mkdirat = (\<lambda>d n m. returnE ()),
     k_unlinkat = (\<lambda>d n fl. returnE ()),
     k_dup = (\<lambda>d w. (Inr w, Suc w)),
     k_fchown = (\<lambda>f u. returnE ()),
     k_fchmod = (\<lambda>f m. returnE ()),
     k_fstat = (\<lambda>f. returnE \<lparr>md_kind = RegularFile, md_len = 3, md_uid = 0, md_mode = 384, md_mtime_ms = None\<rparr>),
     k_readdir = (\<lambda>f. returnE [Inr ''a'', Inr ''b'']),
     k_read = (\<lambda>f n. returnE (take n ''abc'')),
     k_write_all = (\<lambda>f b. returnE ()),
     k_seek = (\<lambda>f n. returnE ()),
     k_set_len = (\<lambda>f n. returnE ()),
     k_open = (\<lambda>p fl m w. (Inr w, Suc w)),
     k_create_dir_all = (\<lambda>p. returnE ()),
     k_lstat = (\<lambda>p. returnE \<lparr>md_kind = RegularFile, md_len = 3, md_uid = 0, md_mode = 384, md_mtime_ms = None\<rparr>),
     k_read_dir = (\<lambda>p. returnE []),
     k_remove_dir_all = (\<lambda>p. returnE ()),
     k_remove_dir = (\<lambda>p. returnE ()),
     k_remove_file = (\<lambda>p. returnE ()),
     k_strerror = (\<lambda>n. ''error'')\<rparr>"

lemma demo_kernel_readdir: "readdir_plain demo_kernel"
  by (auto simp: readdir_plain_def demo_kernel_def returnE_def plain_name_def)

end
