(* ===== verification/Sandbox_Entry.thy ===== *)
theory Sandbox_Entry
  imports Prelude
begin

text \<open>
  The data of one sandbox (\<open>SandboxEntry\<close> and \<open>Confinement\<close> of \<open>src/sandboxes.rs\<close>), used by the
  file, process and proxy components as well as by the registry. Times are \<open>i64\<close> milliseconds.
  The \<open>deleted\<close> mutex of an entry is kept by the registry, keyed by the entry's identifier.
\<close>

datatype confinement = Landlock int | UidOnly

fun label :: "confinement \<Rightarrow> string" where
  "label (Landlock _) = ''landlock''"
| "label UidOnly = ''uid-only''"

record sandbox_entry =
  e_id :: string
  e_uid :: nat
  e_home :: string
  e_created_at_ms :: i64
  e_env :: "(string, string) hashmap"
  e_max_procs :: nat
  e_max_mem_mb :: nat
  e_token :: string
  e_confinement :: confinement
  e_last_activity_ms :: i64
  e_idle_timeout_ms :: i64

end
