(* ===== verification/State.thy ===== *)
theory State
  imports Json Kernel Sandbox_Entry
begin

text \<open>
  The state of the server: \<open>State\<close> and \<open>Auth\<close> of \<open>src/main.rs\<close> with the registries it holds,
  \<open>SandboxRegistry\<close> and \<open>UidPool\<close> of \<open>src/sandboxes.rs\<close> and \<open>ProcRegistry\<close>, \<open>Proc\<close> and
  \<open>ProcHandle\<close> of \<open>src/exec.rs\<close>. An atomic counter or a mutex-protected value is a field; what is
  shared through \<open>Arc\<close> and mutated is kept in a table: the \<open>deleted\<close> flags by sandbox identifier,
  the process handles by number. Counters and identifiers that cannot reach their width in
  practice (\<open>usize\<close> reservations, \<open>u64\<close> sequence numbers, \<open>u32\<close> uid offsets below the range
  bound) are natural numbers; times are \<open>i64\<close> words.
\<close>

section \<open>Sandboxes\<close>

record uid_pool =
  up_next :: nat
  up_free :: "nat list"
  up_quarantined :: "nat list"

record registry =
  rg_map :: "(string, sandbox_entry) hashmap"
  rg_capacity :: nat
  rg_reserved :: nat
  rg_allow_unconfined :: bool
  rg_uids :: uid_pool
  rg_deleted :: "string list"

section \<open>Processes\<close>

record exit_info =
  ex_code :: "int option"
  ex_signal :: "int option"
  ex_timed_out :: bool
  ex_duration_ms :: i64

datatype event = Stdout string | Stderr string | Exit exit_info

text \<open>
  A handle, with the flag \<open>timed_out\<close> that \<open>wait_and_report\<close> shares with the timeout watcher of
  the same command.
\<close>

record proc_handle =
  ph_pid :: nat
  ph_pidfd :: "fd option"
  ph_running :: bool
  ph_timed_out :: bool

record proc =
  pr_id :: string
  pr_pid :: nat
  pr_handle :: nat
  pr_tag :: "string option"
  pr_cmd :: json
  pr_started_at_ms :: i64
  pr_sandbox_id :: "string option"
  pr_exit :: "exit_info option"

record proc_registry =
  pg_procs :: "proc list"
  pg_seq :: nat
  pg_active :: nat

section \<open>The server\<close>

datatype auth = Required string | DisabledForDevelopment

record 'w world =
  w_os :: "'w osw"
  w_auth :: auth
  w_started_at_ms :: i64
  w_last_activity_ms :: i64
  w_procs :: proc_registry
  w_sandboxes :: registry
  w_host_mode :: bool
  w_handles :: "proc_handle list"
  w_owned :: "nat list"
  w_rules :: "(fd \<times> u64) list"

text \<open>An operation on the operating system, and one on the registry of sandboxes.\<close>

definition on_os :: "('w osw, 'a) io \<Rightarrow> ('w world, 'a) io" where
  "on_os m w = (case m (w_os w) of (r, s) \<Rightarrow> (r, w\<lparr>w_os := s\<rparr>))"

definition on_reg :: "(registry \<Rightarrow> 'a \<times> registry) \<Rightarrow> ('w world, 'a) io" where
  "on_reg f w = (case f (w_sandboxes w) of (x, g) \<Rightarrow> (Inr x, w\<lparr>w_sandboxes := g\<rparr>))"

definition on_procs :: "(proc_registry \<Rightarrow> 'a \<times> proc_registry) \<Rightarrow> ('w world, 'a) io" where
  "on_procs f w = (case f (w_procs w) of (x, g) \<Rightarrow> (Inr x, w\<lparr>w_procs := g\<rparr>))"

text \<open>A call of the operating system that does not go through the file interface.\<close>

definition raw_os :: "('w, 'a) io \<Rightarrow> ('w osw, 'a) io" where
  "raw_os m s = (case m (kst s) of (r, k) \<Rightarrow> (r, s\<lparr>kst := k\<rparr>))"

end
