(* ===== verification/Procs.thy ===== *)
theory Procs
  imports State "HOL-Library.Multiset"
begin

text \<open>
  \<open>ProcRegistry\<close> of \<open>src/exec.rs\<close>: the table of background processes. Each operation is the
  section the source runs under the table's lock.

  The lemmas show that inserting never drops a running process and keeps at most the newest 256
  finished ones in order, that identifiers are never used twice, and that an operation scoped to
  one sandbox leaves the processes of every other sandbox alone.
\<close>

section \<open>Operations\<close>

definition MAX_FINISHED_PROCS :: nat where "MAX_FINISHED_PROCS = 256"

abbreviation finished :: "proc \<Rightarrow> bool" where "finished p \<equiv> pr_exit p \<noteq> None"

definition proc_insert :: "proc \<Rightarrow> proc_registry \<Rightarrow> proc_registry" where
  "proc_insert p g =
     (let procs = pg_procs g @ [p];
          fin = map fst (filter (\<lambda>(_, q). finished q) (enumerate 0 procs))
      in if MAX_FINISHED_PROCS < length fin
         then (let doomed = take (length fin - MAX_FINISHED_PROCS) fin
               in g\<lparr>pg_procs := map snd (filter (\<lambda>(i, _). i \<notin> set doomed) (enumerate 0 procs))\<rparr>)
         else g\<lparr>pg_procs := procs\<rparr>)"

definition alloc_id :: "proc_registry \<Rightarrow> string \<times> proc_registry" where
  "alloc_id g = (''p-'' @ show_nat (pg_seq g), g\<lparr>pg_seq := pg_seq g + 1\<rparr>)"

definition in_scope :: "string option \<Rightarrow> proc \<Rightarrow> bool" where
  "in_scope scope p \<longleftrightarrow> scope = None \<or> pr_sandbox_id p = scope"

text \<open>\<open>position\<close> followed by \<open>Vec::remove\<close>.\<close>

fun remove_first :: "(proc \<Rightarrow> bool) \<Rightarrow> proc list \<Rightarrow> proc option \<times> proc list" where
  "remove_first P [] = (None, [])"
| "remove_first P (p # ps) =
     (if P p then (Some p, ps) else (case remove_first P ps of (r, qs) \<Rightarrow> (r, p # qs)))"

definition remove_by_id :: "string \<Rightarrow> string option \<Rightarrow> proc_registry \<Rightarrow> proc option \<times> proc_registry" where
  "remove_by_id pid scope g =
     (case remove_first (\<lambda>p. pr_id p = pid \<and> in_scope scope p) (pg_procs g) of
        (r, ps) \<Rightarrow> (r, g\<lparr>pg_procs := ps\<rparr>))"

definition remove_for_sandbox :: "string \<Rightarrow> proc_registry \<Rightarrow> unit \<times> proc_registry" where
  "remove_for_sandbox sid g = ((), g\<lparr>pg_procs := filter (\<lambda>p. pr_sandbox_id p \<noteq> Some sid) (pg_procs g)\<rparr>)"

text \<open>\<open>begin_op\<close>, and the drop of the guard it returns.\<close>

definition begin_op :: "proc_registry \<Rightarrow> unit \<times> proc_registry" where
  "begin_op g = ((), g\<lparr>pg_active := pg_active g + 1\<rparr>)"

definition end_op :: "proc_registry \<Rightarrow> unit \<times> proc_registry" where
  "end_op g = ((), g\<lparr>pg_active := pg_active g - 1\<rparr>)"

definition active_ops :: "proc_registry \<Rightarrow> nat" where
  "active_ops g = pg_active g"

definition running_count :: "proc_registry \<Rightarrow> nat" where
  "running_count g = length (filter (\<lambda>p. \<not> finished p) (pg_procs g))"

definition running_count_for :: "string \<Rightarrow> proc_registry \<Rightarrow> nat" where
  "running_count_for sid g =
     length (filter (\<lambda>p. pr_sandbox_id p = Some sid \<and> \<not> finished p) (pg_procs g))"

definition proc_json :: "proc \<Rightarrow> json" where
  "proc_json p = JObject [
     (''id'', JString (pr_id p)), (''pid'', JNat (pr_pid p)), (''cmd'', pr_cmd p),
     (''tag'', json_opt JString (pr_tag p)), (''started_at_ms'', JInt (sint (pr_started_at_ms p))),
     (''running'', JBool (\<not> finished p)),
     (''exit_code'', json_opt JInt (Option.bind (pr_exit p) ex_code))]"

definition list_processes :: "string option \<Rightarrow> proc_registry \<Rightarrow> json" where
  "list_processes scope g = JArray (map proc_json (filter (in_scope scope) (pg_procs g)))"

text \<open>\<open>pump_background\<close> records the exit of the process it was started for.\<close>

definition record_exit :: "string \<Rightarrow> exit_info \<Rightarrow> proc_registry \<Rightarrow> unit \<times> proc_registry" where
  "record_exit pid info g =
     ((), g\<lparr>pg_procs := map (\<lambda>p. if pr_id p = pid then p\<lparr>pr_exit := Some info\<rparr> else p) (pg_procs g)\<rparr>)"

section \<open>Insertion\<close>

text \<open>Dropping the first \<open>n\<close> elements that satisfy \<open>P\<close>.\<close>

fun drop_first :: "nat \<Rightarrow> ('a \<Rightarrow> bool) \<Rightarrow> 'a list \<Rightarrow> 'a list" where
  "drop_first n P [] = []"
| "drop_first n P (x # xs) =
     (if P x then (case n of 0 \<Rightarrow> x # xs | Suc m \<Rightarrow> drop_first m P xs) else x # drop_first n P xs)"

lemma drop_first_0 [simp]: "drop_first 0 P xs = xs"
  by (induction xs) auto

lemma drop_first_filter:
  "filter P (drop_first n P xs) = drop n (filter P xs)"
  "filter (\<lambda>x. \<not> P x) (drop_first n P xs) = filter (\<lambda>x. \<not> P x) xs"
  by (induction n P xs rule: drop_first.induct) (auto split: nat.splits)

lemma drop_first_subseq: "subseq (drop_first n P xs) xs"
  by (induction n P xs rule: drop_first.induct) (auto split: nat.splits)

lemma fst_enumerate_ge: "x \<in> set (enumerate k xs) \<Longrightarrow> k \<le> fst x"
  by (auto simp: in_set_enumerate_eq)

lemma retain_drop_first:
  "map snd (filter (\<lambda>(i, _). i \<notin> set (take n (map fst (filter (\<lambda>(_, q). P q) (enumerate k xs))))) (enumerate k xs))
     = drop_first n P xs"
proof (induction xs arbitrary: n k)
  case (Cons x xs)
  let ?fin = "\<lambda>j. map fst (filter (\<lambda>(_, q). P q) (enumerate j xs))"
  have ge: "Suc k \<le> i" if "(i, q) \<in> set (enumerate (Suc k) xs)" for i q
    using fst_enumerate_ge [OF that] by simp
  have fin_ge: "k \<notin> set (take m (?fin (Suc k)))" for m
    using ge by (auto dest!: in_set_takeD) fastforce
  show ?case
  proof (cases "P x \<and> 0 < n")
    case False
    then show ?thesis using Cons [of n "Suc k"] fin_ge [of n] by (cases n) auto
  next
    case True
    then obtain m where n: "n = Suc m" by (cases n) auto
    have "filter (\<lambda>(i, _). i \<notin> set (k # take m (?fin (Suc k)))) (enumerate (Suc k) xs)
        = filter (\<lambda>(i, _). i \<notin> set (take m (?fin (Suc k)))) (enumerate (Suc k) xs)"
      using ge by (intro filter_cong) fastforce+
    then show ?thesis using True n Cons [of m "Suc k"] by simp
  qed
qed simp

lemma length_fin: "length (map fst (filter (\<lambda>(_, q). P q) (enumerate k xs))) = length (filter P xs)"
  by (induction xs arbitrary: k) auto

lemma proc_insert_eq:
  "pg_procs (proc_insert p g) =
     drop_first (length (filter finished (pg_procs g @ [p])) - MAX_FINISHED_PROCS) finished (pg_procs g @ [p])"
  unfolding proc_insert_def Let_def length_fin by (auto simp only: retain_drop_first if_True if_False) auto

text \<open>
  Inserting a process keeps what matters. Every running process stays, in order; of the
  finished ones exactly the newest 256 stay, in order; nothing is reordered, and nothing but the
  new process is added.
\<close>

theorem proc_insert_keeps:
  "filter (\<lambda>q. \<not> finished q) (pg_procs (proc_insert p g)) = filter (\<lambda>q. \<not> finished q) (pg_procs g @ [p]) \<and>
   filter finished (pg_procs (proc_insert p g)) =
     drop (length (filter finished (pg_procs g @ [p])) - MAX_FINISHED_PROCS) (filter finished (pg_procs g @ [p])) \<and>
   length (filter finished (pg_procs (proc_insert p g))) \<le> MAX_FINISHED_PROCS \<and>
   subseq (pg_procs (proc_insert p g)) (pg_procs g @ [p])"
  by (simp only: proc_insert_eq drop_first_filter length_drop drop_first_subseq) simp

section \<open>Identifiers\<close>

text \<open>
  Concurrent starts: a thread draws an identifier and later inserts its process under it;
  removals and exits happen in between. \<open>ps_pending\<close> are the identifiers drawn and not inserted.
\<close>

record proc_sys =
  ps_reg :: proc_registry
  ps_pending :: "string list"

inductive proc_step :: "proc_sys \<Rightarrow> proc_sys \<Rightarrow> bool" where
  ps_alloc: "alloc_id (ps_reg s) = (pid, g) \<Longrightarrow>
     proc_step s (s\<lparr>ps_reg := g, ps_pending := pid # ps_pending s\<rparr>)"
| ps_insert: "pr_id p \<in> set (ps_pending s) \<Longrightarrow>
     proc_step s (s\<lparr>ps_reg := proc_insert p (ps_reg s), ps_pending := remove1 (pr_id p) (ps_pending s)\<rparr>)"
| ps_remove: "remove_by_id pid scope (ps_reg s) = (r, g) \<Longrightarrow> proc_step s (s\<lparr>ps_reg := g\<rparr>)"
| ps_sandbox: "remove_for_sandbox sid (ps_reg s) = (u, g) \<Longrightarrow> proc_step s (s\<lparr>ps_reg := g\<rparr>)"
| ps_exit: "record_exit pid info (ps_reg s) = (u, g) \<Longrightarrow> proc_step s (s\<lparr>ps_reg := g\<rparr>)"

definition proc_init :: "proc_sys \<Rightarrow> bool" where
  "proc_init s \<longleftrightarrow> s = \<lparr>ps_reg = \<lparr>pg_procs = [], pg_seq = 0, pg_active = 0\<rparr>, ps_pending = []\<rparr>"

definition all_ids :: "proc_sys \<Rightarrow> string list" where
  "all_ids s = ps_pending s @ map pr_id (pg_procs (ps_reg s))"

definition proc_inv :: "proc_sys \<Rightarrow> bool" where
  "proc_inv s \<longleftrightarrow> distinct (all_ids s) \<and>
     (\<forall>i \<in> set (all_ids s). \<exists>n < pg_seq (ps_reg s). i = ''p-'' @ show_nat n)"

lemma distinct_subseq: "subseq xs ys \<Longrightarrow> distinct ys \<Longrightarrow> distinct xs"
  by (induction rule: list_emb.induct) (auto dest: list_emb_set)

lemma proc_inv_shrink:
  assumes "proc_inv s" and "subseq (map pr_id (pg_procs g)) (map pr_id (pg_procs (ps_reg s)))"
    and "pg_seq g = pg_seq (ps_reg s)"
  shows "proc_inv (s\<lparr>ps_reg := g\<rparr>)"
proof -
  have sub: "subseq (all_ids (s\<lparr>ps_reg := g\<rparr>)) (all_ids s)"
    using assms(2) by (simp add: all_ids_def list_emb_append_mono)
  then have "distinct (all_ids (s\<lparr>ps_reg := g\<rparr>))" "set (all_ids (s\<lparr>ps_reg := g\<rparr>)) \<subseteq> set (all_ids s)"
    using assms(1) by (auto simp: proc_inv_def dest: distinct_subseq list_emb_set)
  with assms show ?thesis by (auto simp: proc_inv_def)
qed

lemma remove_first_subseq: "remove_first P ps = (r, qs) \<Longrightarrow> subseq qs ps"
  by (induction ps arbitrary: qs) (auto split: if_splits prod.splits)

lemma remove_first_Some: "remove_first P ps = (Some p, qs) \<Longrightarrow> P p \<and> p \<in> set ps"
  by (induction ps arbitrary: qs) (auto split: if_splits prod.splits)

lemma remove_first_None: "remove_first P ps = (None, qs) \<Longrightarrow> qs = ps \<and> (\<forall>p \<in> set ps. \<not> P p)"
  by (induction ps arbitrary: qs) (auto split: if_splits prod.splits)

lemma remove_first_filter:
  "remove_first P ps = (r, qs) \<Longrightarrow> (\<And>p. Q p \<Longrightarrow> \<not> P p) \<Longrightarrow> filter Q qs = filter Q ps"
  by (induction ps arbitrary: qs) (auto split: if_splits prod.splits)

lemma proc_inv_init: "proc_init s \<Longrightarrow> proc_inv s"
  by (simp add: proc_init_def proc_inv_def all_ids_def)

lemma proc_inv_alloc:
  assumes "proc_inv s" and "alloc_id (ps_reg s) = (pid, g)"
  shows "proc_inv (s\<lparr>ps_reg := g, ps_pending := pid # ps_pending s\<rparr>)"
proof -
  let ?n = "pg_seq (ps_reg s)"
  have g: "pid = ''p-'' @ show_nat ?n" "g = (ps_reg s)\<lparr>pg_seq := ?n + 1\<rparr>"
    using assms(2) by (auto simp: alloc_id_def)
  have "pid \<notin> set (all_ids s)"
    using assms(1) g(1) by (auto simp: proc_inv_def dest: show_nat_inj)
  with assms(1) g show ?thesis by (auto simp: proc_inv_def all_ids_def less_Suc_eq)
qed

lemma proc_inv_insert:
  assumes "proc_inv s" and "pr_id p \<in> set (ps_pending s)"
  shows "proc_inv (s\<lparr>ps_reg := proc_insert p (ps_reg s), ps_pending := remove1 (pr_id p) (ps_pending s)\<rparr>)"
proof -
  let ?s1 = "s\<lparr>ps_reg := (ps_reg s)\<lparr>pg_procs := pg_procs (ps_reg s) @ [p]\<rparr>, ps_pending := remove1 (pr_id p) (ps_pending s)\<rparr>"
  have "mset (all_ids ?s1) = mset (all_ids s)"
    using assms(2) by (simp add: all_ids_def)
  then have "distinct (all_ids ?s1)" "set (all_ids ?s1) = set (all_ids s)"
    using assms(1) mset_eq_imp_distinct_iff mset_eq_setD unfolding proc_inv_def by blast+
  with assms(1) have "proc_inv ?s1" by (simp add: proc_inv_def)
  moreover have "subseq (map pr_id (pg_procs (proc_insert p (ps_reg s)))) (map pr_id (pg_procs (ps_reg s) @ [p]))"
    unfolding proc_insert_eq by (intro subseq_map drop_first_subseq)
  moreover have "pg_seq (proc_insert p (ps_reg s)) = pg_seq (ps_reg s)"
    by (simp add: proc_insert_def Let_def)
  ultimately have "proc_inv (?s1\<lparr>ps_reg := proc_insert p (ps_reg s)\<rparr>)"
    by (intro proc_inv_shrink) simp_all
  then show ?thesis by (simp add: proc_inv_def all_ids_def)
qed

interpretation procs: inductive_invariant proc_init proc_step proc_inv
proof unfold_locales
  fix s t
  show "proc_init s \<Longrightarrow> proc_inv s" by (rule proc_inv_init)
  assume inv: "proc_inv s" and "proc_step s t"
  from this(2) show "proc_inv t"
  proof cases
    case (ps_alloc pid g)
    with inv show ?thesis by (simp add: proc_inv_alloc)
  next
    case (ps_insert p)
    with inv show ?thesis by (simp add: proc_inv_insert)
  next
    case (ps_remove pid scope r g)
    with inv show ?thesis
      by (auto simp: remove_by_id_def split: prod.splits intro!: proc_inv_shrink subseq_map dest: remove_first_subseq)
  next
    case (ps_sandbox sid u g)
    with inv show ?thesis
      by (auto simp: remove_for_sandbox_def intro!: proc_inv_shrink subseq_map)
  next
    case (ps_exit pid info u g)
    then have "map pr_id (pg_procs g) = map pr_id (pg_procs (ps_reg s))" "pg_seq g = pg_seq (ps_reg s)"
      by (auto simp: record_exit_def)
    with inv ps_exit show ?thesis by (auto intro!: proc_inv_shrink)
  qed
qed

text \<open>
  Process identifiers are never reused. However starts, removals and exits interleave, the
  registered processes have pairwise different identifiers, each of the form \<open>p-n\<close> with \<open>n\<close> below
  the sequence counter, so the next one drawn is new.
\<close>

theorem proc_ids_unique:
  assumes "reach proc_init proc_step s"
  shows "distinct (map pr_id (pg_procs (ps_reg s))) \<and>
    (\<forall>p. p \<in> set (pg_procs (ps_reg s)) \<longrightarrow> (\<exists>n < pg_seq (ps_reg s). pr_id p = ''p-'' @ show_nat n))"
  using procs.reach_inv [OF assms] by (auto simp: proc_inv_def all_ids_def)

text \<open>
  Deleting a process is confined to its sandbox. With the scope of one sandbox, at most a
  process of that sandbox with the given identifier is removed, the processes of all others are
  untouched, and if none is found nothing changes.
\<close>

theorem remove_by_id_scoped:
  assumes "remove_by_id pid (Some sid) g = (r, g')"
  shows "(\<forall>other. other \<noteq> Some sid \<longrightarrow>
      filter (\<lambda>p. pr_sandbox_id p = other) (pg_procs g') = filter (\<lambda>p. pr_sandbox_id p = other) (pg_procs g)) \<and>
    (case r of
       Some p \<Rightarrow> p \<in> set (pg_procs g) \<and> pr_id p = pid \<and> pr_sandbox_id p = Some sid
     | None \<Rightarrow> g' = g \<and> (\<forall>p \<in> set (pg_procs g). pr_id p = pid \<longrightarrow> pr_sandbox_id p \<noteq> Some sid))"
proof -
  let ?P = "\<lambda>p. pr_id p = pid \<and> in_scope (Some sid) p"
  from assms obtain ps where ps: "remove_first ?P (pg_procs g) = (r, ps)" and g': "g' = g\<lparr>pg_procs := ps\<rparr>"
    by (auto simp: remove_by_id_def split: prod.splits)
  have "filter (\<lambda>p. pr_sandbox_id p = other) ps = filter (\<lambda>p. pr_sandbox_id p = other) (pg_procs g)"
    if "other \<noteq> Some sid" for other
    using that by (intro remove_first_filter [OF ps]) (auto simp: in_scope_def)
  moreover have "case r of
       Some p \<Rightarrow> p \<in> set (pg_procs g) \<and> pr_id p = pid \<and> pr_sandbox_id p = Some sid
     | None \<Rightarrow> ps = pg_procs g \<and> (\<forall>p \<in> set (pg_procs g). pr_id p = pid \<longrightarrow> pr_sandbox_id p \<noteq> Some sid)"
    using ps by (cases r) (auto simp: in_scope_def dest!: remove_first_Some remove_first_None)
  ultimately show ?thesis using g' by (cases r) simp_all
qed


text \<open>Two starts run side by side; the first inserted process is then deleted.\<close>

definition demo_proc :: "string \<Rightarrow> proc" where
  "demo_proc i = \<lparr>pr_id = i, pr_pid = 7, pr_handle = 0, pr_tag = None, pr_cmd = JNull, pr_started_at_ms = 0,
     pr_sandbox_id = Some ''ab'', pr_exit = None\<rparr>"

theorem remove_by_id_scoped_witness:
  "remove_by_id ''p-0'' (Some ''ab'') \<lparr>pg_procs = [demo_proc ''p-0''], pg_seq = 1, pg_active = 0\<rparr>
     = (Some (demo_proc ''p-0''), \<lparr>pg_procs = [], pg_seq = 1, pg_active = 0\<rparr>) \<and>
   pr_sandbox_id (demo_proc ''p-0'') = Some ''ab''"
proof -
  have "remove_by_id ''p-0'' (Some ''ab'') \<lparr>pg_procs = [demo_proc ''p-0''], pg_seq = 1, pg_active = 0\<rparr>
     = (Some (demo_proc ''p-0''), \<lparr>pg_procs = [], pg_seq = 1, pg_active = 0\<rparr>)"
    by (simp add: remove_by_id_def in_scope_def demo_proc_def)
  with remove_by_id_scoped [OF this] show ?thesis by simp
qed

theorem proc_ids_unique_witness:
  "\<exists>s. reach proc_init proc_step s \<and> map pr_id (pg_procs (ps_reg s)) = [''p-0''] \<and>
     distinct (map pr_id (pg_procs (ps_reg s)))"
proof -
  let ?s0 = "\<lparr>ps_reg = \<lparr>pg_procs = [], pg_seq = 0, pg_active = 0\<rparr>, ps_pending = []\<rparr>"
  let ?s1 = "?s0\<lparr>ps_reg := \<lparr>pg_procs = [], pg_seq = 1, pg_active = 0\<rparr>, ps_pending := [''p-0'']\<rparr>"
  let ?s2 = "?s1\<lparr>ps_reg := proc_insert (demo_proc ''p-0'') (ps_reg ?s1), ps_pending := remove1 (pr_id (demo_proc ''p-0'')) (ps_pending ?s1)\<rparr>"
  have "reach proc_init proc_step ?s0" by (rule reach_init) (simp add: proc_init_def)
  moreover have "alloc_id (ps_reg ?s0) = (''p-0'', \<lparr>pg_procs = [], pg_seq = 1, pg_active = 0\<rparr>)"
    by (simp add: alloc_id_def show_radix.simps digit_char_def str_eval)
  ultimately have r1: "reach proc_init proc_step ?s1" using ps_alloc reach_step by fastforce
  have "proc_step ?s1 ?s2" by (rule ps_insert) (simp add: demo_proc_def)
  with r1 have r: "reach proc_init proc_step ?s2" by (rule reach_step)
  have i: "map pr_id (pg_procs (ps_reg ?s2)) = [''p-0'']"
    by (simp add: proc_insert_def demo_proc_def)
  have d: "distinct (map pr_id (pg_procs (ps_reg ?s2)))" using proc_ids_unique [OF r] by (rule conjunct1)
  show ?thesis by (rule exI [where x = ?s2], intro conjI) (rule r, rule i, rule d)
qed

end
