(* ===== verification/Landlock.thy ===== *)
theory Landlock
  imports Kernel
begin

text \<open>
  \<open>src/landlock.rs\<close>: the confinement of a sandbox's processes. A ruleset names the access rights
  it handles and grants some of them beneath given directories; whatever is handled and not
  granted is denied, whatever is not handled is not restricted.

  The lemmas show, for every kernel version, what a sandbox can do outside its home: read and execute, write
  to the listed device files, and what the version does not handle (truncation before version 3, ioctl on devices
  before version 5). They show that a ruleset is only ever returned after the rule for the home
  has been accepted by the kernel, and that every grant lies within the rights handled (the kernel
  refuses others) with no directory right on a device node.

  The contents of the \<open>OnceLock\<close> of \<open>system_dir_rules\<close>, which \<open>main\<close> fills before it accepts
  the first connection, is the argument \<open>rules\<close> of \<open>build_ruleset\<close>; the cached kernel version is
  the constant \<open>k_abi\<close>.
\<close>

section \<open>Access rights\<close>

definition FS_EXECUTE :: u64 where "FS_EXECUTE = push_bit 0 1"
definition FS_WRITE_FILE :: u64 where "FS_WRITE_FILE = push_bit 1 1"
definition FS_READ_FILE :: u64 where "FS_READ_FILE = push_bit 2 1"
definition FS_READ_DIR :: u64 where "FS_READ_DIR = push_bit 3 1"
definition FS_REFER :: u64 where "FS_REFER = push_bit 13 1"
definition FS_TRUNCATE :: u64 where "FS_TRUNCATE = push_bit 14 1"
definition FS_IOCTL_DEV :: u64 where "FS_IOCTL_DEV = push_bit 15 1"
definition FS_BASE :: u64 where "FS_BASE = push_bit 13 1 - 1"
definition NET_BIND_TCP :: u64 where "NET_BIND_TCP = push_bit 0 1"
definition SCOPED_ABSTRACT_UNIX_SOCKET :: u64 where "SCOPED_ABSTRACT_UNIX_SOCKET = push_bit 0 1"

lemmas fs_bits = FS_EXECUTE_def FS_WRITE_FILE_def FS_READ_FILE_def FS_READ_DIR_def FS_REFER_def
  FS_TRUNCATE_def FS_IOCTL_DEV_def FS_BASE_def

definition handled_fs_for :: "int \<Rightarrow> u64" where
  "handled_fs_for abi =
     (let h0 = FS_BASE;
          h1 = (if 2 \<le> abi then h0 OR FS_REFER else h0);
          h2 = (if 3 \<le> abi then h1 OR FS_TRUNCATE else h1)
      in if 5 \<le> abi then h2 OR FS_IOCTL_DEV else h2)"

definition FULL_ABI :: int where "FULL_ABI = 6"

definition features :: "int \<Rightarrow> string list" where
  "features abi =
     (if 1 \<le> abi then [''fs''] else []) @
     (if 2 \<le> abi then [''refer''] else []) @
     (if 3 \<le> abi then [''truncate''] else []) @
     (if 4 \<le> abi then [''no_tcp_bind''] else []) @
     (if 5 \<le> abi then [''ioctl_dev''] else []) @
     (if 6 \<le> abi then [''scoped_abstract_unix''] else [])"

section \<open>Rulesets\<close>

record 'w ll_kernel = "'w kernel" +
  k_abi :: int
  k_ll_create :: "u64 \<Rightarrow> u64 \<Rightarrow> u64 \<Rightarrow> ('w, fd) io"
  k_ll_add_rule :: "fd \<Rightarrow> fd \<Rightarrow> u64 \<Rightarrow> ('w, unit) io"
  k_ll_restrict :: "fd \<Rightarrow> ('w, unit) io"
  k_close :: "fd \<Rightarrow> ('w, unit) io"

definition available :: "('w, 'z) ll_kernel_scheme \<Rightarrow> bool" where
  "available K \<longleftrightarrow> 1 \<le> k_abi K"

definition open_o_path :: "('w, 'z) ll_kernel_scheme \<Rightarrow> string \<Rightarrow> ('w osw, fd option) io" where
  "open_o_path K path =
     (if NUL \<in> set path then returnE None
      else catchE (sys_fd (ByPath path) (k_open K path (O_PATH OR O_CLOEXEC) 0))
             (\<lambda>f. returnE (Some f)) (\<lambda>_. returnE None))"

definition close_fd :: "('w, 'z) ll_kernel_scheme \<Rightarrow> fd \<Rightarrow> ('w osw, unit) io" where
  "close_fd K f = ignoreE (sys (CloseFd f) (k_close K f))"

definition add_fd_rule :: "('w, 'z) ll_kernel_scheme \<Rightarrow> fd \<Rightarrow> fd \<Rightarrow> u64 \<Rightarrow> ('w osw, unit) io" where
  "add_fd_rule K ruleset_fd parent_fd access =
     sys (LlAddRule ruleset_fd parent_fd access) (k_ll_add_rule K ruleset_fd parent_fd access)"

definition add_path_rule :: "('w, 'z) ll_kernel_scheme \<Rightarrow> fd \<Rightarrow> string \<Rightarrow> u64 \<Rightarrow> ('w osw, unit) io" where
  "add_path_rule K ruleset_fd path access =
     bindE (open_o_path K path) (\<lambda>r. case r of
       None \<Rightarrow> throwE (IoError NotFound (''cannot open '' @ path @ '' to build a landlock rule''))
     | Some f \<Rightarrow>
         catchE (add_fd_rule K ruleset_fd f access)
           (\<lambda>_. close_fd K f)
           (\<lambda>e. thenE (close_fd K f) (throwE e)))"

text \<open>One loop of \<open>system_dir_rules\<close>: the paths that exist, each with the same access.\<close>

fun open_rules :: "('w, 'z) ll_kernel_scheme \<Rightarrow> u64 \<Rightarrow> string list \<Rightarrow> ('w osw, (fd \<times> u64) list) io" where
  "open_rules K access [] = returnE []"
| "open_rules K access (p # ps) =
     bindE (open_o_path K p) (\<lambda>r.
     bindE (open_rules K access ps) (\<lambda>rest.
       returnE ((case r of None \<Rightarrow> [] | Some f \<Rightarrow> [(f, access)]) @ rest)))"

definition ro_dirs :: "string list" where
  "ro_dirs = [''/usr'', ''/bin'', ''/sbin'', ''/lib'', ''/lib64'', ''/lib32'', ''/libx32'', ''/etc'', ''/opt'', ''/run'']"

definition data_dirs :: "string list" where
  "data_dirs = [''/proc'', ''/sys'']"

definition dev_nodes :: "string list" where
  "dev_nodes = [''/dev/null'', ''/dev/zero'', ''/dev/full'', ''/dev/random'', ''/dev/urandom'', ''/dev/tty'', ''/dev/ptmx'']"

definition dev_dirs :: "string list" where
  "dev_dirs = [''/dev/pts'', ''/dev/fd'', ''/dev/shm/../fd'']"

definition ro_access :: "int \<Rightarrow> u64" where
  "ro_access abi = (FS_EXECUTE OR FS_READ_FILE OR FS_READ_DIR) AND handled_fs_for abi"

definition rd_access :: "int \<Rightarrow> u64" where
  "rd_access abi = (FS_READ_FILE OR FS_READ_DIR) AND handled_fs_for abi"

definition dev_node_access :: "int \<Rightarrow> u64" where
  "dev_node_access abi = (FS_READ_FILE OR FS_WRITE_FILE OR FS_IOCTL_DEV) AND handled_fs_for abi"

definition dev_dir_access :: "int \<Rightarrow> u64" where
  "dev_dir_access abi = (FS_READ_FILE OR FS_WRITE_FILE OR FS_READ_DIR OR FS_IOCTL_DEV) AND handled_fs_for abi"

definition system_dir_rules :: "('w, 'z) ll_kernel_scheme \<Rightarrow> ('w osw, (fd \<times> u64) list) io" where
  "system_dir_rules K =
     bindE (open_rules K (ro_access (k_abi K)) ro_dirs) (\<lambda>r1.
     bindE (open_rules K (rd_access (k_abi K)) data_dirs) (\<lambda>r2.
     bindE (open_rules K (dev_node_access (k_abi K)) dev_nodes) (\<lambda>r3.
     bindE (open_rules K (dev_dir_access (k_abi K)) dev_dirs) (\<lambda>r4.
       returnE (r1 @ r2 @ r3 @ r4)))))"

text \<open>A system rule that does not attach is only reported on the error stream.\<close>

fun add_system_rules :: "('w, 'z) ll_kernel_scheme \<Rightarrow> fd \<Rightarrow> (fd \<times> u64) list \<Rightarrow> ('w osw, unit) io" where
  "add_system_rules K ruleset_fd [] = returnE ()"
| "add_system_rules K ruleset_fd ((parent_fd, access) # rs) =
     thenE (ignoreE (add_fd_rule K ruleset_fd parent_fd access)) (add_system_rules K ruleset_fd rs)"

definition handled_net :: "int \<Rightarrow> u64" where
  "handled_net abi = (if 4 \<le> abi then NET_BIND_TCP else 0)"

definition scoped_bits :: "int \<Rightarrow> u64" where
  "scoped_bits abi = (if 6 \<le> abi then SCOPED_ABSTRACT_UNIX_SOCKET else 0)"

definition build_ruleset :: "('w, 'z) ll_kernel_scheme \<Rightarrow> (fd \<times> u64) list \<Rightarrow> string \<Rightarrow> ('w osw, fd) io" where
  "build_ruleset K rules home =
     (let abi = k_abi K in
      if abi < 1 then throwE (IoError Unsupported ''landlock is unavailable on this kernel'')
      else (let hfs = handled_fs_for abi in
        bindE (sys_fd (LlCreate hfs (handled_net abi) (scoped_bits abi))
                 (k_ll_create K hfs (handled_net abi) (scoped_bits abi))) (\<lambda>ruleset_fd.
        thenE (add_system_rules K ruleset_fd rules)
          (catchE (add_path_rule K ruleset_fd home hfs)
             (\<lambda>_. returnE ruleset_fd)
             (\<lambda>e. thenE (close_fd K ruleset_fd) (throwE e))))))"

definition restrict_self :: "('w, 'z) ll_kernel_scheme \<Rightarrow> fd \<Rightarrow> ('w osw, unit) io" where
  "restrict_self K ruleset_fd = sys (LlRestrict ruleset_fd) (k_ll_restrict K ruleset_fd)"

section \<open>The system rules\<close>

text \<open>The table of the system rules, by path.\<close>

definition system_specs :: "int \<Rightarrow> (string \<times> u64) list" where
  "system_specs abi =
     map (\<lambda>p. (p, ro_access abi)) ro_dirs @ map (\<lambda>p. (p, rd_access abi)) data_dirs @
     map (\<lambda>p. (p, dev_node_access abi)) dev_nodes @ map (\<lambda>p. (p, dev_dir_access abi)) dev_dirs"

text \<open>The rights to look at and run what is there, and with them those to change an existing file.\<close>

definition READ_RIGHTS :: u64 where
  "READ_RIGHTS = FS_EXECUTE OR FS_READ_FILE OR FS_READ_DIR"

definition FILE_RIGHTS :: u64 where
  "FILE_RIGHTS = READ_RIGHTS OR FS_WRITE_FILE OR FS_IOCTL_DEV"

lemma or_and_zero: "(a OR b) AND m = 0 \<longleftrightarrow> a AND m = 0 \<and> b AND m = (0 :: 'a :: len word)"
  by (auto simp: bit_eq_iff bit_simps)

lemma and_not_subset: "(a AND h) AND NOT m = 0" if "a AND NOT m = (0 :: 'a :: len word)"
  using that by (auto simp: bit_eq_iff bit_simps)

lemma and_disjoint: "(a AND h) AND m = 0" if "a AND m = (0 :: 'a :: len word)"
  using that by (auto simp: bit_eq_iff bit_simps)

lemma access_within:
  "ro_access abi AND NOT READ_RIGHTS = 0" "rd_access abi AND NOT READ_RIGHTS = 0"
  "ro_access abi AND NOT FILE_RIGHTS = 0" "rd_access abi AND NOT FILE_RIGHTS = 0"
  "dev_node_access abi AND NOT FILE_RIGHTS = 0" "dev_dir_access abi AND NOT FILE_RIGHTS = 0"
  unfolding ro_access_def rd_access_def dev_node_access_def dev_dir_access_def
  by (rule and_not_subset, simp add: READ_RIGHTS_def FILE_RIGHTS_def fs_bits)+

lemma system_rules_wf:
  "(\<forall>(p, a) \<in> set (system_specs abi). a AND handled_fs_for abi = a) \<and>
   (\<forall>(p, a) \<in> set (system_specs abi). p \<in> set dev_nodes \<longrightarrow> a AND FS_READ_DIR = 0)"
proof -
  have "a AND handled_fs_for abi = a"
    if "a = ro_access abi \<or> a = rd_access abi \<or> a = dev_node_access abi \<or> a = dev_dir_access abi" for a
    using that by (auto simp: ro_access_def rd_access_def dev_node_access_def dev_dir_access_def and.assoc)
  moreover have "dev_node_access abi AND FS_READ_DIR = 0"
    unfolding dev_node_access_def by (rule and_disjoint) (simp add: fs_bits)
  moreover have "p \<notin> set dev_nodes" if "p \<in> set ro_dirs \<or> p \<in> set data_dirs \<or> p \<in> set dev_dirs" for p
    using that by (auto simp: ro_dirs_def data_dirs_def dev_dirs_def dev_nodes_def)
  ultimately show ?thesis unfolding system_specs_def by auto
qed

lemma handled_fs_mono: "abi \<le> abi' \<Longrightarrow> handled_fs_for abi AND handled_fs_for abi' = handled_fs_for abi"
  by (cases "2 \<le> abi"; cases "3 \<le> abi"; cases "5 \<le> abi"; cases "2 \<le> abi'"; cases "3 \<le> abi'"; cases "5 \<le> abi'")
     (simp_all add: handled_fs_for_def fs_bits)

lemma open_o_path_log:
  assumes "open_o_path K p s = (Inr r, t)"
  shows "\<exists>new. log t = log s @ new \<and> (\<forall>f. r = Some f \<longrightarrow> new = [(ByPath p, Some f)])"
  using assms by (auto simp: open_o_path_def catchE_def sys_fd_def returnE_def split: if_splits prod.splits sum.splits)

lemma open_rules_log:
  "open_rules K a ps s = (Inr rules, t) \<Longrightarrow>
    \<exists>new. log t = log s @ new \<and> (\<forall>(f, b) \<in> set rules. b = a \<and> (\<exists>p \<in> set ps. (ByPath p, Some f) \<in> set new))"
proof (induction ps arbitrary: s rules t)
  case Nil
  then show ?case by (auto simp: returnE_def)
next
  case (Cons p ps)
  then obtain r s1 rest where r: "open_o_path K p s = (Inr r, s1)" and
    rest: "open_rules K a ps s1 = (Inr rest, t)" and
    rules: "rules = (case r of None \<Rightarrow> [] | Some f \<Rightarrow> [(f, a)]) @ rest"
    by (auto simp: bindE_Inr returnE_def)
  from open_o_path_log [OF r] obtain n1 where n1: "log s1 = log s @ n1" "\<forall>f. r = Some f \<longrightarrow> n1 = [(ByPath p, Some f)]" by blast
  from Cons.IH [OF rest] obtain n2 where n2: "log t = log s1 @ n2"
    "\<forall>(f, b) \<in> set rest. b = a \<and> (\<exists>p \<in> set ps. (ByPath p, Some f) \<in> set n2)" by blast
  show ?case
    using n1 n2 rules by (intro exI [of _ "n1 @ n2"]) (auto split: option.splits)
qed

lemma open_rules_ok: "\<exists>rules t. open_rules K a ps s = (Inr rules, t)"
proof (induction ps arbitrary: s)
  case (Cons p ps)
  have "\<exists>r s1. open_o_path K p s = (Inr r, s1)"
    by (auto simp: open_o_path_def catchE_def returnE_def split: prod.split sum.split)
  then obtain r s1 where "open_o_path K p s = (Inr r, s1)" by blast
  with Cons [of s1] show ?case by (auto simp: bindE_run returnE_def)
qed (simp add: returnE_def)

text \<open>
  The pinned system rules are those of the table. Computing them always succeeds, skipping
  what is absent; each descriptor was opened from a path of the table, carries the access the
  table has for that path, and asks for handled rights only, which the kernel requires.
\<close>

theorem system_dir_rules_spec:
  "\<exists>rules t new. system_dir_rules K s = (Inr rules, t) \<and> log t = log s @ new \<and>
     (\<forall>(f, a) \<in> set rules. a AND handled_fs_for (k_abi K) = a \<and>
        (\<exists>p. (p, a) \<in> set (system_specs (k_abi K)) \<and> (ByPath p, Some f) \<in> set new))"
proof -
  let ?abi = "k_abi K"
  obtain r1 s1 where 1: "open_rules K (ro_access ?abi) ro_dirs s = (Inr r1, s1)" using open_rules_ok by blast
  obtain r2 s2 where 2: "open_rules K (rd_access ?abi) data_dirs s1 = (Inr r2, s2)" using open_rules_ok by blast
  obtain r3 s3 where 3: "open_rules K (dev_node_access ?abi) dev_nodes s2 = (Inr r3, s3)" using open_rules_ok by blast
  obtain r4 s4 where 4: "open_rules K (dev_dir_access ?abi) dev_dirs s3 = (Inr r4, s4)" using open_rules_ok by blast
  obtain n1 where n1: "log s1 = log s @ n1"
    "\<forall>(f, b) \<in> set r1. b = ro_access ?abi \<and> (\<exists>p \<in> set ro_dirs. (ByPath p, Some f) \<in> set n1)" using open_rules_log [OF 1] by blast
  obtain n2 where n2: "log s2 = log s1 @ n2"
    "\<forall>(f, b) \<in> set r2. b = rd_access ?abi \<and> (\<exists>p \<in> set data_dirs. (ByPath p, Some f) \<in> set n2)" using open_rules_log [OF 2] by blast
  obtain n3 where n3: "log s3 = log s2 @ n3"
    "\<forall>(f, b) \<in> set r3. b = dev_node_access ?abi \<and> (\<exists>p \<in> set dev_nodes. (ByPath p, Some f) \<in> set n3)" using open_rules_log [OF 3] by blast
  obtain n4 where n4: "log s4 = log s3 @ n4"
    "\<forall>(f, b) \<in> set r4. b = dev_dir_access ?abi \<and> (\<exists>p \<in> set dev_dirs. (ByPath p, Some f) \<in> set n4)" using open_rules_log [OF 4] by blast
  have "system_dir_rules K s = (Inr (r1 @ r2 @ r3 @ r4), s4)"
    using 1 2 3 4 by (simp add: system_dir_rules_def bindE_run returnE_def)
  moreover have "log s4 = log s @ (n1 @ n2 @ n3 @ n4)" using n1(1) n2(1) n3(1) n4(1) by simp
  moreover have "\<forall>(f, a) \<in> set (r1 @ r2 @ r3 @ r4). \<exists>p. (p, a) \<in> set (system_specs ?abi) \<and>
      (ByPath p, Some f) \<in> set (n1 @ n2 @ n3 @ n4)"
    using n1(2) n2(2) n3(2) n4(2) unfolding system_specs_def by fastforce
  ultimately show ?thesis using system_rules_wf [of ?abi] by blast
qed

lemma add_system_rules_log:
  "\<exists>t. add_system_rules K r rs s = (Inr (), t) \<and> log t = log s @ map (\<lambda>(f, a). (LlAddRule r f a, None)) rs"
proof (induction rs arbitrary: s)
  case (Cons x rs)
  obtain f a where x: "x = (f, a)" by (cases x)
  let ?s1 = "snd (add_fd_rule K r f a s)"
  have "log ?s1 = log s @ [(LlAddRule r f a, None)]"
    by (simp add: add_fd_rule_def sys_def split: prod.split)
  moreover have "add_system_rules K r (x # rs) s = add_system_rules K r rs ?s1"
    by (simp add: x thenE_def bindE_def ignoreE_def)
  ultimately show ?case using Cons [of ?s1] x by auto
qed (simp add: returnE_def)

text \<open>The calls of a successful \<open>build_ruleset\<close>.\<close>

lemma build_ruleset_log:
  assumes "build_ruleset K rules home s = (Inr r, t)"
  shows "\<exists>h w w'. log t = log s @
      [(LlCreate (handled_fs_for (k_abi K)) (handled_net (k_abi K)) (scoped_bits (k_abi K)), Some r)] @
      map (\<lambda>(f, a). (LlAddRule r f a, None)) rules @
      [(ByPath home, Some h), (LlAddRule r h (handled_fs_for (k_abi K)), None), (CloseFd h, None)] \<and>
    k_ll_add_rule K r h (handled_fs_for (k_abi K)) w = (Inr (), w') \<and> 1 \<le> k_abi K"
proof -
  let ?h = "handled_fs_for (k_abi K)"
  from assms obtain s1 s2 s3 where abi: "1 \<le> k_abi K" and
    c: "sys_fd (LlCreate ?h (handled_net (k_abi K)) (scoped_bits (k_abi K)))
          (k_ll_create K ?h (handled_net (k_abi K)) (scoped_bits (k_abi K))) s = (Inr r, s1)" and
    a: "add_system_rules K r rules s1 = (Inr (), s2)" and
    p: "add_path_rule K r home ?h s2 = (Inr (), s3)" and t: "t = s3"
    by (auto simp: build_ruleset_def Let_def bindE_Inr catchE_Inr thenE_def throwE_def returnE_def split: if_splits)
  from c have l1: "log s1 = log s @ [(LlCreate ?h (handled_net (k_abi K)) (scoped_bits (k_abi K)), Some r)]"
    by (auto simp: sys_fd_def split: prod.splits)
  from p obtain f s4 s5 where o: "open_o_path K home s2 = (Inr (Some f), s4)" and
    ad: "add_fd_rule K r f ?h s4 = (Inr (), s5)" and cl: "s3 = snd (sys (CloseFd f) (k_close K f) s5)"
    by (auto simp: add_path_rule_def bindE_Inr catchE_Inr throwE_def thenE_def close_fd_def ignoreE_def
        split: option.splits)
  have "log s5 = log s4 @ [(LlAddRule r f ?h, None)]" "k_ll_add_rule K r f ?h (kst s4) = (Inr (), kst s5)"
    using ad by (auto simp: add_fd_rule_def sys_def split: prod.splits)
  moreover have "log s3 = log s5 @ [(CloseFd f, None)]" using cl by (simp add: sys_def split: prod.splits)
  moreover have "log s4 = log s2 @ [(ByPath home, Some f)]" using open_o_path_log [OF o] by auto
  moreover have "log s2 = log s1 @ map (\<lambda>(f, a). (LlAddRule r f a, None)) rules"
    using add_system_rules_log [of K r rules s1] a by auto
  ultimately show ?thesis using l1 t abi by (intro exI [of _ f] exI [of _ "kst s4"] exI [of _ "kst s5"]) simp
qed

text \<open>
  C17: a ruleset is only returned complete. If one is built, Landlock is available, the ruleset
  handles every file right of this version together with TCP binding (from version 4) and
  abstract sockets (from version 6), and the rule for the home was attached successfully after
  the system rules; otherwise the caller gets an error and can fail closed.
\<close>

theorem build_ruleset_effect:
  assumes "build_ruleset K rules home s = (Inr r, t)"
  shows "\<exists>h w w'. log t = log s @
      [(LlCreate (handled_fs_for (k_abi K)) (handled_net (k_abi K)) (scoped_bits (k_abi K)), Some r)] @
      map (\<lambda>(f, a). (LlAddRule r f a, None)) rules @
      [(ByPath home, Some h), (LlAddRule r h (handled_fs_for (k_abi K)), None), (CloseFd h, None)] \<and>
    k_ll_add_rule K r h (handled_fs_for (k_abi K)) w = (Inr (), w') \<and> 1 \<le> k_abi K"
  using assms by (rule build_ruleset_log)

section \<open>What a ruleset permits\<close>

text \<open>
  The documented meaning of a ruleset, read off the calls that made it. A right the ruleset handles is
  permitted on an object exactly if a rule for the object or a directory above it grants it; a right it does not handle is
  not restricted at all, but for moving between directories, which every ruleset denies by default. \<open>beneath f x\<close>
  says that the object \<open>x\<close> is the one \<open>f\<close> was opened on or lies below it. Every rule call counts as attached; one that the kernel
  refuses grants nothing.
\<close>

definition ALL_FS :: u64 where
  "ALL_FS = FS_BASE OR FS_REFER OR FS_TRUNCATE OR FS_IOCTL_DEV"

fun call_handles :: "fd \<Rightarrow> fs_call \<times> fd option \<Rightarrow> u64" where
  "call_handles r (LlCreate hfs hnet sc, res) = (if res = Some r then hfs else 0)"
| "call_handles r c = 0"

fun call_grants :: "(fd \<Rightarrow> 'o \<Rightarrow> bool) \<Rightarrow> fd \<Rightarrow> 'o \<Rightarrow> fs_call \<times> fd option \<Rightarrow> u64" where
  "call_grants beneath r x (LlAddRule q f a, res) = (if q = r \<and> beneath f x then a else 0)"
| "call_grants beneath r x c = 0"

definition all_rights :: "u64 list \<Rightarrow> u64" where
  "all_rights ws = foldr (OR) ws 0"

definition permits :: "(fd \<Rightarrow> 'o \<Rightarrow> bool) \<Rightarrow> (fs_call \<times> fd option) list \<Rightarrow> fd \<Rightarrow> 'o \<Rightarrow> u64" where
  "permits beneath cs r x =
     (ALL_FS AND NOT (all_rights (map (call_handles r) cs) OR FS_REFER)) OR all_rights (map (call_grants beneath r x) cs)"

text \<open>The rights this kernel version cannot handle, and which no ruleset of it restricts.\<close>

definition unrestricted :: "int \<Rightarrow> u64" where
  "unrestricted abi = (if abi < 3 then FS_TRUNCATE else 0) OR (if abi < 5 then FS_IOCTL_DEV else 0)"

text \<open>The object is, or lies below, one of the device files and directories opened in these calls.\<close>

definition under_device :: "(fd \<Rightarrow> 'o \<Rightarrow> bool) \<Rightarrow> (fs_call \<times> fd option) list \<Rightarrow> 'o \<Rightarrow> bool" where
  "under_device beneath cs x \<longleftrightarrow>
     list_ex (\<lambda>c. case c of (ByPath p, Some f) \<Rightarrow> p \<in> set (dev_nodes @ dev_dirs) \<and> beneath f x | _ \<Rightarrow> False) cs"

lemma all_rights_simps: "all_rights [] = 0" "all_rights (w # ws) = w OR all_rights ws" "all_rights (vs @ ws) = all_rights vs OR all_rights ws"
  by (simp_all add: all_rights_def) (induction vs, simp_all add: or.assoc)

lemma all_rights_none: "(\<And>w. w \<in> set ws \<Longrightarrow> w AND m = 0) \<Longrightarrow> all_rights ws AND m = 0"
  by (induction ws) (simp_all add: all_rights_simps or_and_zero)

lemma unhandled: "ALL_FS AND NOT (handled_fs_for abi OR FS_REFER) = unrestricted abi"
  "ALL_FS AND NOT (handled_fs_for abi) AND NOT FS_REFER = unrestricted abi"
  by (cases "2 \<le> abi"; cases "3 \<le> abi"; cases "5 \<le> abi")
     (simp_all add: ALL_FS_def handled_fs_for_def unrestricted_def fs_bits)

lemma unrestricted_cases: "unrestricted abi \<in> {0, FS_IOCTL_DEV, FS_TRUNCATE OR FS_IOCTL_DEV}"
  by (auto simp: unrestricted_def)

text \<open>The ruleset of \<open>build_ruleset\<close>: what is not restricted, what the system rules grant, what the home's grants.\<close>

lemma built_permits:
  assumes "log t = log s @
      [(LlCreate (handled_fs_for abi) n sc, Some r)] @
      map (\<lambda>(f, a). (LlAddRule r f a, None)) rules @
      [(ByPath home, Some h), (LlAddRule r h (handled_fs_for abi), None), (CloseFd h, None)]"
    and "log t = log s @ cs"
  shows "permits beneath cs r x = unrestricted abi OR
     (all_rights (map (\<lambda>(f, a). if beneath f x then a else 0) rules) OR (if beneath h x then handled_fs_for abi else 0))"
proof -
  have g: "map (call_handles r) (map (\<lambda>(f, a). (LlAddRule r f a, None)) rules) = map (\<lambda>_. 0) rules"
    "map (call_grants beneath r x) (map (\<lambda>(f, a). (LlAddRule r f a, None)) rules) = map (\<lambda>(f, a). if beneath f x then a else 0) rules"
    by auto
  have z: "all_rights (map (\<lambda>_. 0) rules) = 0" by (induction rules) (simp_all add: all_rights_simps)
  have cs: "cs = [(LlCreate (handled_fs_for abi) n sc, Some r)] @ map (\<lambda>(f, a). (LlAddRule r f a, None)) rules @
      [(ByPath home, Some h), (LlAddRule r h (handled_fs_for abi), None), (CloseFd h, None)]" using assms by simp
  show ?thesis
    unfolding permits_def cs map_append g using z by (simp add: all_rights_simps unhandled)
qed

text \<open>A system rule only reads and runs, unless its descriptor was opened on a device path.\<close>

lemma system_rule_rights:
  assumes "system_dir_rules K s = (Inr rules, t)" and "log t = log s @ cs" and "(f, a) \<in> set rules"
  shows "a AND handled_fs_for (k_abi K) = a" "a AND NOT FILE_RIGHTS = 0"
    "beneath f x \<Longrightarrow> \<not> under_device beneath cs x \<Longrightarrow> a AND NOT READ_RIGHTS = 0"
proof -
  obtain p where p: "(p, a) \<in> set (system_specs (k_abi K))" "(ByPath p, Some f) \<in> set cs" and
    h: "a AND handled_fs_for (k_abi K) = a"
    using system_dir_rules_spec [of K s] assms by fastforce
  show "a AND handled_fs_for (k_abi K) = a" by (rule h)
  show "a AND NOT FILE_RIGHTS = 0" using p(1) access_within by (auto simp: system_specs_def)
  assume b: "beneath f x" and "\<not> under_device beneath cs x"
  then have "p \<notin> set (dev_nodes @ dev_dirs)" using p(2) by (auto simp: under_device_def list_ex_iff)
  then show "a AND NOT READ_RIGHTS = 0" using p(1) access_within by (auto simp: system_specs_def)
qed
lemma system_part:
  assumes "\<And>f a. (f, a) \<in> set rules \<Longrightarrow> beneath f x \<Longrightarrow> a AND NOT m = 0"
  shows "all_rights (map (\<lambda>(f, a). if beneath f x then a else 0) rules) AND NOT m = 0"
  by (rule all_rights_none) (use assms in auto)

lemma or_and_left: "b AND m = 0 \<Longrightarrow> (a OR b) AND m = a AND (m :: 'a :: len word)"
  by (simp add: bit.conj_disj_distrib2)

text \<open>Both parts together: beneath the home everything, elsewhere what the system rules leave.\<close>

lemma unrestricted_parts:
  "unrestricted abi AND NOT READ_RIGHTS = unrestricted abi"
  "unrestricted abi AND NOT FILE_RIGHTS = unrestricted abi AND FS_TRUNCATE"
  "unrestricted abi OR handled_fs_for abi = (if abi < 2 then ALL_FS AND NOT FS_REFER else ALL_FS)"
  using unrestricted_cases [of abi]
  by (auto simp: READ_RIGHTS_def FILE_RIGHTS_def fs_bits)
     (cases "2 \<le> abi"; cases "3 \<le> abi"; cases "5 \<le> abi";
      simp add: ALL_FS_def handled_fs_for_def unrestricted_def fs_bits)+

lemma system_within:
  assumes "\<And>f a. (f, a) \<in> set rules \<Longrightarrow> a AND m = a"
  shows "all_rights (map (\<lambda>(f, a). if beneath f x then a else 0) rules) OR m = (m :: u64)"
proof -
  have "a OR m = m" if "a AND m = a" for a :: u64 using that by (auto simp: bit_eq_iff bit_simps)
  with assms have "\<forall>(f, a) \<in> set rules. a OR m = m" by blast
  then show ?thesis by (induction rules) (auto simp: all_rights_simps or.assoc)
qed

text \<open>
  C16: what a sandbox can do outside its home, exactly, on every Landlock version. Take the rules that
  \<open>system_dir_rules\<close> pinned and any ruleset that \<open>build_ruleset\<close> made with them. On an object that is neither beneath the
  home nor beneath one of the listed device files (as they resolved when they were opened), the ruleset permits nothing but reading and executing and
  what the version cannot handle: truncation before version 3, ioctl on devices before version 5. On the device
  files it adds writing and ioctl. So from version 3 on nothing outside the home
  can be created, removed, renamed or truncated and only the device files can be written; on versions 1 and 2 every file
  outside the home can still be truncated, as far as its permissions let the sandbox's uid. Inside the home, whose rule the kernel has accepted, everything
  is permitted, but for moves between directories on version 1, which that version always denies.
\<close>

theorem sandbox_write_confined:
  assumes sys: "system_dir_rules K s = (Inr rules, s')" "log s' = log s @ opened"
    and built: "build_ruleset K rules home t = (Inr r, t')" "log t' = log t @ made"
  shows "\<exists>h. (ByPath home, Some h) \<in> set made \<and>
    (\<exists>w w'. k_ll_add_rule K r h (handled_fs_for (k_abi K)) w = (Inr (), w')) \<and>
    (\<not> beneath h x \<and> \<not> under_device beneath opened x \<longrightarrow>
       permits beneath made r x AND NOT READ_RIGHTS = unrestricted (k_abi K)) \<and>
    (\<not> beneath h x \<longrightarrow> permits beneath made r x AND NOT FILE_RIGHTS = unrestricted (k_abi K) AND FS_TRUNCATE) \<and>
    (beneath h x \<longrightarrow> permits beneath made r x = (if k_abi K < 2 then ALL_FS AND NOT FS_REFER else ALL_FS))"
proof -
  let ?abi = "k_abi K" and ?g = "all_rights (map (\<lambda>(f, a). if beneath f x then a else 0) rules)"
  obtain h where l: "log t' = log t @ [(LlCreate (handled_fs_for ?abi) (handled_net ?abi) (scoped_bits ?abi), Some r)] @
      map (\<lambda>(f, a). (LlAddRule r f a, None)) rules @
      [(ByPath home, Some h), (LlAddRule r h (handled_fs_for ?abi), None), (CloseFd h, None)]"
    and ok: "\<exists>w w'. k_ll_add_rule K r h (handled_fs_for ?abi) w = (Inr (), w')"
    using build_ruleset_log [OF built(1)] by blast
  note p = built_permits [OF l built(2), of beneath x]
  have "?g AND NOT FILE_RIGHTS = 0" by (rule system_part) (rule system_rule_rights(2) [OF sys])
  then have 1: "\<not> beneath h x \<Longrightarrow> permits beneath made r x AND NOT FILE_RIGHTS = unrestricted ?abi AND FS_TRUNCATE"
    using or_and_left [of ?g "NOT FILE_RIGHTS" "unrestricted ?abi"] by (simp add: p unrestricted_parts(2))
  have "?g AND NOT READ_RIGHTS = 0" if "\<not> under_device beneath opened x"
    by (rule system_part) (rule system_rule_rights(3) [OF sys _ _ that])
  then have 2: "\<not> beneath h x \<and> \<not> under_device beneath opened x \<Longrightarrow>
      permits beneath made r x AND NOT READ_RIGHTS = unrestricted ?abi"
    using or_and_left [of ?g "NOT READ_RIGHTS" "unrestricted ?abi"] by (simp add: p unrestricted_parts(1))
  have "?g OR handled_fs_for ?abi = handled_fs_for ?abi"
    by (rule system_within) (rule system_rule_rights(1) [OF sys])
  then have 3: "beneath h x \<Longrightarrow> permits beneath made r x = (if ?abi < 2 then ALL_FS AND NOT FS_REFER else ALL_FS)"
    using unrestricted_parts(3) [of ?abi] by (simp add: p)
  have "(ByPath home, Some h) \<in> set made" using l built(2) by simp
  with 1 2 3 ok show ?thesis by blast
qed

section \<open>Witnesses\<close>

definition demo_ll :: "nat ll_kernel" where
  "demo_ll = kernel.extend demo_kernel
     (ll_kernel.fields 6 (\<lambda>h n c w. (Inr w, Suc w)) (\<lambda>r f a. returnE ()) (\<lambda>r. returnE ()) (\<lambda>f. returnE ()))"

lemmas demo_ll_simps = demo_ll_def kernel.defs ll_kernel.defs demo_kernel_def

lemma demo_opens: "NUL \<notin> set p \<Longrightarrow> open_o_path demo_ll p s = (Inr (Some (kst s)), s\<lparr>kst := Suc (kst s), log := log s @ [(ByPath p, Some (kst s))]\<rparr>)"
  by (simp add: open_o_path_def demo_ll_simps catchE_def sys_fd_def returnE_def)

lemma demo_open_rules:
  "list_all (\<lambda>p. NUL \<notin> set p) ps \<Longrightarrow> open_rules demo_ll a ps s =
     (Inr (map (\<lambda>f. (f, a)) [kst s..<kst s + length ps]),
      s\<lparr>kst := kst s + length ps, log := log s @ map (\<lambda>(p, f). (ByPath p, Some f)) (zip ps [kst s..<kst s + length ps])\<rparr>)"
  by (induction ps arbitrary: s) (simp_all add: returnE_def bindE_def demo_opens upt_rec)

lemma demo_system_rules:
  "\<exists>rules t. system_dir_rules demo_ll \<lparr>kst = 5, log = []\<rparr> = (Inr rules, t) \<and> \<not> under_device (=) (log t) 99"
proof -
  have nul: "list_all (\<lambda>p. NUL \<notin> set p) ro_dirs" "list_all (\<lambda>p. NUL \<notin> set p) data_dirs"
    "list_all (\<lambda>p. NUL \<notin> set p) dev_nodes" "list_all (\<lambda>p. NUL \<notin> set p) dev_dirs"
    by (simp_all add: ro_dirs_def data_dirs_def dev_nodes_def dev_dirs_def NUL_def)
  have len: "length ro_dirs = 10" "length data_dirs = 2" "length dev_nodes = 7" "length dev_dirs = 3"
    by (simp_all add: ro_dirs_def data_dirs_def dev_nodes_def dev_dirs_def)
  show ?thesis
    by (auto simp: system_dir_rules_def bindE_def returnE_def demo_open_rules nul len under_device_def list_ex_iff
        dest: set_zip_rightD)
qed

lemma demo_add_rules:
  "add_system_rules demo_ll r rs s = (Inr (), s\<lparr>log := log s @ map (\<lambda>(f, a). (LlAddRule r f a, None)) rs\<rparr>)"
  by (induction rs arbitrary: s) (auto simp: returnE_def thenE_def bindE_def ignoreE_def add_fd_rule_def sys_def demo_ll_simps)

lemma demo_build:
  "build_ruleset demo_ll rules ''/h'' \<lparr>kst = 30, log = []\<rparr> = (Inr 30, \<lparr>kst = 32, log =
     (LlCreate (handled_fs_for 6) (handled_net 6) (scoped_bits 6), Some 30) # map (\<lambda>(f, a). (LlAddRule 30 f a, None)) rules @
     [(ByPath ''/h'', Some 31), (LlAddRule 30 31 (handled_fs_for 6), None), (CloseFd 31, None)]\<rparr>)"
proof -
  have "k_abi demo_ll = 6" "k_ll_create demo_ll = (\<lambda>h n c w. (Inr w, Suc w))" "k_ll_add_rule demo_ll = (\<lambda>r f a. returnE ())"
    "k_close demo_ll = (\<lambda>f. returnE ())" by (simp_all add: demo_ll_simps)
  then show ?thesis
    by (simp add: build_ruleset_def Let_def bindE_def sys_fd_def thenE_def demo_add_rules add_path_rule_def
        demo_opens NUL_def catchE_def add_fd_rule_def sys_def close_fd_def ignoreE_def returnE_def)
qed

theorem sandbox_write_confined_witness:
  "\<exists>rules s' r t'. system_dir_rules demo_ll \<lparr>kst = 5, log = []\<rparr> = (Inr rules, s') \<and>
     build_ruleset demo_ll rules ''/h'' \<lparr>kst = 30, log = []\<rparr> = (Inr r, t') \<and>
     permits (=) (log t') r 99 AND NOT READ_RIGHTS = 0 \<and> permits (=) (log t') r 31 = ALL_FS"
proof -
  obtain rules s' where s: "system_dir_rules demo_ll \<lparr>kst = 5, log = []\<rparr> = (Inr rules, s')"
    and d: "\<not> under_device (=) (log s') 99" using demo_system_rules by blast
  obtain t' where b: "build_ruleset demo_ll rules ''/h'' \<lparr>kst = 30, log = []\<rparr> = (Inr 30, t')"
    and l: "\<And>h. (ByPath ''/h'', Some h) \<in> set (log t') \<longleftrightarrow> h = 31" by (rule that [OF demo_build]) auto
  have abi: "k_abi demo_ll = 6" "unrestricted 6 = 0" by (simp_all add: demo_ll_simps unrestricted_def)
  note c = sandbox_write_confined [OF s _ b, of "log s'" "log t'" "(=)", unfolded l abi, simplified]
  show ?thesis using s b d c [of 99] c [of 31] by (intro exI conjI) auto
qed

theorem system_dir_rules_spec_witness:
  "\<exists>rules t new. system_dir_rules demo_ll \<lparr>kst = 5, log = []\<rparr> = (Inr rules, t) \<and> log t = new \<and>
     (\<forall>(f, a) \<in> set rules. a AND handled_fs_for 6 = a \<and>
        (\<exists>p. (p, a) \<in> set (system_specs 6) \<and> (ByPath p, Some f) \<in> set new))"
  using system_dir_rules_spec [of demo_ll "\<lparr>kst = 5, log = []\<rparr>"] by (simp add: demo_ll_simps)

theorem build_ruleset_effect_witness:
  "\<exists>r t h. build_ruleset demo_ll [(7, 1)] ''/h'' \<lparr>kst = 8, log = []\<rparr> = (Inr r, t) \<and>
     log t = [(LlCreate (handled_fs_for 6) (handled_net 6) (scoped_bits 6), Some r), (LlAddRule r 7 1, None),
       (ByPath ''/h'', Some h), (LlAddRule r h (handled_fs_for 6), None), (CloseFd h, None)]"
proof -
  have "\<exists>r t. build_ruleset demo_ll [(7, 1)] ''/h'' \<lparr>kst = 8, log = []\<rparr> = (Inr r, t)"
    by (simp add: build_ruleset_def demo_ll_simps Let_def bindE_def sys_fd_def sys_def thenE_def ignoreE_def
        add_fd_rule_def returnE_def catchE_def add_path_rule_def open_o_path_def close_fd_def NUL_def)
  then obtain r t where rt: "build_ruleset demo_ll [(7, 1)] ''/h'' \<lparr>kst = 8, log = []\<rparr> = (Inr r, t)" by blast
  with build_ruleset_effect [OF rt] show ?thesis by (auto simp: demo_ll_simps)
qed

end
