(* ===== verification/Fsutil.thy ===== *)
theory Fsutil
  imports Rust_Str Kernel
begin

text \<open>
  \<open>src/fsutil.rs\<close>: descriptor-relative file primitives. The first part models paths
  (\<open>std::path\<close>) and the lexical resolver \<open>normalize_relative\<close>; the second the system-call
  wrappers and the operations of \<open>ScopedRoot\<close>, which walk a path one component at a time from an
  open home descriptor.

  The lemmas show that the resolver refines lexical resolution on component lists, so that its
  result has plain components only and is a fixed point; and that every operation of a scoped
  root, on any kernel, makes disciplined calls only: it names objects by descriptors that come
  from the home descriptor and never follows a symbolic link.
\<close>

section \<open>Paths\<close>

datatype component = RootDir | CurDir | ParentDir | Normal string

fun seg_component :: "string \<Rightarrow> component" where
  "seg_component s = (if s = ''..'' then ParentDir else Normal s)"

text \<open>
  \<open>Path::components\<close> on Unix: repeated separators and interior \<open>.\<close> are skipped, a leading
  separator is \<open>RootDir\<close>, a leading \<open>.\<close> of a relative path is \<open>CurDir\<close>.
\<close>

definition path_components :: "string \<Rightarrow> component list" where
  "path_components p =
     (let segs = split_char (CHR ''/'') p in
      (if prefix ''/'' p then [RootDir] else if hd segs = ''.'' then [CurDir] else []) @
      map seg_component (filter (\<lambda>s. s \<noteq> [] \<and> s \<noteq> ''.'') segs))"

text \<open>\<open>PathBuf::push\<close>; \<open>Path::join\<close> is a push onto a copy.\<close>

definition pb_push :: "string \<Rightarrow> string \<Rightarrow> string" where
  "pb_push buf p =
     (if prefix ''/'' p then p
      else if buf \<noteq> [] \<and> last buf \<noteq> CHR ''/'' then buf @ ''/'' @ p
      else buf @ p)"

text \<open>
  \<open>Path::parent\<close>: without its last component the path ends where the component before it ends,
  that is, at the shortest prefix with the remaining components.
\<close>

definition path_parent :: "string \<Rightarrow> string option" where
  "path_parent p =
     (let cs = path_components p in
      if cs = [] \<or> last cs = RootDir then None
      else find (\<lambda>q. path_components q = butlast cs) (prefixes p))"

text \<open>\<open>PathBuf::pop\<close>: truncation to the parent's length.\<close>

definition pb_pop :: "string \<Rightarrow> string" where
  "pb_pop buf = (case path_parent buf of None \<Rightarrow> buf | Some q \<Rightarrow> take (length q) buf)"

fun normalize_step :: "string \<Rightarrow> component \<Rightarrow> string" where
  "normalize_step buf (Normal name) = pb_push buf name"
| "normalize_step buf ParentDir = pb_pop buf"
| "normalize_step buf _ = buf"

definition normalize_relative :: "string \<Rightarrow> string" where
  "normalize_relative p = foldl normalize_step [] (path_components p)"

fun normal_name :: "component \<Rightarrow> string option" where
  "normal_name (Normal name) = Some name"
| "normal_name _ = None"

definition components_of :: "string \<Rightarrow> string list" where
  "components_of p = List.map_filter normal_name (path_components p)"

section \<open>System-call wrappers\<close>

definition BASE_FLAGS :: flags where
  "BASE_FLAGS = O_CLOEXEC OR O_NOFOLLOW OR O_NONBLOCK"

definition c_path :: "string \<Rightarrow> string result" where
  "c_path p = (if NUL \<in> set p then Inl (IoError InvalidInput ''path contains NUL'') else Inr p)"

definition open_at :: "('w, 'z) kernel_scheme \<Rightarrow> fd \<Rightarrow> string \<Rightarrow> flags \<Rightarrow> nat \<Rightarrow> ('w osw, fd) io" where
  "open_at K dirfd name fl mode =
     bindE (liftR (c_path name)) (\<lambda>n.
       sys_fd (Openat dirfd n (fl OR BASE_FLAGS) mode) (k_openat K dirfd n (fl OR BASE_FLAGS) mode))"

definition open_dir_at :: "('w, 'z) kernel_scheme \<Rightarrow> fd \<Rightarrow> string \<Rightarrow> ('w osw, fd) io" where
  "open_dir_at K dirfd name = open_at K dirfd name (O_RDONLY OR O_DIRECTORY) 0"

definition open_path_at :: "('w, 'z) kernel_scheme \<Rightarrow> fd \<Rightarrow> string \<Rightarrow> ('w osw, fd) io" where
  "open_path_at K dirfd name = open_at K dirfd name O_PATH 0"

definition mkdir_at :: "('w, 'z) kernel_scheme \<Rightarrow> fd \<Rightarrow> string \<Rightarrow> nat \<Rightarrow> ('w osw, unit) io" where
  "mkdir_at K dirfd name mode =
     bindE (liftR (c_path name)) (\<lambda>n.
       catchE (sys (Mkdirat dirfd n mode) (k_mkdirat K dirfd n mode))
         returnE
         (\<lambda>err. if kind err = AlreadyExists then returnE () else throwE err))"

definition unlink_at :: "('w, 'z) kernel_scheme \<Rightarrow> fd \<Rightarrow> string \<Rightarrow> bool \<Rightarrow> ('w osw, unit) io" where
  "unlink_at K dirfd name dir =
     bindE (liftR (c_path name)) (\<lambda>n.
       let fl = (if dir then AT_REMOVEDIR else 0) in
       sys (Unlinkat dirfd n fl) (k_unlinkat K dirfd n fl))"

definition fchown :: "('w, 'z) kernel_scheme \<Rightarrow> fd \<Rightarrow> nat \<Rightarrow> ('w osw, unit) io" where
  "fchown K f uid = sys (Fchown f uid) (k_fchown K f uid)"

definition fchmod :: "('w, 'z) kernel_scheme \<Rightarrow> fd \<Rightarrow> nat \<Rightarrow> ('w osw, unit) io" where
  "fchmod K f mode = sys (Fchmod f mode) (k_fchmod K f mode)"

definition fd_metadata :: "('w, 'z) kernel_scheme \<Rightarrow> fd \<Rightarrow> ('w osw, metadata) io" where
  "fd_metadata K f = sys (Fstat f) (k_fstat K f)"

text \<open>\<open>std::fs::read_dir(proc_fd_path(&dir))\<close>: the names in an open directory.\<close>

definition read_dir_fd :: "('w, 'z) kernel_scheme \<Rightarrow> fd \<Rightarrow> ('w osw, string result list) io" where
  "read_dir_fd K f = sys (Readdir f) (k_readdir K f)"

section \<open>Scoped roots\<close>

record scoped_root =
  sr_home :: string
  sr_dir :: fd
  sr_uid :: nat

record located =
  lc_parent :: fd
  lc_name :: "string option"

definition scoped_open :: "('w, 'z) kernel_scheme \<Rightarrow> string \<Rightarrow> nat \<Rightarrow> ('w osw, scoped_root) io" where
  "scoped_open K home uid =
     bindE (liftR (c_path home)) (\<lambda>h.
     bindE (sys_fd (ByPath h) (k_open K h (O_RDONLY OR O_DIRECTORY OR O_CLOEXEC OR O_NOFOLLOW) 0)) (\<lambda>f.
       returnE \<lparr>sr_home = home, sr_dir = f, sr_uid = uid\<rparr>))"

definition sr_display :: "scoped_root \<Rightarrow> string \<Rightarrow> string" where
  "sr_display root rel = pb_push (sr_home root) rel"

definition dup_dir :: "('w, 'z) kernel_scheme \<Rightarrow> scoped_root \<Rightarrow> ('w osw, fd) io" where
  "dup_dir K root = sys_fd (Dup (sr_dir root)) (k_dup K (sr_dir root))"

fun walk :: "('w, 'z) kernel_scheme \<Rightarrow> nat \<Rightarrow> bool \<Rightarrow> fd \<Rightarrow> string list \<Rightarrow> ('w osw, fd) io" where
  "walk K uid create parent [] = returnE parent"
| "walk K uid create parent (c # cs) =
     thenE (if create then mkdir_at K parent c 448 else returnE ())
       (bindE (open_dir_at K parent c) (\<lambda>next.
          thenE (if create then ignoreE (fchown K next uid) else returnE ())
            (walk K uid create next cs)))"

definition locate :: "('w, 'z) kernel_scheme \<Rightarrow> scoped_root \<Rightarrow> string \<Rightarrow> bool \<Rightarrow> ('w osw, located) io" where
  "locate K root rel create_dirs =
     (let cs = components_of rel in
      if cs = [] then bindE (dup_dir K root) (\<lambda>f. returnE \<lparr>lc_parent = f, lc_name = None\<rparr>)
      else bindE (dup_dir K root) (\<lambda>f.
           bindE (walk K (sr_uid root) create_dirs f (butlast cs)) (\<lambda>p.
             returnE \<lparr>lc_parent = p, lc_name = Some (last cs)\<rparr>)))"

definition not_regular :: io_error where
  "not_regular = IoError InvalidInput ''not a regular file''"

definition sr_open_read :: "('w, 'z) kernel_scheme \<Rightarrow> scoped_root \<Rightarrow> string \<Rightarrow> ('w osw, fd) io" where
  "sr_open_read K root rel =
     bindE (locate K root rel False) (\<lambda>loc.
     case lc_name loc of
       None \<Rightarrow> throwE (OsError EISDIR)
     | Some name \<Rightarrow>
         bindE (open_at K (lc_parent loc) name O_RDONLY 0) (\<lambda>f.
         bindE (fd_metadata K f) (\<lambda>md.
           if is_dir md then throwE (OsError EISDIR)
           else if \<not> is_file md then throwE not_regular
           else returnE f)))"

definition sr_open_write ::
  "('w, 'z) kernel_scheme \<Rightarrow> scoped_root \<Rightarrow> string \<Rightarrow> bool \<Rightarrow> nat option \<Rightarrow> ('w osw, fd) io" where
  "sr_open_write K root rel create_parents offset =
     bindE (locate K root rel create_parents) (\<lambda>loc.
     case lc_name loc of
       None \<Rightarrow> throwE (OsError EISDIR)
     | Some name \<Rightarrow>
         (let fl = O_WRONLY OR O_CREAT OR (if offset = None then O_TRUNC else 0) in
          bindE (open_at K (lc_parent loc) name fl 384) (\<lambda>f.
          bindE (fd_metadata K f) (\<lambda>md.
            if \<not> is_file md then throwE not_regular
            else thenE (ignoreE (fchown K f (sr_uid root))) (returnE f)))))"

definition sr_metadata :: "('w, 'z) kernel_scheme \<Rightarrow> scoped_root \<Rightarrow> string \<Rightarrow> ('w osw, metadata) io" where
  "sr_metadata K root rel =
     bindE (locate K root rel False) (\<lambda>loc.
     case lc_name loc of
       None \<Rightarrow> fd_metadata K (lc_parent loc)
     | Some name \<Rightarrow> bindE (open_path_at K (lc_parent loc) name) (fd_metadata K))"

text \<open>The loop of \<open>list\<close>: an entry that cannot be opened or examined is left out.\<close>

fun list_entries :: "('w, 'z) kernel_scheme \<Rightarrow> scoped_root \<Rightarrow> string \<Rightarrow> fd \<Rightarrow> string result list \<Rightarrow>
    ('w osw, (string \<times> metadata) list) io" where
  "list_entries K root rel dir [] = returnE []"
| "list_entries K root rel dir (Inl e # es) = throwE e"
| "list_entries K root rel dir (Inr name # es) =
     catchE (bindE (open_path_at K dir name) (fd_metadata K))
       (\<lambda>md. bindE (list_entries K root rel dir es) (\<lambda>rest.
          returnE ((sr_display root (pb_push rel name), md) # rest)))
       (\<lambda>_. list_entries K root rel dir es)"

definition sr_list :: "('w, 'z) kernel_scheme \<Rightarrow> scoped_root \<Rightarrow> string \<Rightarrow> ('w osw, (string \<times> metadata) list) io" where
  "sr_list K root rel =
     bindE (locate K root rel False) (\<lambda>loc.
     bindE (case lc_name loc of
              None \<Rightarrow> dup_dir K root
            | Some name \<Rightarrow> open_dir_at K (lc_parent loc) name) (\<lambda>dir.
     bindE (read_dir_fd K dir) (list_entries K root rel dir)))"

text \<open>
  \<open>remove_dir_contents\<close> recurses into the directories of a tree that other processes may be
  extending, so the depth is fuel: \<open>None\<close> when it runs out. The first loop unlinks what is not a
  directory and collects the directories; the second empties and removes those.
\<close>

fun remove_files :: "('w, 'z) kernel_scheme \<Rightarrow> fd \<Rightarrow> string result list \<Rightarrow> string list \<Rightarrow> ('w osw, string list) io" where
  "remove_files K dir [] subdirs = returnE subdirs"
| "remove_files K dir (Inl e # es) subdirs = throwE e"
| "remove_files K dir (Inr name # es) subdirs =
     bindE (catchE (bindE (open_path_at K dir name) (fd_metadata K))
              (\<lambda>md. returnE (is_dir md)) (\<lambda>_. returnE False)) (\<lambda>d.
       if d then remove_files K dir es (subdirs @ [name])
       else thenE (unlink_at K dir name False) (remove_files K dir es subdirs))"

fun remove_subdirs :: "('w, 'z) kernel_scheme \<Rightarrow> (fd \<Rightarrow> ('w osw, unit option) io) \<Rightarrow> fd \<Rightarrow> string list \<Rightarrow>
    ('w osw, unit option) io" where
  "remove_subdirs K rec dir [] = returnE (Some ())"
| "remove_subdirs K rec dir (name # ns) =
     bindE (open_dir_at K dir name) (\<lambda>child.
     bindE (rec child) (\<lambda>r.
       case r of
         None \<Rightarrow> returnE None
       | Some _ \<Rightarrow> thenE (unlink_at K dir name True) (remove_subdirs K rec dir ns)))"

fun remove_dir_contents :: "nat \<Rightarrow> ('w, 'z) kernel_scheme \<Rightarrow> fd \<Rightarrow> ('w osw, unit option) io" where
  "remove_dir_contents 0 K dir = returnE None"
| "remove_dir_contents (Suc fuel) K dir =
     bindE (read_dir_fd K dir) (\<lambda>es.
     bindE (remove_files K dir es []) (\<lambda>subdirs.
       remove_subdirs K (remove_dir_contents fuel K) dir subdirs))"

definition sr_delete :: "nat \<Rightarrow> ('w, 'z) kernel_scheme \<Rightarrow> scoped_root \<Rightarrow> string \<Rightarrow> bool \<Rightarrow> ('w osw, unit option) io" where
  "sr_delete fuel K root rel recursive =
     bindE (locate K root rel False) (\<lambda>loc.
     case lc_name loc of
       None \<Rightarrow> throwE (IoError PermissionDenied ''cannot delete the sandbox home'')
     | Some name \<Rightarrow>
         bindE (open_path_at K (lc_parent loc) name) (\<lambda>h.
         bindE (catchE (fd_metadata K h) (\<lambda>md. returnE (is_dir md)) (\<lambda>_. returnE False)) (\<lambda>d.
           if \<not> d then bindE (unlink_at K (lc_parent loc) name False) (\<lambda>_. returnE (Some ()))
           else bindE (if recursive
                       then bindE (open_dir_at K (lc_parent loc) name) (remove_dir_contents fuel K)
                       else returnE (Some ())) (\<lambda>r.
                  case r of
                    None \<Rightarrow> returnE None
                  | Some _ \<Rightarrow> bindE (unlink_at K (lc_parent loc) name True) (\<lambda>_. returnE (Some ()))))))"

definition sr_mkdir_all :: "('w, 'z) kernel_scheme \<Rightarrow> scoped_root \<Rightarrow> string \<Rightarrow> ('w osw, unit) io" where
  "sr_mkdir_all K root rel =
     bindE (locate K root rel True) (\<lambda>loc.
     case lc_name loc of
       None \<Rightarrow> returnE ()
     | Some name \<Rightarrow>
         thenE (mkdir_at K (lc_parent loc) name 448)
           (bindE (open_dir_at K (lc_parent loc) name) (\<lambda>dir.
              ignoreE (fchown K dir (sr_uid root)))))"

section \<open>Lexical resolution\<close>

text \<open>
  What a path means without a file system: a list of names, onto which a normal component is
  pushed and from which \<open>..\<close> takes the last one.
\<close>

fun resolve_step :: "string list \<Rightarrow> component \<Rightarrow> string list" where
  "resolve_step xs (Normal n) = xs @ [n]"
| "resolve_step xs ParentDir = butlast xs"
| "resolve_step xs _ = xs"

definition resolve :: "component list \<Rightarrow> string list" where
  "resolve cs = foldl resolve_step [] cs"

lemma prefix_slash_iff: "prefix ''/'' p \<longleftrightarrow> p \<noteq> [] \<and> hd p = CHR ''/''"
  by (cases p) auto

lemma plain_ends: "plain_name n \<Longrightarrow> n \<noteq> [] \<and> hd n \<noteq> CHR ''/'' \<and> last n \<noteq> CHR ''/''"
  unfolding plain_name_def by (metis hd_in_set last_in_set)

lemma plain_join_hd:
  assumes "list_all plain_name xs"
  shows "\<not> prefix ''/'' (join ''/'' xs)"
  using assms by (induction "''/''" xs rule: join.induct) (auto simp: prefix_slash_iff hd_append dest: plain_ends)

lemma path_components_join [simp]:
  assumes "list_all plain_name xs"
  shows "path_components (join ''/'' xs) = map Normal xs"
proof (cases "xs = []")
  case True
  then show ?thesis by (simp add: path_components_def)
next
  case False
  with assms have "split_char (CHR ''/'') (join ''/'' xs) = xs"
    by (intro split_char_join) (auto simp: list_all_iff plain_name_def)
  moreover from assms False have "hd xs \<noteq> ''.''"
    by (cases xs) (auto simp: plain_name_def)
  moreover have "filter (\<lambda>s. s \<noteq> [] \<and> s \<noteq> ''.'') xs = xs"
    using assms by (auto simp: list_all_iff plain_name_def intro!: filter_True)
  moreover have "map seg_component xs = map Normal xs"
    using assms by (auto simp: list_all_iff plain_name_def)
  ultimately show ?thesis
    using plain_join_hd [OF assms] by (simp add: path_components_def Let_def)
qed

lemma join_snoc: "join c (xs @ [n]) = (if xs = [] then n else join c xs @ c @ n)"
  by (induction c xs rule: join.induct) auto

lemma last_join_plain:
  "list_all plain_name xs \<Longrightarrow> xs \<noteq> [] \<Longrightarrow> join ''/'' xs \<noteq> [] \<and> last (join ''/'' xs) \<noteq> CHR ''/''"
  by (induction "''/''" xs rule: join.induct) (auto dest: plain_ends)

lemma pb_push_join:
  assumes "list_all plain_name xs" and "plain_name n"
  shows "pb_push (join ''/'' xs) n = join ''/'' (xs @ [n])"
  using assms last_join_plain [OF assms(1)]
  by (auto simp: pb_push_def join_snoc prefix_slash_iff dest: plain_ends)

lemma length_join_filter: "length (join [c] (filter P xs)) \<le> length (join [c] xs)"
proof (induction xs)
  case (Cons x xs)
  show ?case
  proof (cases "xs = []")
    case True
    then show ?thesis by simp
  next
    case False
    then have a: "join [c] (x # xs) = x @ c # join [c] xs" by (cases xs) auto
    show ?thesis
      using Cons a by (cases "filter P xs") auto
  qed
qed simp

lemma map_seg_component: "map seg_component f = map Normal ys \<Longrightarrow> f = ys"
proof (induction f arbitrary: ys)
  case (Cons x f)
  then show ?case by (cases ys) (auto split: if_splits)
qed simp

lemma components_length:
  assumes "path_components q = map Normal ys"
  shows "length (join ''/'' ys) \<le> length q"
proof -
  let ?segs = "split_char (CHR ''/'') q"
  let ?f = "filter (\<lambda>s. s \<noteq> [] \<and> s \<noteq> ''.'') ?segs"
  from assms have "map seg_component ?f = map Normal ys"
    by (cases ys) (auto simp: path_components_def Let_def split: if_splits)
  then have "?f = ys" by (rule map_seg_component)
  then show ?thesis
    using length_join_filter [of "CHR ''/''" _ ?segs] by (metis join_split_char)
qed

lemma find_map: "find P (map f xs) = map_option f (find (P \<circ> f) xs)"
  by (induction xs) auto

lemma find_prefixes_ex: "P r \<Longrightarrow> \<exists>q. find P (prefixes (r @ t)) = Some q \<and> P q \<and> prefix q r"
proof (induction r arbitrary: P)
  case Nil
  then show ?case by (cases t) auto
next
  case (Cons x r)
  from Cons.IH [of "P \<circ> (#) x"] Cons.prems show ?case by (auto simp: find_map comp_def)
qed

lemma find_prefixes:
  assumes "prefix r p" and "P r"
  obtains q where "find P (prefixes p) = Some q" "P q" "prefix q r"
  using assms find_prefixes_ex [of P r] by (metis prefixE)

lemma pb_pop_join:
  assumes "list_all plain_name xs"
  shows "pb_pop (join ''/'' xs) = join ''/'' (butlast xs)"
proof (cases "xs = []")
  case True
  then show ?thesis by (simp add: pb_pop_def path_parent_def path_components_def)
next
  case False
  let ?p = "join ''/'' xs" and ?r = "join ''/'' (butlast xs)"
  have plain: "list_all plain_name (butlast xs)"
    using assms by (auto simp: list_all_iff dest: in_set_butlastD)
  have "prefix ?r ?p"
    using join_snoc [of "''/''" "butlast xs" "last xs"] False by (auto simp: prefix_def)
  moreover have "path_components ?r = map Normal (butlast xs)" using plain by simp
  ultimately obtain q where
    q: "find (\<lambda>q. path_components q = map Normal (butlast xs)) (prefixes ?p) = Some q"
    "path_components q = map Normal (butlast xs)" "prefix q ?r"
    using find_prefixes [of ?r ?p "\<lambda>q. path_components q = map Normal (butlast xs)"] by blast
  from components_length [OF q(2)] q(3) have "q = ?r"
    by (metis le_antisym prefix_length_le not_equal_is_parallel parallelD1 prefix_order.order_refl)
  with q(1) False assms \<open>prefix ?r ?p\<close> show ?thesis
    by (auto simp: pb_pop_def path_parent_def map_butlast last_map prefix_def)
qed


lemma components_plain: "Normal n \<in> set (path_components p) \<Longrightarrow> plain_name n"
  by (auto simp: path_components_def Let_def plain_name_def split: if_splits dest: split_char_no_sep)

lemma resolve_plain:
  assumes "\<And>n. Normal n \<in> set cs \<Longrightarrow> plain_name n" and "list_all plain_name xs"
  shows "list_all plain_name (foldl resolve_step xs cs)"
  using assms
proof (induction cs arbitrary: xs)
  case (Cons c cs)
  have "list_all plain_name (resolve_step xs c)"
    using Cons.prems by (cases c) (auto simp: list_all_iff dest: in_set_butlastD)
  with Cons show ?case by simp
qed simp

lemma normalize_resolve:
  assumes "\<And>n. Normal n \<in> set cs \<Longrightarrow> plain_name n" and "list_all plain_name xs"
  shows "foldl normalize_step (join ''/'' xs) cs = join ''/'' (foldl resolve_step xs cs)"
  using assms
proof (induction cs arbitrary: xs)
  case (Cons c cs)
  have "list_all plain_name (resolve_step xs c)"
    using resolve_plain [of "[c]" xs] Cons.prems by simp
  moreover have "normalize_step (join ''/'' xs) c = join ''/'' (resolve_step xs c)"
    using Cons.prems by (cases c) (simp_all add: pb_push_join pb_pop_join)
  ultimately show ?case using Cons by simp
qed simp

lemma normalize_relative_join:
  "normalize_relative p = join ''/'' (resolve (path_components p))"
  using normalize_resolve [of "path_components p" "[]"] components_plain
  by (simp add: normalize_relative_def resolve_def)

lemma resolve_components_plain: "list_all plain_name (resolve (path_components p))"
  unfolding resolve_def using components_plain by (intro resolve_plain) auto

lemma map_filter_Normal: "List.map_filter normal_name (map Normal xs) = xs"
  by (induction xs) (simp_all add: List.map_filter_def)

lemma components_of_normalize: "components_of (normalize_relative p) = resolve (path_components p)"
  by (simp add: components_of_def normalize_relative_join resolve_components_plain map_filter_Normal)

lemma components_of_plain: "list_all plain_name (components_of p)"
  by (auto simp: components_of_def List.map_filter_def list_all_iff
      intro: components_plain elim!: normal_name.elims)

lemma resolve_Normals: "resolve (map Normal xs) = xs"
proof -
  have "foldl resolve_step ys (map Normal xs) = ys @ xs" for ys
    by (induction xs arbitrary: ys) auto
  then show ?thesis by (simp add: resolve_def)
qed

text \<open>
  C36: the normaliser refines lexical resolution. Whatever path a client sends, the result is the
  path whose components are the lexically resolved names; each of them is a plain name (not
  empty, no separator, neither \<open>.\<close> nor \<open>..\<close>), so the result is relative and cannot climb out of
  its root; and normalising again changes nothing.
\<close>

theorem normalize_relative_resolves:
  "path_components (normalize_relative p) = map Normal (resolve (path_components p)) \<and>
   components_of (normalize_relative p) = resolve (path_components p) \<and>
   list_all plain_name (components_of (normalize_relative p)) \<and>
   \<not> prefix ''/'' (normalize_relative p) \<and>
   normalize_relative (normalize_relative p) = normalize_relative p"
proof -
  let ?xs = "resolve (path_components p)"
  have "normalize_relative (join ''/'' ?xs) = join ''/'' ?xs"
    by (simp add: normalize_relative_join [of "join ''/'' ?xs"] resolve_components_plain resolve_Normals)
  moreover have "components_of (normalize_relative p) = ?xs" by (rule components_of_normalize)
  ultimately show ?thesis
    using resolve_components_plain [of p] plain_join_hd [OF resolve_components_plain [of p]]
    by (simp add: normalize_relative_join [of p])
qed

section \<open>Scoped roots stay inside\<close>

lemma base_flags_nofollow: "(fl OR BASE_FLAGS) AND O_NOFOLLOW = O_NOFOLLOW"
  by (rule bit_word_eqI) (auto simp: BASE_FLAGS_def bit_or_iff bit_and_iff)

lemma safe_open_at:
  "d \<in> S \<Longrightarrow> plain_name n \<Longrightarrow> (\<And>f. Q f (insert f S)) \<Longrightarrow> safe S (open_at K d n fl m) Q"
  unfolding open_at_def c_path_def
  by (auto intro!: safe_bindE [where Q = "\<lambda>x T. x = n \<and> T = S"] safe_sys_fd safe_liftR base_flags_nofollow)

lemmas safe_open_dir_at = safe_open_at [where fl = "O_RDONLY OR O_DIRECTORY" and m = 0, folded open_dir_at_def]
lemmas safe_open_path_at = safe_open_at [where fl = O_PATH and m = 0, folded open_path_at_def]

lemma safe_mkdir_at: "d \<in> S \<Longrightarrow> plain_name n \<Longrightarrow> safe S (mkdir_at K d n m) (\<lambda>_ T. True)"
  unfolding mkdir_at_def c_path_def
  by (auto intro!: safe_bindE [where Q = "\<lambda>x T. x = n \<and> T = S"] safe_sys safe_liftR
      safe_catchE [where Q = "\<lambda>_ _. True"] safe_returnE safe_throwE)

lemma safe_unlink_at: "d \<in> S \<Longrightarrow> plain_name n \<Longrightarrow> safe S (unlink_at K d n b) (\<lambda>_ T. True)"
  unfolding unlink_at_def c_path_def Let_def
  by (auto intro!: safe_bindE [where Q = "\<lambda>x T. x = n \<and> T = S"] safe_sys safe_liftR)

lemma safe_fd_calls:
  "f \<in> S \<Longrightarrow> safe S (fchown K f u) (\<lambda>_ T. True)"
  "f \<in> S \<Longrightarrow> safe S (fd_metadata K f) (\<lambda>_ T. True)"
  "f \<in> S \<Longrightarrow> readdir_plain K \<Longrightarrow>
     safe S (read_dir_fd K f) (\<lambda>es T. \<forall>n. Inr n \<in> set es \<longrightarrow> plain_name n)"
  unfolding fchown_def fd_metadata_def read_dir_fd_def
  by (auto intro!: safe_sys_res simp: readdir_plain_def)

lemma safe_if:
  "(b \<Longrightarrow> safe_on lg S m Q) \<Longrightarrow> (\<not> b \<Longrightarrow> safe_on lg S n Q) \<Longrightarrow> safe_on lg S (if b then m else n) Q"
  by simp

lemma safe_true: "safe S m Q \<Longrightarrow> safe S m (\<lambda>_ _. True)"
  by (erule safe_weaken) simp

lemma safe_dup_dir: "sr_dir root \<in> S \<Longrightarrow> safe S (dup_dir K root) (\<lambda>f T. f \<in> T)"
  unfolding dup_dir_def by (auto intro!: safe_sys_fd)

lemma safe_walk:
  "p \<in> S \<Longrightarrow> list_all plain_name cs \<Longrightarrow> safe S (walk K uid create p cs) (\<lambda>f T. f \<in> T)"
proof (induction cs arbitrary: p S)
  case Nil
  then show ?case by (simp add: safe_returnE)
next
  case (Cons c cs)
  have "safe S (if create then mkdir_at K p c 448 else returnE ()) (\<lambda>_ _. True)"
    using Cons.prems by (auto intro: safe_mkdir_at safe_returnE)
  moreover have "safe T (walk K uid create f cs) (\<lambda>f T. f \<in> T)" if "f \<in> T" for T f
    using that Cons by simp
  moreover have "safe T (if create then ignoreE (fchown K f uid) else returnE ()) (\<lambda>_ _. True)"
    if "f \<in> T" for T f
    using that by (auto intro!: safe_ignoreE safe_fd_calls safe_returnE)
  ultimately show ?case
    using Cons.prems
    by (auto intro!: safe_thenE [where Q = "\<lambda>_ _. True"] safe_bindE [where Q = "\<lambda>f T. f \<in> T"] safe_open_dir_at)
qed

lemma safe_locate:
  assumes "sr_dir root \<in> S"
  shows "safe S (locate K root rel create)
    (\<lambda>loc T. lc_parent loc \<in> T \<and> (\<forall>n. lc_name loc = Some n \<longrightarrow> plain_name n))"
proof -
  have plain: "list_all plain_name (butlast (components_of rel))"
    "components_of rel \<noteq> [] \<Longrightarrow> plain_name (last (components_of rel))"
    using components_of_plain [of rel] by (auto simp: list_all_iff dest: in_set_butlastD)
  then show ?thesis
    unfolding locate_def Let_def using assms
    by (auto intro!: safe_bindE [where Q = "\<lambda>f T. f \<in> T"] safe_dup_dir safe_walk safe_returnE)
qed

lemma safe_located:
  assumes "sr_dir root \<in> S"
    and "\<And>loc T. S \<subseteq> T \<Longrightarrow> lc_parent loc \<in> T \<Longrightarrow> (\<And>n. lc_name loc = Some n \<Longrightarrow> plain_name n) \<Longrightarrow> safe T (g loc) R"
  shows "safe S (bindE (locate K root rel create) g) R"
  using assms(2) by (intro safe_bindE [OF safe_locate [OF assms(1)]]) auto

lemma safe_open_read: "sr_dir root \<in> S \<Longrightarrow> safe S (sr_open_read K root rel) (\<lambda>f T. f \<in> T)"
  unfolding sr_open_read_def
  by (auto split: option.splits intro!: safe_located safe_throwE safe_returnE
      safe_bindE [where Q = "\<lambda>f T. f \<in> T"] safe_open_at safe_bindE [OF safe_fd_calls(2)]
      dest: subsetD) blast+

lemma safe_open_write: "sr_dir root \<in> S \<Longrightarrow> safe S (sr_open_write K root rel cp off) (\<lambda>f T. f \<in> T)"
  unfolding sr_open_write_def Let_def
  by (auto split: option.splits intro!: safe_located safe_throwE safe_returnE safe_open_at
      safe_bindE [where Q = "\<lambda>f T. f \<in> T"] safe_bindE [OF safe_fd_calls(2)]
      safe_thenE [OF safe_ignoreE [OF safe_fd_calls(1), where R = "\<lambda>_ _. True"]]) blast+

lemma safe_metadata: "sr_dir root \<in> S \<Longrightarrow> safe S (sr_metadata K root rel) (\<lambda>_ _. True)"
  unfolding sr_metadata_def
  by (auto split: option.splits intro!: safe_located safe_bindE [where Q = "\<lambda>f T. f \<in> T"]
      safe_open_path_at safe_fd_calls)

lemma safe_stat_entry:
  "dir \<in> S \<Longrightarrow> plain_name n \<Longrightarrow> safe S (bindE (open_path_at K dir n) (fd_metadata K)) (\<lambda>_ _. True)"
  by (auto intro!: safe_bindE [where Q = "\<lambda>f T. f \<in> T"] safe_open_path_at safe_fd_calls)

lemma safe_list_entries:
  "dir \<in> S \<Longrightarrow> (\<And>n. Inr n \<in> set es \<Longrightarrow> plain_name n) \<Longrightarrow>
   safe S (list_entries K root rel dir es) (\<lambda>_ _. True)"
proof (induction K root rel dir es arbitrary: S rule: list_entries.induct)
  case (3 K root rel dir name es)
  have rest: "safe T (list_entries K root rel dir es) (\<lambda>_ _. True)" if "S \<subseteq> T" for T
    using 3 that by auto
  then show ?case
    using 3(3,4) by (auto intro!: safe_catchE [OF safe_stat_entry] safe_bindE [OF rest] safe_returnE)
qed (auto intro: safe_returnE safe_throwE)

lemma safe_list:
  assumes K: "readdir_plain K" and "sr_dir root \<in> S"
  shows "safe S (sr_list K root rel) (\<lambda>_ _. True)"
proof -
  have dir: "safe T (case lc_name loc of None \<Rightarrow> dup_dir K root | Some n \<Rightarrow> open_dir_at K (lc_parent loc) n)
      (\<lambda>f T. f \<in> T)"
    if "S \<subseteq> T" "lc_parent loc \<in> T" "\<And>n. lc_name loc = Some n \<Longrightarrow> plain_name n" for T loc
    using that assms by (auto split: option.splits intro!: safe_dup_dir safe_open_dir_at)
  have "safe T (bindE (read_dir_fd K f) (list_entries K root rel f)) (\<lambda>_ _. True)" if "f \<in> T" for f T
    using that K by (auto intro!: safe_bindE [OF safe_fd_calls(3)] safe_list_entries)
  with dir assms show ?thesis
    unfolding sr_list_def by (auto intro!: safe_located safe_bindE [OF dir])
qed

lemma safe_remove_files:
  "dir \<in> S \<Longrightarrow> (\<And>n. Inr n \<in> set es \<Longrightarrow> plain_name n) \<Longrightarrow> list_all plain_name sub \<Longrightarrow>
   safe S (remove_files K dir es sub) (\<lambda>r _. list_all plain_name r)"
proof (induction K dir es sub arbitrary: S rule: remove_files.induct)
  case (3 K dir name es sub)
  have "safe T (remove_files K dir es sub) (\<lambda>r _. list_all plain_name r)"
    "safe T (remove_files K dir es (sub @ [name])) (\<lambda>r _. list_all plain_name r)"
    if "S \<subseteq> T" for T
    using that 3(3-5) by (auto intro!: 3(1) [of True] 3(2) [of False])
  then show ?case
    using 3(3-5)
    by (auto intro!: safe_bindE [where Q = "\<lambda>_ _. True"] safe_catchE [OF safe_stat_entry] safe_returnE
        safe_thenE [OF safe_unlink_at])
qed (auto intro: safe_returnE safe_throwE)

lemma safe_remove_subdirs:
  assumes rec: "\<And>f T. f \<in> T \<Longrightarrow> safe T (rec f) (\<lambda>_ _. True)"
  shows "dir \<in> S \<Longrightarrow> list_all plain_name ns \<Longrightarrow> safe S (remove_subdirs K rec dir ns) (\<lambda>_ _. True)"
proof (induction ns arbitrary: S)
  case (Cons n ns)
  have rest: "safe T (remove_subdirs K rec dir ns) (\<lambda>_ _. True)" if "S \<subseteq> T" for T
    using that Cons by auto
  from Cons.prems show ?case
    by (auto split: option.splits intro!: safe_bindE [where Q = "\<lambda>f T. f \<in> T"] safe_open_dir_at
        safe_bindE [OF rec] safe_returnE safe_thenE [OF safe_unlink_at] rest) blast+
qed (simp add: safe_returnE)

lemma safe_remove_dir_contents:
  "readdir_plain K \<Longrightarrow> dir \<in> S \<Longrightarrow> safe S (remove_dir_contents fuel K dir) (\<lambda>_ _. True)"
proof (induction fuel arbitrary: dir S)
  case (Suc fuel)
  have "safe T (remove_subdirs K (remove_dir_contents fuel K) dir ns) (\<lambda>_ _. True)"
    if "S \<subseteq> T" "list_all plain_name ns" for T ns
    using that Suc by (auto intro!: safe_remove_subdirs)
  with Suc.prems show ?case
    by (auto intro!: safe_bindE [OF safe_fd_calls(3)] safe_bindE [OF safe_remove_files])
qed (simp add: safe_returnE)

lemma safe_delete:
  assumes "readdir_plain K" "sr_dir root \<in> S"
  shows "safe S (sr_delete fuel K root rel recursive) (\<lambda>_ _. True)"
proof -
  have unlink: "safe T (bindE (unlink_at K d n b) (\<lambda>_. returnE (Some ()))) (\<lambda>_ _. True)"
    if "d \<in> T" "plain_name n" for d n b T
    using that by (auto intro!: safe_bindE [OF safe_unlink_at] safe_returnE)
  have isdir: "safe T (catchE (fd_metadata K h) (\<lambda>md. returnE (is_dir md)) (\<lambda>_. returnE False)) (\<lambda>_ _. True)"
    if "h \<in> T" for h T
    using that by (auto intro!: safe_catchE [OF safe_fd_calls(2)] safe_returnE)
  have tree: "safe T (if recursive then bindE (open_dir_at K d n) (remove_dir_contents fuel K)
      else returnE (Some ())) (\<lambda>_ _. True)" if "d \<in> T" "plain_name n" for d n T
    using that assms(1)
    by (auto intro!: safe_bindE [where Q = "\<lambda>f T. f \<in> T"] safe_open_dir_at safe_remove_dir_contents safe_returnE)
  show ?thesis
    unfolding sr_delete_def using assms
    by (auto split: option.splits split del: if_split intro!: safe_located safe_throwE safe_returnE
        safe_if safe_bindE [where Q = "\<lambda>f T. f \<in> T"] safe_open_path_at safe_bindE [OF isdir]
        safe_bindE [OF tree] unlink) blast+
qed

lemma safe_mkdir_all: "sr_dir root \<in> S \<Longrightarrow> safe S (sr_mkdir_all K root rel) (\<lambda>_ _. True)"
  unfolding sr_mkdir_all_def
  by (auto split: option.splits intro!: safe_located safe_returnE safe_thenE [OF safe_mkdir_at]
      safe_bindE [where Q = "\<lambda>f T. f \<in> T"] safe_open_dir_at safe_ignoreE safe_fd_calls)

text \<open>
  Every call an operation makes is disciplined, starting from nothing but the home descriptor.
\<close>

definition inside :: "fd \<Rightarrow> ('w osw, 'a) io \<Rightarrow> bool" where
  "inside d m \<longleftrightarrow>
     (\<forall>s. \<exists>new. log (snd (m s)) = log s @ new \<and> disciplined {d} new)"

lemma inside_safe: "safe {d} m Q \<Longrightarrow> inside d m"
  unfolding safe_on_def inside_def by metis

text \<open>
  A scoped root stays inside its home. On every kernel, and so whatever a sandbox does to its
  directories meanwhile, each operation addresses objects only through descriptors that were
  obtained from the home descriptor, with at most one plain name per step (never a path, \<open>.\<close> or
  \<open>..\<close>), and each open refuses to follow a symbolic link.
\<close>

theorem scoped_root_inside:
  assumes "readdir_plain K"
  shows "inside (sr_dir root) (locate K root rel create) \<and>
    inside (sr_dir root) (sr_open_read K root rel) \<and>
    inside (sr_dir root) (sr_open_write K root rel create offset) \<and>
    inside (sr_dir root) (sr_metadata K root rel) \<and>
    inside (sr_dir root) (sr_list K root rel) \<and>
    inside (sr_dir root) (sr_delete fuel K root rel recursive) \<and>
    inside (sr_dir root) (sr_mkdir_all K root rel)"
  using assms
  by (auto intro!: inside_safe [OF safe_locate] inside_safe [OF safe_open_read]
      inside_safe [OF safe_open_write] inside_safe [OF safe_metadata] inside_safe [OF safe_list]
      inside_safe [OF safe_delete] inside_safe [OF safe_mkdir_all])

theorem scoped_root_inside_witness:
  "inside 7 (sr_delete 3 demo_kernel \<lparr>sr_home = ''/h'', sr_dir = 7, sr_uid = 9\<rparr> ''x/../y'' True)"
  using scoped_root_inside [OF demo_kernel_readdir, of "\<lparr>sr_home = ''/h'', sr_dir = 7, sr_uid = 9\<rparr>"]
  by simp

lemma sys_Inr: "sys c m s = (Inr x, t) \<longleftrightarrow>
    m (kst s) = (Inr x, kst t) \<and> log t = log s @ [(c, None)]"
  by (cases s; cases t) (auto simp: sys_def split: prod.splits)

lemma sys_fd_Inr: "sys_fd c m s = (Inr f, t) \<longleftrightarrow>
    m (kst s) = (Inr f, kst t) \<and> log t = log s @ [(c, Some f)]"
  by (cases s; cases t) (auto simp: sys_fd_def split: prod.splits)

lemma open_at_Inr: "open_at K d n fl m s = (Inr f, t) \<Longrightarrow>
    log t = log s @ [(Openat d n (fl OR BASE_FLAGS) m, Some f)]"
  by (auto simp: open_at_def c_path_def bindE_Inr sys_fd_Inr liftR_def split: if_splits)

lemma fd_metadata_Inr: "fd_metadata K f s = (Inr md, t) \<longleftrightarrow>
    k_fstat K f (kst s) = (Inr md, kst t) \<and> log t = log s @ [(Fstat f, None)]"
  by (simp add: fd_metadata_def sys_Inr)

lemma locate_Inr_name: "locate K root rel b s = (Inr loc, t) \<Longrightarrow>
   lc_name loc = (if components_of rel = [] then None else Some (last (components_of rel)))"
  by (auto simp: locate_def Let_def bindE_Inr returnE_def split: if_splits)

lemma ignoreE_run: "ignoreE m s = (Inr (), t) \<longleftrightarrow> t = snd (m s)"
  by (auto simp: ignoreE_def)

lemma fchown_log: "log (snd (fchown K f u s)) = log s @ [(Fchown f u, None)]"
  by (simp add: fchown_def sys_def split: prod.split)

lemma trunc_flag:
  "((O_WRONLY OR O_CREAT OR (if off = None then O_TRUNC else 0)) OR BASE_FLAGS) AND O_TRUNC \<noteq> 0 \<longleftrightarrow> off = None"
  by (simp add: open_flags BASE_FLAGS_def)

text \<open>
  A successful open for writing ends with three calls on the file itself: an \<open>openat\<close> of the
  last component that neither follows a link nor blocks and truncates exactly when no offset is
  given, an \<open>fstat\<close> that showed a regular file, and the change of owner to the sandbox.
\<close>

theorem sr_open_write_effect:
  assumes "sr_open_write K root rel create off s = (Inr f, t)"
  shows "\<exists>pre d fl w md w'.
     log t = pre @ [(Openat d (last (components_of rel)) fl 384, Some f), (Fstat f, None),
                    (Fchown f (sr_uid root), None)] \<and>
     (fl AND O_TRUNC \<noteq> 0 \<longleftrightarrow> off = None) \<and> fl AND O_NOFOLLOW \<noteq> 0 \<and> fl AND O_NONBLOCK \<noteq> 0 \<and>
     k_fstat K f w = (Inr md, w') \<and> is_file md"
proof -
  let ?fl = "(O_WRONLY OR O_CREAT OR (if off = None then O_TRUNC else 0)) OR BASE_FLAGS"
  from assms obtain loc s1 n s2 md s3 where
    l: "locate K root rel create s = (Inr loc, s1)" and n: "lc_name loc = Some n" and
    o: "open_at K (lc_parent loc) n (O_WRONLY OR O_CREAT OR (if off = None then O_TRUNC else 0)) 384 s1 = (Inr f, s2)" and
    m: "fd_metadata K f s2 = (Inr md, s3)" "is_file md" and t: "t = snd (fchown K f (sr_uid root) s3)"
    by (auto simp: sr_open_write_def Let_def bindE_Inr thenE_def throwE_def returnE_def ignoreE_run
        split: option.splits if_splits)
  from locate_Inr_name [OF l] n have "n = last (components_of rel)" by (auto split: if_splits)
  moreover have "?fl AND O_NOFOLLOW \<noteq> 0" "?fl AND O_NONBLOCK \<noteq> 0"
    by (auto simp: open_flags BASE_FLAGS_def)
  ultimately show ?thesis
    using open_at_Inr [OF o] m t trunc_flag [of off]
    by (intro exI [of _ "log s1"] exI [of _ "lc_parent loc"] exI [of _ ?fl] exI [of _ "kst s2"] exI [of _ md] exI [of _ "kst s3"])
       (simp add: fd_metadata_Inr fchown_log)
qed


abbreviation demo_root :: scoped_root where
  "demo_root \<equiv> \<lparr>sr_home = ''/h'', sr_dir = 3, sr_uid = 1001\<rparr>"

lemmas demo_simps = demo_kernel_def bindE_def thenE_def catchE_def ignoreE_def returnE_def throwE_def liftR_def
  sys_def sys_fd_def c_path_def open_at_def open_dir_at_def open_path_at_def fd_metadata_def fchown_def
  mkdir_at_def unlink_at_def read_dir_fd_def dup_dir_def locate_def components_of_def path_components_def
  List.map_filter_def NUL_def

theorem sr_open_write_effect_witness:
  "\<exists>f t pre d fl.
     sr_open_write demo_kernel demo_root ''d/f'' True None \<lparr>kst = 4, log = []\<rparr> = (Inr f, t) \<and>
     log t = pre @ [(Openat d ''f'' fl 384, Some f), (Fstat f, None), (Fchown f 1001, None)] \<and>
     fl AND O_TRUNC \<noteq> 0"
proof -
  let ?s = "\<lparr>kst = 4 :: nat, log = []\<rparr>"
  have "\<exists>f t. sr_open_write demo_kernel demo_root ''d/f'' True None ?s = (Inr f, t)"
    by (simp add: sr_open_write_def demo_simps)
  then obtain f t where ft: "sr_open_write demo_kernel demo_root ''d/f'' True None ?s = (Inr f, t)" by blast
  moreover have "last (components_of ''d/f'') = ''f''" by (simp add: components_of_def path_components_def List.map_filter_def)
  ultimately show ?thesis
    using sr_open_write_effect [OF ft] by auto
qed

text \<open>Likewise for reading: only what \<open>fstat\<close> calls a regular file is handed out.\<close>

lemma sr_open_read_regular:
  assumes "sr_open_read K root rel s = (Inr f, t)"
  shows "\<exists>pre d w md.
     log t = pre @ [(Openat d (last (components_of rel)) (O_RDONLY OR BASE_FLAGS) 0, Some f), (Fstat f, None)] \<and>
     k_fstat K f w = (Inr md, kst t) \<and> is_file md"
proof -
  from assms obtain loc s1 n s2 md where
    l: "locate K root rel False s = (Inr loc, s1)" and n: "lc_name loc = Some n" and
    o: "open_at K (lc_parent loc) n O_RDONLY 0 s1 = (Inr f, s2)" and
    m: "fd_metadata K f s2 = (Inr md, t)" "is_file md"
    by (auto simp: sr_open_read_def bindE_Inr throwE_def returnE_def split: option.splits if_splits)
  from locate_Inr_name [OF l] n have "n = last (components_of rel)" by (auto split: if_splits)
  with open_at_Inr [OF o] m show ?thesis
    by (intro exI [of _ "log s1"] exI [of _ "lc_parent loc"] exI [of _ "kst s2"] exI [of _ md])
       (simp add: fd_metadata_Inr)
qed

text \<open>A path that resolves to the home itself cannot be deleted.\<close>

lemma sr_delete_home:
  assumes "resolve (path_components p) = []"
  shows "(\<exists>e. fst (sr_delete fuel K root (normalize_relative p) recursive s) = Inl e) \<and>
     (\<forall>d n fl r. (Unlinkat d n fl, r) \<notin> set (drop (length (log s))
        (log (snd (sr_delete fuel K root (normalize_relative p) recursive s)))))"
proof -
  from assms have "components_of (normalize_relative p) = []" by (simp add: components_of_normalize)
  then show ?thesis
    by (auto simp: sr_delete_def locate_def bindE_def dup_dir_def sys_fd_def returnE_def throwE_def
        split: prod.splits sum.splits)
qed

end
