(* ===== verification/Rust_Io.thy ===== *)
theory Rust_Io
  imports Rust_Str
begin

text \<open>
  The two halves of a connection.

  The read half, a \<open>BufReader<TcpStream>\<close>, is the list of what the coming \<open>read\<close> calls find:
  bytes that have arrived together, or an error of the socket (a timeout among them); an empty
  list is the end of the stream. How the peer's bytes are cut into chunks is arbitrary, and the
  theorems about parsing and bodies say that it does not matter.

  The write half, a \<open>BufWriter<TcpStream>\<close>, has the 8 KiB buffer of the standard library in
  front of a socket that accepts a number of bytes (\<open>room\<close>, without bound for \<open>None\<close>) before it
  fails with \<open>wr_error\<close>: a peer that hung up or stopped reading.
\<close>

section \<open>Reading\<close>

datatype rd_event = Chunk string | RdErr io_error

type_synonym reader = "rd_event list"

text \<open>\<open>reader.read(&mut buf[..n])\<close> for \<open>n > 0\<close>; no bytes means end of stream.\<close>

fun rd_read :: "nat \<Rightarrow> reader \<Rightarrow> string result \<times> reader" where
  "rd_read n [] = (Inr [], [])"
| "rd_read n (RdErr e # es) = (Inl e, es)"
| "rd_read n (Chunk bs # es) =
     (if length bs \<le> n then (Inr bs, es) else (Inr (take n bs), Chunk (drop n bs) # es))"

text \<open>The bytes to come up to the first error, and a measure of what is left.\<close>

fun rd_bytes :: "reader \<Rightarrow> string" where
  "rd_bytes [] = []"
| "rd_bytes (RdErr e # es) = []"
| "rd_bytes (Chunk bs # es) = bs @ rd_bytes es"

fun rd_size :: "reader \<Rightarrow> nat" where
  "rd_size [] = 0"
| "rd_size (RdErr e # es) = Suc (rd_size es)"
| "rd_size (Chunk bs # es) = Suc (length bs + rd_size es)"

text \<open>A stream without errors whose chunks carry at least one byte: what a live peer sends.\<close>

fun rd_clean :: "reader \<Rightarrow> bool" where
  "rd_clean [] = True"
| "rd_clean (RdErr e # es) = False"
| "rd_clean (Chunk bs # es) = (bs \<noteq> [] \<and> rd_clean es)"

lemma rd_read_size:
  "rd_read n r = (Inr bs, r') \<Longrightarrow> bs \<noteq> [] \<Longrightarrow> rd_size r' < rd_size r"
  by (cases "(n, r)" rule: rd_read.cases) (auto split: if_splits)

lemma rd_read_length: "rd_read n r = (Inr bs, r') \<Longrightarrow> length bs \<le> n"
  by (cases "(n, r)" rule: rd_read.cases) (auto split: if_splits)

text \<open>On a clean stream a read takes a non-empty piece off the front, unless nothing is left.\<close>

lemma rd_read_clean:
  assumes "rd_clean r" and "0 < n"
  obtains bs r' where "rd_read n r = (Inr bs, r')" "rd_clean r'" "rd_bytes r = bs @ rd_bytes r'"
    "bs = [] \<longleftrightarrow> rd_bytes r = []"
proof (cases r)
  case (Cons ev es)
  with assms(1) obtain bs where bs: "r = Chunk bs # es" "bs \<noteq> []" "rd_clean es"
    by (cases ev) auto
  show thesis
  proof (cases "length bs \<le> n")
    case True
    with bs show thesis by (auto intro: that [of bs es])
  next
    case False
    with bs assms(2) show thesis by (auto intro: that [of "take n bs" "Chunk (drop n bs) # es"])
  qed
qed (auto intro: that [of "[]" "[]"])

section \<open>Writing\<close>

record writer =
  buffered :: string
  sent :: string
  room :: "nat option"
  wr_error :: io_error

definition BUF_CAPACITY :: nat where "BUF_CAPACITY = 8192"

text \<open>\<open>TcpStream::write_all\<close>: the error leaves what the socket had already accepted.\<close>

definition sock_write_all :: "string \<Rightarrow> (writer, unit) io" where
  "sock_write_all data w =
     (case room w of
        None \<Rightarrow> (Inr (), w\<lparr>sent := sent w @ data\<rparr>)
      | Some r \<Rightarrow>
          if length data \<le> r
          then (Inr (), w\<lparr>sent := sent w @ data, room := Some (r - length data)\<rparr>)
          else (Inl (wr_error w), w\<lparr>sent := sent w @ take r data, room := Some 0\<rparr>))"

definition flush_buf :: "(writer, unit) io" where
  "flush_buf w =
     (case sock_write_all (buffered w) w of
        (Inr _, w') \<Rightarrow> (Inr (), w'\<lparr>buffered := []\<rparr>)
      | (Inl e, w') \<Rightarrow>
          (Inl e, w'\<lparr>buffered := drop (length (sent w') - length (sent w)) (buffered w)\<rparr>))"

definition push_buf :: "string \<Rightarrow> (writer, unit) io" where
  "push_buf data w = (Inr (), w\<lparr>buffered := buffered w @ data\<rparr>)"

definition bw_write_all :: "string \<Rightarrow> (writer, unit) io" where
  "bw_write_all data w =
     (let spare = BUF_CAPACITY - length (buffered w) in
      if length data < spare then push_buf data w
      else thenE (if spare < length data then flush_buf else returnE ())
             (if BUF_CAPACITY \<le> length data then sock_write_all data else push_buf data) w)"

definition bw_flush :: "(writer, unit) io" where
  "bw_flush = flush_buf"

text \<open>What the program has written so far, whether or not the socket has it yet.\<close>

definition wr_output :: "writer \<Rightarrow> string" where
  "wr_output w = sent w @ buffered w"

lemma sock_write_all_ok:
  "sock_write_all data w = (Inr u, w') \<Longrightarrow>
     sent w' = sent w @ data \<and> buffered w' = buffered w \<and> wr_error w' = wr_error w"
  by (auto simp: sock_write_all_def split: option.splits if_splits)

lemma flush_buf_ok:
  "flush_buf w = (Inr u, w') \<Longrightarrow> sent w' = wr_output w \<and> buffered w' = []"
  by (auto simp: flush_buf_def wr_output_def split: prod.splits sum.splits dest!: sock_write_all_ok)

lemma bw_write_all_ok:
  assumes "bw_write_all data w = (Inr u, w')"
  shows "wr_output w' = wr_output w @ data"
proof (cases "length data < BUF_CAPACITY - length (buffered w)")
  case True
  with assms show ?thesis by (auto simp: bw_write_all_def push_buf_def wr_output_def Let_def)
next
  case False
  let ?m = "if BUF_CAPACITY - length (buffered w) < length data then flush_buf else returnE ()"
  let ?n = "if BUF_CAPACITY \<le> length data then sock_write_all data else push_buf data"
  from assms False obtain v w1 where m: "?m w = (Inr v, w1)" and n: "?n w1 = (Inr u, w')"
    by (auto simp: bw_write_all_def thenE_def bindE_Inr Let_def)
  from m have out: "wr_output w1 = wr_output w"
    by (auto simp: wr_output_def returnE_def split: if_splits dest: flush_buf_ok)
  from m n have empty: "BUF_CAPACITY \<le> length data \<Longrightarrow> buffered w1 = []"
    using False by (cases "buffered w") (auto simp: BUF_CAPACITY_def returnE_def split: if_splits dest: flush_buf_ok)
  with n out show ?thesis
    by (auto simp: push_buf_def wr_output_def split: if_splits dest!: sock_write_all_ok)
qed

text \<open>A socket without a limit never fails, so nothing the program writes is lost.\<close>

lemma sock_write_all_open: "room w = None \<Longrightarrow> \<exists>w'. sock_write_all d w = (Inr (), w') \<and> room w' = None"
  by (simp add: sock_write_all_def)

lemma flush_buf_open: "room w = None \<Longrightarrow> \<exists>w'. flush_buf w = (Inr (), w') \<and> room w' = None"
  by (auto simp: flush_buf_def sock_write_all_def)

lemma bw_write_all_open: "room w = None \<Longrightarrow> \<exists>w'. bw_write_all d w = (Inr (), w') \<and> room w' = None"
  using flush_buf_open [of w]
  by (auto simp: bw_write_all_def push_buf_def thenE_def bindE_def returnE_def Let_def
      sock_write_all_def split: if_splits)

end
