(* ===== verification/Http.thy ===== *)
theory Http
  imports Json Rust_Io
begin

text \<open>
  \<open>src/http.rs\<close>: the HTTP/1.1 layer. The request head is read byte by byte up to the first
  blank line under an absolute deadline (\<open>read_request\<close>) and parsed by a parser that refuses
  whatever is ambiguous (\<open>parse_head\<close>); bodies are read whole, streamed or drained
  (\<open>read_body\<close>, \<open>stream_body\<close>, \<open>drain_body\<close>); responses are written with explicit framing by
  the record \<open>response_writer\<close>.

  The lemmas show that the parser only accepts heads with one reading (names lowercased and made
  of token bytes, values free of control bytes, one framing header with a plain decimal value),
  that reading a head and consuming a body take exactly their bytes off the connection however
  the network cuts the stream, that percent-decoding inverts percent-encoding, and that a chunked
  response decodes to the chunks that were written.
\<close>

section \<open>Constants and the request\<close>

definition MAX_HEADER_BYTES :: nat where "MAX_HEADER_BYTES = 64 * 1024"
definition MAX_HEADERS :: nat where "MAX_HEADERS = 100"
definition MAX_DRAIN_BYTES :: nat where "MAX_DRAIN_BYTES = 1024 * 1024"

text \<open>Milliseconds.\<close>

definition HEAD_TIMEOUT :: nat where "HEAD_TIMEOUT = 10000"

record request =
  rq_method :: string
  rq_path :: string
  params :: "(string, string) hashmap"
  raw_query :: string
  headers :: "(string, string) hashmap"
  content_length :: nat
  body_consumed :: nat
  rq_keep_alive :: bool

definition header :: "request \<Rightarrow> string \<Rightarrow> string option" where
  "header r name = hm_get (headers r) (to_ascii_lowercase name)"

definition bool_param :: "(string, string) hashmap \<Rightarrow> string \<Rightarrow> bool \<Rightarrow> bool" where
  "bool_param ps key dflt =
     (case hm_get ps key of
        Some v \<Rightarrow> if v = ''true'' \<or> v = ''1'' then True
                  else if v = ''false'' \<or> v = ''0'' then False
                  else dflt
      | None \<Rightarrow> dflt)"

section \<open>Targets\<close>

text \<open>
  The loop of \<open>urldecode\<close> looks two bytes ahead of a percent sign; \<open>from_utf8\<close> of the pair and
  \<open>u8::from_str_radix\<close> decide whether it is an escape.
\<close>

fun urldecode_bytes :: "string \<Rightarrow> string" where
  "urldecode_bytes [] = []"
| "urldecode_bytes (c # h1 # h2 # r) =
     (if c = CHR ''%'' then
        (let hex = (if is_utf8 [h1, h2] then [h1, h2] else ''zz'') in
         case from_str_radix 16 u8_max hex of
           Some b \<Rightarrow> char_of b # urldecode_bytes r
         | None \<Rightarrow> c # urldecode_bytes (h1 # h2 # r))
      else if c = CHR ''+'' then CHR '' '' # urldecode_bytes (h1 # h2 # r)
      else c # urldecode_bytes (h1 # h2 # r))"
| "urldecode_bytes (c # r) =
     (if c = CHR ''+'' then CHR '' '' # urldecode_bytes r else c # urldecode_bytes r)"

definition urldecode :: "string \<Rightarrow> string" where
  "urldecode s = from_utf8_lossy (urldecode_bytes s)"

definition parse_query :: "string \<Rightarrow> (string, string) hashmap" where
  "parse_query query =
     foldl (\<lambda>ps pair.
              let (k, v) = (case split_once (CHR ''='') pair of Some kv \<Rightarrow> kv | None \<Rightarrow> (pair, []))
              in hm_insert (urldecode k) (urldecode v) ps)
       [] (filter (\<lambda>p. p \<noteq> []) (split_char (CHR ''&'') query))"

definition parse_url :: "string \<Rightarrow> string \<times> (string, string) hashmap \<times> string" where
  "parse_url url =
     (let (path, query) = (case split_once (CHR ''?'') url of Some pq \<Rightarrow> pq | None \<Rightarrow> (url, []))
      in (path, parse_query query, query))"

section \<open>Heads\<close>

definition squote :: "string \<Rightarrow> string" where
  "squote s = [CHR 0x27] @ s @ [CHR 0x27]"

definition bad :: "string \<Rightarrow> io_error" where
  "bad message = IoError InvalidData message"

definition is_token_byte :: "char \<Rightarrow> bool" where
  "is_token_byte b \<longleftrightarrow> is_ascii_alphanumeric b \<or> b \<in> set ''!#$%&'*+-.^_`|~''"

definition is_blank :: "char \<Rightarrow> bool" where
  "is_blank c \<longleftrightarrow> c = CHR '' '' \<or> c = TAB"

definition bad_value_byte :: "char \<Rightarrow> bool" where
  "bad_value_byte b \<longleftrightarrow> (byte b < 32 \<and> b \<noteq> TAB) \<or> byte b = 127"

definition bad_target_byte :: "char \<Rightarrow> bool" where
  "bad_target_byte b \<longleftrightarrow> byte b \<le> 32 \<or> byte b = 127"

text \<open>One header line that is not empty, then the loop over the lines.\<close>

definition parse_header_line ::
  "string \<Rightarrow> (string, string) hashmap \<Rightarrow> (string, string) hashmap result" where
  "parse_header_line line hs =
     (if is_blank (hd line) then Inl (bad ''obsolete line folding is not supported'')
      else (case split_once (CHR '':'') line of
        None \<Rightarrow> Inl (bad ''header line without a colon'')
      | Some (name, value) \<Rightarrow>
          if name = [] \<or> is_blank (last name) then Inl (bad ''bad header name'')
          else if \<not> list_all is_token_byte name then Inl (bad ''illegal character in header name'')
          else if list_ex bad_value_byte value then Inl (bad ''illegal control character in header value'')
          else (let name' = to_ascii_lowercase name; value' = trim_matches is_blank value in
            case hm_get hs name' of
              Some existing \<Rightarrow>
                if existing \<noteq> value' then Inl (bad ''conflicting duplicate header'') else Inr hs
            | None \<Rightarrow> Inr (hm_insert name' value' hs))))"

fun parse_headers ::
  "string list \<Rightarrow> nat \<Rightarrow> (string, string) hashmap \<Rightarrow> (string, string) hashmap result" where
  "parse_headers [] count hs = Inr hs"
| "parse_headers (line # lines) count hs =
     (if line = [] then parse_headers lines count hs
      else if MAX_HEADERS < Suc count then Inl (bad ''too many headers'')
      else (case parse_header_line line hs of
          Inl e \<Rightarrow> Inl e
        | Inr hs' \<Rightarrow> parse_headers lines (Suc count) hs'))"

definition parse_content_length :: "(string, string) hashmap \<Rightarrow> nat result" where
  "parse_content_length hs =
     (case hm_get hs ''content-length'' of
        None \<Rightarrow> Inr 0
      | Some raw \<Rightarrow>
          if raw = [] \<or> \<not> list_all is_ascii_digit raw then Inl (bad ''malformed Content-Length'')
          else (case parse_u64 raw of
                  None \<Rightarrow> Inl (bad ''Content-Length out of range'')
                | Some n \<Rightarrow> Inr n))"

definition parse_keep_alive :: "(string, string) hashmap \<Rightarrow> string \<Rightarrow> bool" where
  "parse_keep_alive hs version =
     (case map_option to_ascii_lowercase (hm_get hs ''connection'') of
        Some c \<Rightarrow> if contains_str ''close'' c then False
                  else if contains_str ''keep-alive'' c then True
                  else version = ''HTTP/1.1''
      | None \<Rightarrow> version = ''HTTP/1.1'')"

definition parse_head :: "string \<Rightarrow> request result" where
  "parse_head head =
     (if list_ex (\<lambda>b. 128 \<le> byte b) head then Inl (bad ''non-ASCII byte in request head'')
      else if \<not> is_utf8 head then Inl (bad ''request head is not valid UTF-8'')
      else (let lines = split_crlf (trim_end_matches (CRLF @ CRLF) head) in
        case split_char (CHR '' '') (hd lines) of
          [verb, url, version] \<Rightarrow>
            if verb = [] \<or> \<not> list_all is_ascii_alphabetic verb then Inl (bad ''bad method'')
            else if version \<noteq> ''HTTP/1.0'' \<and> version \<noteq> ''HTTP/1.1''
              then Inl (bad ''unsupported HTTP version'')
            else if \<not> prefix ''/'' url \<or> list_ex bad_target_byte url
              then Inl (bad ''invalid request target'')
            else (case parse_headers (tl lines) 0 [] of
                Inl e \<Rightarrow> Inl e
              | Inr hs \<Rightarrow>
                  if hm_contains_key hs ''content-length'' \<and> hm_contains_key hs ''transfer-encoding''
                  then Inl (bad ''Content-Length and Transfer-Encoding must not both be present'')
                  else (case parse_content_length hs of
                      Inl e \<Rightarrow> Inl e
                    | Inr n \<Rightarrow>
                        (let (path, ps, q) = parse_url url in
                         Inr \<lparr>rq_method = to_ascii_uppercase verb, rq_path = path, params = ps,
                              raw_query = q, headers = hs, content_length = n, body_consumed = 0,
                              rq_keep_alive = parse_keep_alive hs version\<rparr>)))
        | _ \<Rightarrow> Inl (bad (''request line must be exactly '' @ squote ''METHOD TARGET VERSION''))))"

text \<open>\<open>head.ends_with(b"\r\n\r\n")\<close>.\<close>

definition ends_blank :: "string \<Rightarrow> bool" where
  "ends_blank h \<longleftrightarrow> suffix (CRLF @ CRLF) h"

text \<open>
  The loop of \<open>read_request\<close>. \<open>clock i\<close> is the instant of the \<open>i\<close>-th look at the monotonic
  clock.
\<close>

function read_head :: "(nat \<Rightarrow> nat) \<Rightarrow> nat \<Rightarrow> nat \<Rightarrow> string \<Rightarrow> reader \<Rightarrow> string option result \<times> reader" where
  "read_head clock deadline i head r =
     (if deadline < clock i
      then (Inl (IoError TimedOut ''timed out reading the request head''), r)
      else (case rd_read 1 r of
          (Inl e, r') \<Rightarrow> (Inl e, r')
        | (Inr [], r') \<Rightarrow>
            if head = [] then (Inr None, r')
            else (Inl (IoError UnexpectedEof ''eof in request head''), r')
        | (Inr (b # _), r') \<Rightarrow>
            if MAX_HEADER_BYTES < length (head @ [b])
            then (Inl (IoError InvalidData ''request head too large''), r')
            else if ends_blank (head @ [b]) then (Inr (Some (head @ [b])), r')
            else read_head clock deadline (Suc i) (head @ [b]) r'))"
  by pat_completeness auto
termination
  by (relation "measure (\<lambda>(_, _, _, _, r). rd_size r)")
     (auto dest!: sym [of "(_, _)" "rd_read _ _"] dest: rd_read_size)

declare read_head.simps [simp del]

definition read_request :: "(nat \<Rightarrow> nat) \<Rightarrow> reader \<Rightarrow> request option result \<times> reader" where
  "read_request clock r =
     (case read_head clock (clock 0 + HEAD_TIMEOUT) 1 [] r of
        (Inl e, r') \<Rightarrow> (Inl e, r')
      | (Inr None, r') \<Rightarrow> (Inr None, r')
      | (Inr (Some head), r') \<Rightarrow>
          (case parse_head head of Inl e \<Rightarrow> (Inl e, r') | Inr q \<Rightarrow> (Inr (Some q), r')))"

section \<open>Responses\<close>

definition status_text :: "nat \<Rightarrow> string" where
  "status_text code =
     (if code = 200 then ''OK''
      else if code = 400 then ''Bad Request''
      else if code = 403 then ''Forbidden''
      else if code = 404 then ''Not Found''
      else if code = 405 then ''Method Not Allowed''
      else if code = 408 then ''Request Timeout''
      else if code = 409 then ''Conflict''
      else if code = 411 then ''Length Required''
      else if code = 500 then ''Internal Server Error''
      else if code = 503 then ''Service Unavailable''
      else if code = 505 then ''HTTP Version Not Supported''
      else ''Unknown'')"

record response_writer =
  rw_writer :: writer
  rw_keep_alive :: bool
  started :: bool
  chunked :: bool
  hijacked :: bool

definition rw_new :: "writer \<Rightarrow> bool \<Rightarrow> response_writer" where
  "rw_new w keep_alive =
     \<lparr>rw_writer = w, rw_keep_alive = keep_alive, started = False, chunked = False, hijacked = False\<rparr>"

text \<open>An operation of the buffered writer inside a response writer.\<close>

definition on_writer :: "(writer, 'a) io \<Rightarrow> (response_writer, 'a) io" where
  "on_writer m rw = (case m (rw_writer rw) of (x, w) \<Rightarrow> (x, rw\<lparr>rw_writer := w\<rparr>))"

text \<open>\<open>hijack\<close>; \<open>cloned\<close> is the outcome of \<open>try_clone\<close> on the socket.\<close>

definition hijack :: "'a result \<Rightarrow> (response_writer, 'a) io" where
  "hijack cloned =
     thenE (on_writer bw_flush) (\<lambda>rw. (cloned, rw\<lparr>started := True, hijacked := True\<rparr>))"

definition head_prefix :: "nat \<Rightarrow> string \<Rightarrow> bool \<Rightarrow> string" where
  "head_prefix status content_type keep_alive =
     ''HTTP/1.1 '' @ show_nat status @ '' '' @ status_text status @ CRLF @
     ''Content-Type: '' @ content_type @ CRLF @
     ''Connection: '' @ (if keep_alive then ''keep-alive'' else ''close'') @ CRLF"

definition write_head :: "nat \<Rightarrow> string \<Rightarrow> nat option \<Rightarrow> (response_writer, unit) io" where
  "write_head status content_type len rw =
     thenE (on_writer (bw_write_all (head_prefix status content_type (rw_keep_alive rw))))
       (case len of
          Some n \<Rightarrow> on_writer (bw_write_all (''Content-Length: '' @ show_nat n @ CRLF @ CRLF))
        | None \<Rightarrow> (\<lambda>rw'. on_writer
            (bw_write_all (''Transfer-Encoding: chunked'' @ CRLF @ ''X-Accel-Buffering: no'' @ CRLF @ CRLF))
            (rw'\<lparr>chunked := True\<rparr>)))
       (rw\<lparr>started := True\<rparr>)"

definition rw_fixed :: "nat \<Rightarrow> string \<Rightarrow> string \<Rightarrow> (response_writer, unit) io" where
  "rw_fixed status content_type body =
     thenE (write_head status content_type (Some (length body)))
       (thenE (on_writer (bw_write_all body)) (on_writer bw_flush))"

definition rw_json :: "codec \<Rightarrow> nat \<Rightarrow> json \<Rightarrow> (response_writer, unit) io" where
  "rw_json C status body = rw_fixed status ''application/json'' (to_vec C body)"

definition rw_error :: "codec \<Rightarrow> nat \<Rightarrow> string \<Rightarrow> (response_writer, unit) io" where
  "rw_error C status message = rw_json C status (JObject [(''error'', JString message)])"

definition start_stream :: "nat \<Rightarrow> string \<Rightarrow> (response_writer, unit) io" where
  "start_stream status content_type =
     thenE (write_head status content_type None) (on_writer bw_flush)"

definition start_fixed :: "nat \<Rightarrow> string \<Rightarrow> nat \<Rightarrow> (response_writer, unit) io" where
  "start_fixed status content_type len = write_head status content_type (Some len)"

definition rw_raw :: "string \<Rightarrow> (response_writer, unit) io" where
  "rw_raw data = on_writer (bw_write_all data)"

definition rw_flush :: "(response_writer, unit) io" where
  "rw_flush = on_writer bw_flush"

definition rw_chunk :: "string \<Rightarrow> (response_writer, unit) io" where
  "rw_chunk data =
     (if data = [] then returnE ()
      else thenE (on_writer (bw_write_all (show_hex (length data) @ CRLF)))
             (thenE (on_writer (bw_write_all data))
                (thenE (on_writer (bw_write_all CRLF)) (on_writer bw_flush))))"

definition rw_finish :: "(response_writer, unit) io" where
  "rw_finish rw =
     (if chunked rw
      then thenE (on_writer (bw_write_all (''0'' @ CRLF @ CRLF))) (on_writer bw_flush) rw
      else (Inr (), rw))"

section \<open>The connection a handler works on, and bodies\<close>

text \<open>
  What a handler is given: the request, the read half, the response writer, and the rest of the
  world (operating system and server state) as a type parameter.
\<close>

record 'w conn =
  c_req :: request
  c_rd :: reader
  c_rw :: response_writer
  c_os :: 'w

definition resp :: "(response_writer, 'a) io \<Rightarrow> ('w conn, 'a) io" where
  "resp m c = (case m (c_rw c) of (x, rw) \<Rightarrow> (x, c\<lparr>c_rw := rw\<rparr>))"

definition os :: "('w, 'a) io \<Rightarrow> ('w conn, 'a) io" where
  "os m c = (case m (c_os c) of (x, w) \<Rightarrow> (x, c\<lparr>c_os := w\<rparr>))"

definition eof_in_body :: io_error where
  "eof_in_body = IoError UnexpectedEof ''eof in request body''"

function read_body_loop :: "nat \<Rightarrow> string \<Rightarrow> reader \<Rightarrow> string result \<times> reader" where
  "read_body_loop len body r =
     (if length body < len then
        (case rd_read (min (len - length body) (64 * 1024)) r of
           (Inl e, r') \<Rightarrow> (Inl e, r')
         | (Inr bs, r') \<Rightarrow>
             if bs = [] then (Inl eof_in_body, r') else read_body_loop len (body @ bs) r')
      else (Inr body, r))"
  by pat_completeness auto
termination
  by (relation "measure (\<lambda>(_, _, r). rd_size r)")
     (auto dest!: sym [of "(_, _)" "rd_read _ _"] dest: rd_read_size)

declare read_body_loop.simps [simp del]

definition read_body :: "nat \<Rightarrow> ('w conn, string) io" where
  "read_body mx c =
     (if mx < content_length (c_req c) then (Inl (IoError InvalidData ''body too large''), c)
      else (case read_body_loop (content_length (c_req c)) [] (c_rd c) of
          (Inl e, r) \<Rightarrow> (Inl e, c\<lparr>c_rd := r\<rparr>)
        | (Inr body, r) \<Rightarrow>
            (Inr body, c\<lparr>c_rd := r,
               c_req := (c_req c)\<lparr>body_consumed := content_length (c_req c)\<rparr>\<rparr>)))"

text \<open>The loop of \<open>stream_body\<close>: bytes consumed, read half and world thread through it.\<close>

function stream_loop ::
  "(string \<Rightarrow> ('w, unit) io) \<Rightarrow> nat \<Rightarrow> nat \<Rightarrow> reader \<Rightarrow> 'w \<Rightarrow> unit result \<times> nat \<times> reader \<times> 'w" where
  "stream_loop f remaining consumed r w =
     (if 0 < remaining then
        (case rd_read (min (64 * 1024) remaining) r of
           (Inl e, r') \<Rightarrow> (Inl e, consumed, r', w)
         | (Inr bs, r') \<Rightarrow>
             if bs = [] then (Inl eof_in_body, consumed, r', w)
             else (case f bs w of
                 (Inl e, w') \<Rightarrow> (Inl e, consumed, r', w')
               | (Inr _, w') \<Rightarrow>
                   stream_loop f (remaining - length bs) (consumed + length bs) r' w'))
      else (Inr (), consumed, r, w))"
  by pat_completeness auto
termination
  by (relation "measure (\<lambda>(_, _, _, r, _). rd_size r)")
     (auto dest!: sym [of "(_, _)" "rd_read _ _"] dest: rd_read_size)

declare stream_loop.simps [simp del]

definition stream_body :: "(string \<Rightarrow> ('w, unit) io) \<Rightarrow> ('w conn, nat) io" where
  "stream_body f c =
     (let q = c_req c in
      case stream_loop f (content_length q - body_consumed q) (body_consumed q) (c_rd c) (c_os c) of
        (res, consumed, r, w) \<Rightarrow>
          (case res of Inl e \<Rightarrow> Inl e | Inr _ \<Rightarrow> Inr (content_length q),
           c\<lparr>c_req := q\<lparr>body_consumed := consumed\<rparr>, c_rd := r, c_os := w\<rparr>))"

text \<open>\<open>io::copy\<close> from \<open>take(remaining)\<close> into the sink: an interrupted read is tried again.\<close>

function drain_loop :: "nat \<Rightarrow> reader \<Rightarrow> unit result \<times> reader" where
  "drain_loop remaining r =
     (if remaining = 0 then (Inr (), r)
      else (case r of
          [] \<Rightarrow> (Inr (), r)
        | RdErr e # es \<Rightarrow> if kind e = Interrupted then drain_loop remaining es else (Inl e, es)
        | Chunk bs # es \<Rightarrow>
            if bs = [] then (Inr (), es)
            else if length bs \<le> remaining then drain_loop (remaining - length bs) es
            else (Inr (), Chunk (drop remaining bs) # es)))"
  by pat_completeness auto
termination
  by (relation "measure (\<lambda>(_, r). rd_size r)") auto

declare drain_loop.simps [simp del]

definition drain_body :: "('w conn, unit) io" where
  "drain_body c =
     (let q = c_req c; remaining = content_length q - body_consumed q in
      if remaining = 0 then (Inr (), c)
      else if MAX_DRAIN_BYTES < remaining
      then (Inl (IoError InvalidData ''undrained body too large; closing''), c)
      else (case drain_loop remaining (c_rd c) of
          (Inl e, r) \<Rightarrow> (Inl e, c\<lparr>c_rd := r\<rparr>)
        | (Inr _, r) \<Rightarrow>
            (Inr (), c\<lparr>c_rd := r, c_req := q\<lparr>body_consumed := content_length q\<rparr>\<rparr>)))"

section \<open>What the parser accepts\<close>

definition header_wf :: "string \<times> string \<Rightarrow> bool" where
  "header_wf h \<longleftrightarrow>
     fst h \<noteq> [] \<and> list_all is_token_byte (fst h) \<and> to_ascii_lowercase (fst h) = fst h \<and>
     \<not> list_ex bad_value_byte (snd h) \<and> list_all is_ascii (snd h) \<and>
     trim_matches is_blank (snd h) = snd h"

definition headers_wf :: "(string, string) hashmap \<Rightarrow> bool" where
  "headers_wf hs \<longleftrightarrow> hm_ok hs \<and> list_all header_wf hs"

definition length_wf :: "(string, string) hashmap \<Rightarrow> nat \<Rightarrow> bool" where
  "length_wf hs n \<longleftrightarrow>
     (case hm_get hs ''content-length'' of
        None \<Rightarrow> n = 0
      | Some raw \<Rightarrow> raw \<noteq> [] \<and> list_all is_ascii_digit raw \<and> n = digits_value 10 0 raw)"

definition target_wf :: "string \<Rightarrow> bool" where
  "target_wf s \<longleftrightarrow> \<not> list_ex bad_target_byte s \<and> list_all is_ascii s"

definition request_wf :: "request \<Rightarrow> bool" where
  "request_wf q \<longleftrightarrow>
     rq_method q \<noteq> [] \<and> list_all is_ascii_uppercase (rq_method q) \<and>
     prefix ''/'' (rq_path q) \<and> CHR ''?'' \<notin> set (rq_path q) \<and>
     target_wf (rq_path q) \<and> target_wf (raw_query q) \<and>
     headers_wf (headers q) \<and> length (headers q) \<le> MAX_HEADERS \<and>
     \<not> (hm_contains_key (headers q) ''content-length'' \<and>
        hm_contains_key (headers q) ''transfer-encoding'') \<and>
     length_wf (headers q) (content_length q) \<and> content_length q \<le> u64_max \<and>
     body_consumed q = 0"

lemma is_token_byte_lower: "is_token_byte b \<Longrightarrow> is_token_byte (lower_byte b)"
proof (cases "is_ascii_uppercase b")
  case True
  then have "is_ascii_lowercase (lower_byte b)"
    by (simp add: is_ascii_lowercase_def is_ascii_uppercase_def byte_lower)
  then show "is_token_byte (lower_byte b)"
    by (simp add: is_token_byte_def is_ascii_alphanumeric_def is_ascii_alphabetic_def)
qed (simp add: lower_byte_def)

lemma header_wf_parsed:
  assumes "name \<noteq> []" "list_all is_token_byte name" "\<not> list_ex bad_value_byte v" "list_all is_ascii v"
  shows "header_wf (to_ascii_lowercase name, trim_matches is_blank v)"
proof -
  have "set (trim_matches is_blank v) \<subseteq> set v" by (rule set_trim_matches)
  with assms show ?thesis
    by (auto simp: header_wf_def list_all_iff list_ex_iff to_ascii_lowercase_def
        is_token_byte_lower)
qed

lemma headers_wf_insert:
  "headers_wf hs \<Longrightarrow> header_wf (k, v) \<Longrightarrow> headers_wf (hm_insert k v hs)"
  by (auto simp: headers_wf_def hm.ok_insert list_all_iff hm.entries_insert)


lemma parse_header_line_wf:
  assumes "parse_header_line line hs = Inr hs'" and "headers_wf hs" and "list_all is_ascii line"
  shows "headers_wf hs' \<and> length hs' \<le> Suc (length hs)"
proof -
  from assms(1) obtain name v where sp: "split_once (CHR '':'') line = Some (name, v)"
    and ne: "name \<noteq> []" and tok: "list_all is_token_byte name"
    and val: "\<not> list_ex bad_value_byte v"
    by (auto simp: parse_header_line_def split: if_splits option.splits)
  have "list_all is_ascii v" using assms(3) sp by (auto simp: split_once_Some)
  with ne tok val have wf: "header_wf (to_ascii_lowercase name, trim_matches is_blank v)"
    by (intro header_wf_parsed)
  have ok: "hm_ok hs" using assms(2) by (simp add: headers_wf_def)
  show ?thesis
    using assms sp wf headers_wf_insert [OF assms(2) wf] hm.len_insert_new [OF ok]
    by (auto simp: parse_header_line_def Let_def split: if_splits option.splits)
qed

lemma parse_headers_wf:
  assumes "parse_headers lines count hs = Inr hs'" and "headers_wf hs" and "length hs \<le> count"
    and "count \<le> MAX_HEADERS" and "\<forall>l \<in> set lines. list_all is_ascii l"
  shows "headers_wf hs' \<and> length hs' \<le> MAX_HEADERS"
  using assms
proof (induction lines arbitrary: count hs)
  case (Cons line lines)
  show ?case
  proof (cases "line = []")
    case True
    with Cons show ?thesis by auto
  next
    case False
    with Cons.prems(1) obtain hs1 where l: "parse_header_line line hs = Inr hs1"
      and rest: "parse_headers lines (Suc count) hs1 = Inr hs'" and cnt: "Suc count \<le> MAX_HEADERS"
      by (auto split: if_splits sum.splits)
    from parse_header_line_wf [OF l Cons.prems(2)] Cons.prems(5)
    have "headers_wf hs1" "length hs1 \<le> Suc (length hs)" by auto
    with Cons.IH [OF rest] Cons.prems cnt show ?thesis by auto
  qed
qed auto

lemma parse_content_length_wf:
  assumes "parse_content_length hs = Inr n"
  shows "length_wf hs n \<and> n \<le> u64_max"
  using assms from_str_radix_decimal [of _ u64_max]
  by (auto simp: parse_content_length_def length_wf_def parse_u64_def split: option.splits if_splits)

lemma parse_url_wf:
  assumes "parse_url url = (path, ps, q)" and "prefix ''/'' url" and "target_wf url"
  shows "prefix ''/'' path \<and> CHR ''?'' \<notin> set path \<and> target_wf path \<and> target_wf q"
  using assms
  by (cases url) (auto simp: parse_url_def target_wf_def split_once_Some split_once_None Cons_eq_append_conv
      split: option.splits)

lemma parse_head_request_wf: "parse_head head = Inr q \<Longrightarrow> request_wf q"
proof -
  assume ok: "parse_head head = Inr q"
  let ?lines = "split_crlf (trim_end_matches (CRLF @ CRLF) head)"
  have ascii: "list_all is_ascii head"
    using ok by (auto simp: parse_head_def list_all_iff list_ex_iff is_ascii_def split: if_splits)
  have lines: "list_all is_ascii l" if "l \<in> set ?lines" for l
    using that ascii split_crlf_sub [OF that] set_trim_end_matches [of "CRLF @ CRLF" head]
    by (auto simp: list_all_iff)
  from ok obtain verb url version hs n path ps qs where
    rl: "split_char (CHR '' '') (hd ?lines) = [verb, url, version]"
    and verb: "verb \<noteq> []" "list_all is_ascii_alphabetic verb"
    and url: "prefix ''/'' url" "\<not> list_ex bad_target_byte url"
    and hs: "parse_headers (tl ?lines) 0 [] = Inr hs"
    and both: "\<not> (hm_contains_key hs ''content-length'' \<and> hm_contains_key hs ''transfer-encoding'')"
    and cl: "parse_content_length hs = Inr n" and pu: "parse_url url = (path, ps, qs)"
    and q: "q = \<lparr>rq_method = to_ascii_uppercase verb, rq_path = path, params = ps, raw_query = qs,
             headers = hs, content_length = n, body_consumed = 0,
             rq_keep_alive = parse_keep_alive hs version\<rparr>"
    by (auto simp: parse_head_def Let_def split: if_splits list.splits sum.splits prod.splits)
  have "set url \<subseteq> set (hd ?lines)"
    using split_char_sub [of url "CHR '' ''" "hd ?lines"] rl by simp
  moreover have "list_all is_ascii (hd ?lines)" by (rule lines) simp
  ultimately have "target_wf url" using url(2) by (auto simp: target_wf_def list_all_iff)
  note target = parse_url_wf [OF pu url(1) this]
  have "\<forall>l \<in> set (tl ?lines). list_all is_ascii l" using lines by (meson list.set_sel(2) split_crlf_not_Nil)
  with parse_headers_wf [OF hs] have "headers_wf hs" "length hs \<le> MAX_HEADERS"
    by (auto simp: headers_wf_def hm.ok_empty)
  moreover have "list_all is_ascii_uppercase (to_ascii_uppercase verb)"
    using verb(2) by (auto simp: list_all_iff to_ascii_uppercase_def upper_byte_alpha)
  ultimately show ?thesis
    using target both parse_content_length_wf [OF cl] verb(1)
    by (simp add: request_wf_def q to_ascii_uppercase_def)
qed

section \<open>Reading a head off the connection\<close>

text \<open>\<open>h\<close> is the text up to and including the first blank line.\<close>

definition is_head :: "string \<Rightarrow> bool" where
  "is_head h \<longleftrightarrow> ends_blank h \<and> (\<forall>p. strict_prefix p h \<longrightarrow> \<not> ends_blank p)"

lemma rd_read_one:
  assumes "rd_clean r" and "rd_bytes r = b # t"
  shows "\<exists>r'. rd_read 1 r = (Inr [b], r') \<and> rd_clean r' \<and> rd_bytes r' = t"
proof -
  obtain bs r' where rd: "rd_read 1 r = (Inr bs, r')" "rd_clean r'" "rd_bytes r = bs @ rd_bytes r'"
    "bs = [] \<longleftrightarrow> rd_bytes r = []"
    by (rule rd_read_clean [OF assms(1), of 1]) auto
  moreover have "length bs \<le> 1" using rd_read_length [OF rd(1)] .
  ultimately have "bs = [b] \<and> rd_bytes r' = t" using assms(2) by (cases bs) auto
  with rd show ?thesis by simp
qed

lemma read_head_step:
  assumes "clock i \<le> deadline" and "rd_read 1 r = (Inr (b # bs), r')"
  shows "read_head clock deadline i head r =
    (if MAX_HEADER_BYTES < length (head @ [b])
     then (Inl (IoError InvalidData ''request head too large''), r')
     else if ends_blank (head @ [b]) then (Inr (Some (head @ [b])), r')
     else read_head clock deadline (Suc i) (head @ [b]) r')"
  using assms by (subst read_head.simps) simp

lemma read_head_finds:
  assumes "rd_clean r" and "rd_bytes r = t @ rest" and "t \<noteq> []" and "is_head (head @ t)"
    and "length (head @ t) \<le> MAX_HEADER_BYTES" and "\<forall>i. clock i \<le> deadline"
  shows "\<exists>r'. read_head clock deadline i head r = (Inr (Some (head @ t)), r') \<and> rd_clean r' \<and>
    rd_bytes r' = rest"
  using assms
proof (induction t arbitrary: r i head)
  case (Cons b t)
  from rd_read_one [OF Cons.prems(1), of b "t @ rest"] Cons.prems(2)
  obtain r' where rd: "rd_read 1 r = (Inr [b], r')" "rd_clean r'" "rd_bytes r' = t @ rest" by auto
  have "clock i \<le> deadline" using Cons.prems(6) by simp
  note step = read_head_step [of clock i deadline, OF this rd(1), of head]
  show ?case
  proof (cases "t = []")
    case True
    with Cons.prems(4,5) have "ends_blank (head @ [b])" "length (head @ [b]) \<le> MAX_HEADER_BYTES"
      by (auto simp: is_head_def)
    with step rd True show ?thesis by simp
  next
    case False
    then have "strict_prefix (head @ [b]) (head @ b # t)" by (simp add: strict_prefix_def)
    then have ns: "\<not> ends_blank (head @ [b])" using Cons.prems(4) by (auto simp: is_head_def)
    with step Cons.prems(5) False
    have "read_head clock deadline i head r = read_head clock deadline (Suc i) (head @ [b]) r'"
      by simp
    with Cons.IH [OF rd(2,3) False, of "head @ [b]" "Suc i"] Cons.prems(4-6) show ?thesis by simp
  qed
qed simp

lemma read_request_finds:
  assumes "rd_clean r" and "rd_bytes r = h @ rest" and "is_head h" and "length h \<le> MAX_HEADER_BYTES"
    and "\<forall>i. clock i \<le> clock 0 + HEAD_TIMEOUT"
  shows "\<exists>r'. read_request clock r = (map_sum id Some (parse_head h), r') \<and> rd_clean r' \<and>
    rd_bytes r' = rest"
proof -
  have "h \<noteq> []" using assms(3) by (auto simp: is_head_def ends_blank_def CRLF_def)
  with read_head_finds [of r h rest "[]" clock "clock 0 + HEAD_TIMEOUT" 1] assms
  obtain r' where "read_head clock (clock 0 + HEAD_TIMEOUT) 1 [] r = (Inr (Some h), r')"
    "rd_clean r'" "rd_bytes r' = rest" by auto
  then show ?thesis by (auto simp: read_request_def split: sum.split)
qed

text \<open>However the peer behaves, at most one byte past the limit is taken off the connection.\<close>

fun rd_total :: "reader \<Rightarrow> nat" where
  "rd_total [] = 0"
| "rd_total (RdErr e # es) = rd_total es"
| "rd_total (Chunk bs # es) = length bs + rd_total es"

lemma rd_read_total: "rd_read n r = (x, r') \<Longrightarrow> rd_total r \<le> rd_total r' + (case x of Inl _ \<Rightarrow> 0 | Inr bs \<Rightarrow> length bs)"
  by (cases "(n, r)" rule: rd_read.cases) (auto split: if_splits)

lemma read_head_bound:
  assumes "read_head clock deadline i head r = (x, r')" and "length head \<le> MAX_HEADER_BYTES"
  shows "rd_total r \<le> rd_total r' + (Suc MAX_HEADER_BYTES - length head)"
  using assms
proof (induction clock deadline i head r rule: read_head.induct)
  case (1 clock deadline i head r)
  obtain y r1 where rd: "rd_read 1 r = (y, r1)" by (cases "rd_read 1 r")
  note tot = rd_read_total [OF rd]
  show ?case
  proof (cases "deadline < clock i \<or> (\<exists>e. y = Inl e) \<or> y = Inr []")
    case True
    with 1(2) rd tot show ?thesis
      by (subst (asm) read_head.simps) (auto split: if_splits)
  next
    case False
    then obtain b bs where y: "y = Inr (b # bs)" by (cases y) (auto simp: neq_Nil_conv)
    with rd_read_length [of 1 r "b # bs"] rd have [simp]: "bs = []" by simp
    show ?thesis
    proof (cases "MAX_HEADER_BYTES < length (head @ [b]) \<or> ends_blank (head @ [b])")
      case True
      with 1(2) rd tot y False 1(3) show ?thesis
        by (subst (asm) read_head.simps) (auto split: if_splits)
    next
      case more: False
      with 1(2) read_head_step [of clock i deadline r b bs r1 head] rd y False
      have "read_head clock deadline (Suc i) (head @ [b]) r1 = (x, r')" by simp
      with 1(1) [OF _ rd [symmetric] y] more False
      have "rd_total r1 \<le> rd_total r' + (Suc MAX_HEADER_BYTES - length (head @ [b]))" by auto
      with tot y more show ?thesis by (simp add: not_less) linarith
    qed
  qed
qed

section \<open>Bodies\<close>

lemma read_body_loop_ok:
  assumes "rd_clean r" and "length body \<le> len" and "len \<le> length body + length (rd_bytes r)"
  shows "\<exists>r'. read_body_loop len body r = (Inr (body @ take (len - length body) (rd_bytes r)), r') \<and>
    rd_clean r' \<and> rd_bytes r' = drop (len - length body) (rd_bytes r)"
  using assms
proof (induction len body r rule: read_body_loop.induct)
  case (1 len body r)
  show ?case
  proof (cases "length body < len")
    case True
    let ?n = "min (len - length body) (64 * 1024)"
    obtain bs r1 where rd: "rd_read ?n r = (Inr bs, r1)" "rd_clean r1" "rd_bytes r = bs @ rd_bytes r1"
      "bs = [] \<longleftrightarrow> rd_bytes r = []"
      by (rule rd_read_clean [OF 1(2), of ?n]) (use True in auto)
    have len: "length bs \<le> len - length body" using rd_read_length [OF rd(1)] by simp
    have ne: "bs \<noteq> []" using rd(4) 1(4) True by auto
    have step: "read_body_loop len body r = read_body_loop len (body @ bs) r1"
      using True rd(1) ne by (subst read_body_loop.simps) simp
    have "\<exists>r'. read_body_loop len (body @ bs) r1 =
        (Inr ((body @ bs) @ take (len - length (body @ bs)) (rd_bytes r1)), r') \<and>
        rd_clean r' \<and> rd_bytes r' = drop (len - length (body @ bs)) (rd_bytes r1)"
      using 1(1) [OF True rd(1) [symmetric] refl ne] rd 1(3,4) True len by simp
    with step rd(3) len show ?thesis by simp
  next
    case False
    with 1 show ?thesis by (subst read_body_loop.simps) simp
  qed
qed

text \<open>
  Streaming hands the body to the sink in order: whatever relation \<open>P\<close> between the bytes
  handed over and the world the sink keeps holds for the whole body at the end. The sink has to
  work for \<open>N\<close> bytes only.
\<close>

lemma stream_loop_ok:
  assumes sink: "\<And>acc bs w. P acc w \<Longrightarrow> length acc + length bs \<le> N \<Longrightarrow> \<exists>w'. f bs w = (Inr (), w') \<and> P (acc @ bs) w'"
    and "rd_clean r" and "remaining \<le> length (rd_bytes r)" and "P acc w" and "length acc + remaining \<le> N"
  shows "\<exists>r' w'. stream_loop f remaining consumed r w = (Inr (), consumed + remaining, r', w') \<and>
    rd_clean r' \<and> rd_bytes r' = drop remaining (rd_bytes r) \<and>
    P (acc @ take remaining (rd_bytes r)) w'"
  using assms(2-)
proof (induction "rd_size r" arbitrary: remaining consumed r acc w rule: less_induct)
  case less
  show ?case
  proof (cases "0 < remaining")
    case True
    let ?n = "min (64 * 1024) remaining"
    obtain bs r1 where rd: "rd_read ?n r = (Inr bs, r1)" "rd_clean r1" "rd_bytes r = bs @ rd_bytes r1"
      "bs = [] \<longleftrightarrow> rd_bytes r = []"
      by (rule rd_read_clean [OF less.prems(1), of ?n]) (use True in auto)
    have len: "length bs \<le> remaining" using rd_read_length [OF rd(1)] by simp
    have ne: "bs \<noteq> []" using rd(4) less.prems(2) True by auto
    obtain w1 where w1: "f bs w = (Inr (), w1)" "P (acc @ bs) w1"
      using sink [OF less.prems(3), of bs] less.prems(4) len by auto
    have step: "stream_loop f remaining consumed r w =
        stream_loop f (remaining - length bs) (consumed + length bs) r1 w1"
      using True rd(1) ne w1 by (subst stream_loop.simps) simp
    have "remaining - length bs \<le> length (rd_bytes r1)" using less.prems(2) rd(3) by simp
    moreover have "length (acc @ bs) + (remaining - length bs) \<le> N" using less.prems(4) len by simp
    ultimately show ?thesis
      using less.hyps [OF rd_read_size [OF rd(1) ne] rd(2) _ w1(2), of "remaining - length bs" "consumed + length bs"]
      step rd(3) len by auto
  next
    case False
    with less.prems show ?thesis by (subst stream_loop.simps) auto
  qed
qed

lemma drain_loop_ok:
  assumes "rd_clean r" and "remaining \<le> length (rd_bytes r)"
  shows "\<exists>r'. drain_loop remaining r = (Inr (), r') \<and> rd_clean r' \<and>
    rd_bytes r' = drop remaining (rd_bytes r)"
  using assms
proof (induction r arbitrary: remaining rule: rd_clean.induct)
  case 1
  then show ?case by (subst drain_loop.simps) simp
next
  case (2 e es)
  then show ?case by simp
next
  case (3 bs es)
  consider "remaining = 0" | "0 < remaining" "length bs \<le> remaining" | "remaining < length bs" "0 < remaining"
    by linarith
  then show ?case
  proof cases
    case 2
    then have "drain_loop remaining (Chunk bs # es) = drain_loop (remaining - length bs) es"
      using 3(2) by (subst drain_loop.simps) simp
    with 3(1) [of "remaining - length bs"] 3(2,3) 2 show ?thesis by auto
  qed (use 3(2,3) in \<open>subst drain_loop.simps, simp\<close>)+
qed

text \<open>
  The contract every way of consuming a body has: on a connection whose peer has sent the body,
  the read half ends exactly behind it and nothing is left to drain.
\<close>

definition body_ready :: "'w conn \<Rightarrow> bool" where
  "body_ready c \<longleftrightarrow> rd_clean (c_rd c) \<and> body_consumed (c_req c) = 0 \<and>
     content_length (c_req c) \<le> length (rd_bytes (c_rd c))"

locale body_consumer =
  fixes consume :: "('w conn, 'a) io" and usable :: "'w conn \<Rightarrow> bool"
  assumes takes_body: "body_ready c \<Longrightarrow> usable c \<Longrightarrow>
    \<exists>x r w. consume c = (Inr x, c\<lparr>c_rd := r, c_os := w,
        c_req := (c_req c)\<lparr>body_consumed := content_length (c_req c)\<rparr>\<rparr>) \<and>
      rd_clean r \<and> rd_bytes r = drop (content_length (c_req c)) (rd_bytes (c_rd c))"
begin

lemma drain_afterwards:
  assumes "body_ready c" and "usable c"
  shows "\<exists>x c'. consume c = (Inr x, c') \<and> drain_body c' = (Inr (), c') \<and> rd_clean (c_rd c') \<and>
    rd_bytes (c_rd c') = drop (content_length (c_req c)) (rd_bytes (c_rd c))"
  using takes_body [OF assms] by (auto simp: drain_body_def)

lemma next_request_follows:
  assumes "body_ready c" and "usable c" and "rd_bytes (c_rd c) = body @ h @ rest"
    and "length body = content_length (c_req c)" and "is_head h" and "length h \<le> MAX_HEADER_BYTES"
    and "\<forall>i. clock i \<le> clock 0 + HEAD_TIMEOUT"
  shows "\<exists>x c' r'. consume c = (Inr x, c') \<and> drain_body c' = (Inr (), c') \<and>
    read_request clock (c_rd c') = (map_sum id Some (parse_head h), r') \<and> rd_bytes r' = rest"
proof -
  obtain x c' where c: "consume c = (Inr x, c')" "drain_body c' = (Inr (), c')"
    "rd_clean (c_rd c')" "rd_bytes (c_rd c') = h @ rest"
    using drain_afterwards [OF assms(1,2)] assms(3,4) by auto
  from read_request_finds [OF c(3,4) assms(5-7)] c show ?thesis by blast
qed

end

interpretation rb: body_consumer "read_body mx" "\<lambda>c. content_length (c_req c) \<le> mx" for mx
proof
  fix c :: "'w conn"
  assume ready: "body_ready c" and len: "content_length (c_req c) \<le> mx"
  let ?n = "content_length (c_req c)"
  obtain r where "read_body_loop ?n [] (c_rd c) = (Inr (take ?n (rd_bytes (c_rd c))), r)"
    "rd_clean r" "rd_bytes r = drop ?n (rd_bytes (c_rd c))"
    using read_body_loop_ok [of "c_rd c" "[]" ?n] ready by (auto simp: body_ready_def)
  with len show "\<exists>x r w. read_body mx c = (Inr x, c\<lparr>c_rd := r, c_os := w,
        c_req := (c_req c)\<lparr>body_consumed := ?n\<rparr>\<rparr>) \<and>
      rd_clean r \<and> rd_bytes r = drop ?n (rd_bytes (c_rd c))"
    by (intro exI [of _ "take ?n (rd_bytes (c_rd c))"] exI [of _ r] exI [of _ "c_os c"])
       (simp add: read_body_def)
qed

interpretation drain: body_consumer drain_body "\<lambda>c. content_length (c_req c) \<le> MAX_DRAIN_BYTES"
proof
  fix c :: "'w conn"
  assume ready: "body_ready c" and len: "content_length (c_req c) \<le> MAX_DRAIN_BYTES"
  let ?n = "content_length (c_req c)"
  obtain r where r: "drain_loop ?n (c_rd c) = (Inr (), r)" "rd_clean r"
    "rd_bytes r = drop ?n (rd_bytes (c_rd c))"
    using drain_loop_ok [of "c_rd c" ?n] ready by (auto simp: body_ready_def)
  have "?n = 0 \<Longrightarrow> r = c_rd c" using r(1) by (subst (asm) drain_loop.simps) simp
  with len r ready show "\<exists>x r w. drain_body c = (Inr x, c\<lparr>c_rd := r, c_os := w,
        c_req := (c_req c)\<lparr>body_consumed := ?n\<rparr>\<rparr>) \<and>
      rd_clean r \<and> rd_bytes r = drop ?n (rd_bytes (c_rd c))"
    by (intro exI [of _ "()"] exI [of _ r] exI [of _ "c_os c"])
       (auto simp: drain_body_def body_ready_def Let_def)
qed

text \<open>A sink that always accepts, as the file of an upload with room on its disk does.\<close>

definition accepting :: "(string \<Rightarrow> ('w, unit) io) \<Rightarrow> bool" where
  "accepting f \<longleftrightarrow> (\<forall>bs w. \<exists>w'. f bs w = (Inr (), w'))"

interpretation st: body_consumer "stream_body f" "\<lambda>_. accepting f" for f
proof
  fix c :: "'a conn"
  assume ready: "body_ready c" and "accepting f"
  let ?n = "content_length (c_req c)"
  obtain r w where "stream_loop f ?n 0 (c_rd c) (c_os c) = (Inr (), ?n, r, w)" "rd_clean r"
    "rd_bytes r = drop ?n (rd_bytes (c_rd c))"
    using stream_loop_ok [of "\<lambda>_ _. True" ?n f "c_rd c" ?n "[]" "c_os c" 0] ready \<open>accepting f\<close>
    by (auto simp: body_ready_def accepting_def)
  with ready show "\<exists>x r w. stream_body f c = (Inr x, c\<lparr>c_rd := r, c_os := w,
        c_req := (c_req c)\<lparr>body_consumed := ?n\<rparr>\<rparr>) \<and>
      rd_clean r \<and> rd_bytes r = drop ?n (rd_bytes (c_rd c))"
    by (intro exI [of _ ?n] exI [of _ r] exI [of _ w]) (simp add: stream_body_def body_ready_def Let_def)
qed

section \<open>Query parameters\<close>

text \<open>Reference encoder: unreserved bytes stand for themselves, every other byte is escaped.\<close>

definition unreserved :: "char \<Rightarrow> bool" where
  "unreserved c \<longleftrightarrow> is_ascii_alphanumeric c \<or> c \<in> set ''-._~''"

definition percent_byte :: "char \<Rightarrow> string" where
  "percent_byte c =
     (if unreserved c then [c] else [CHR ''%'', digit_char (byte c div 16), digit_char (byte c mod 16)])"

definition percent_encode :: "string \<Rightarrow> string" where
  "percent_encode s = concat (map percent_byte s)"

lemma urldecode_plain:
  assumes "c \<noteq> CHR ''%''" and "c \<noteq> CHR ''+''"
  shows "urldecode_bytes (c # r) = c # urldecode_bytes r"
  using assms by (cases r; cases "tl r") auto

lemma digit_char_ascii: "d < 16 \<Longrightarrow> is_ascii (digit_char d)"
  by (simp add: is_ascii_def byte_digit_char)

lemma digit_char_not_plus: "d < 16 \<Longrightarrow> digit_char d \<noteq> CHR ''+''"
proof
  assume "d < 16" "digit_char d = CHR ''+''"
  then have "byte (digit_char d) = byte (CHR ''+'')" by simp
  moreover have "byte (CHR ''+'') = 43" by (simp add: byte_def)
  ultimately show False using \<open>d < 16\<close> by (simp add: byte_digit_char split: if_splits)
qed

lemma hex_pair:
  assumes "n < 256"
  shows "from_str_radix 16 u8_max [digit_char (n div 16), digit_char (n mod 16)] = Some n"
proof -
  have d: "n div 16 < 16" "n mod 16 < 16" using assms by auto
  with digit_char_not_plus [OF d(1)] have "from_str_radix 16 u8_max [digit_char (n div 16), digit_char (n mod 16)] =
    parse_digits 16 u8_max 0 [digit_char (n div 16), digit_char (n mod 16)]"
    by (simp add: from_str_radix_def)
  with d assms show ?thesis by (simp add: to_digit_digit_char u8_max_def)
qed

lemma urldecode_percent_byte: "urldecode_bytes (percent_byte c @ r) = c # urldecode_bytes r"
proof (cases "unreserved c")
  case True
  then have "c \<noteq> CHR ''%''" "c \<noteq> CHR ''+''"
    by (auto simp: unreserved_def ascii_defs byte_def)
  with True show ?thesis by (simp add: percent_byte_def urldecode_plain)
next
  case False
  have "is_utf8 [digit_char (byte c div 16), digit_char (byte c mod 16)]"
    using byte_less_256 [of c]
    by (intro is_utf8_ascii) (auto intro!: digit_char_ascii simp: less_mult_imp_div_less)
  with False show ?thesis by (simp add: percent_byte_def hex_pair)
qed

lemma urldecode_bytes_percent_encode: "urldecode_bytes (percent_encode s @ r) = s @ urldecode_bytes r"
  by (induction s) (auto simp: percent_encode_def urldecode_percent_byte)

lemma urldecode_roundtrip: "is_utf8 s \<Longrightarrow> urldecode (percent_encode s) = s"
  using urldecode_bytes_percent_encode [of s "[]"] by (simp add: urldecode_def from_utf8_lossy_id)

lemma unreserved_digit_char: "d < 16 \<Longrightarrow> unreserved (digit_char d)"
  by (simp add: unreserved_def ascii_defs byte_digit_char)

lemma percent_encode_chars:
  "c \<in> set (percent_encode s) \<Longrightarrow> c = CHR ''%'' \<or> unreserved c"
  using byte_less_256
  by (auto simp: percent_encode_def percent_byte_def unreserved_digit_char less_mult_imp_div_less
      split: if_splits)

definition encode_pair :: "string \<times> string \<Rightarrow> string" where
  "encode_pair kv = percent_encode (fst kv) @ CHR ''='' # percent_encode (snd kv)"

definition encode_query :: "(string \<times> string) list \<Rightarrow> string" where
  "encode_query kvs = join ''&'' (map encode_pair kvs)"

lemma no_sep_percent_encode:
  "CHR ''&'' \<notin> set (percent_encode s)" "CHR ''='' \<notin> set (percent_encode s)" "CHR ''?'' \<notin> set (percent_encode s)"
  by (auto dest!: percent_encode_chars simp: unreserved_def ascii_defs byte_def)

lemma hm_get_foldl_insert:
  "hm_get (foldl (\<lambda>ps kv. hm_insert (fst kv) (snd kv) ps) ps kvs) k =
     (case map_of (rev kvs) k of Some v \<Rightarrow> Some v | None \<Rightarrow> hm_get ps k)"
  by (induction kvs arbitrary: ps) (auto simp: map_add_def hm.get_insert split: option.splits)

lemma parse_query_encoded:
  assumes "kvs \<noteq> []" and "\<forall>(k, v) \<in> set kvs. is_utf8 k \<and> is_utf8 v"
  shows "hm_get (parse_query (encode_query kvs)) = map_of (rev kvs)"
proof -
  have ne: "encode_pair kv \<noteq> []" and amp: "CHR ''&'' \<notin> set (encode_pair kv)" for kv
    by (auto simp: encode_pair_def no_sep_percent_encode)
  have "split_char (CHR ''&'') (encode_query kvs) = map encode_pair kvs"
    unfolding encode_query_def using assms(1) amp by (intro split_char_join) auto
  then have pq: "parse_query (encode_query kvs) =
      foldl (\<lambda>ps pair. let (k, v) = (case split_once (CHR ''='') pair of Some kv \<Rightarrow> kv | None \<Rightarrow> (pair, []))
        in hm_insert (urldecode k) (urldecode v) ps) [] (map encode_pair kvs)"
    by (simp add: parse_query_def ne filter_map o_def)
  have "foldl (\<lambda>ps pair. let (k, v) = (case split_once (CHR ''='') pair of Some kv \<Rightarrow> kv | None \<Rightarrow> (pair, []))
        in hm_insert (urldecode k) (urldecode v) ps) ps (map encode_pair xs) =
      foldl (\<lambda>ps kv. hm_insert (fst kv) (snd kv) ps) ps xs"
    if "set xs \<subseteq> set kvs" for xs ps
    using that
  proof (induction xs arbitrary: ps)
    case (Cons kv xs)
    have "split_once (CHR ''='') (encode_pair kv) = Some (percent_encode (fst kv), percent_encode (snd kv))"
      by (simp add: encode_pair_def split_once_append no_sep_percent_encode)
    moreover have "is_utf8 (fst kv)" "is_utf8 (snd kv)" using assms(2) Cons.prems by auto
    ultimately show ?case using Cons by (simp add: urldecode_roundtrip)
  qed simp
  from this [of kvs "[]"] pq show ?thesis
    by (intro ext) (simp add: hm_get_foldl_insert hm.get_empty split: option.split)
qed

section \<open>What a response puts on the wire\<close>

abbreviation rw_output :: "response_writer \<Rightarrow> string" where
  "rw_output rw \<equiv> wr_output (rw_writer rw)"

definition same_flags :: "response_writer \<Rightarrow> response_writer \<Rightarrow> bool" where
  "same_flags a b \<longleftrightarrow> rw_keep_alive b = rw_keep_alive a \<and> started b = started a \<and>
     chunked b = chunked a \<and> hijacked b = hijacked a"

lemma on_writer_flags: "on_writer m rw = (x, rw') \<Longrightarrow> same_flags rw rw'"
  by (auto simp: on_writer_def same_flags_def split: prod.splits)

lemma on_writer_write:
  "on_writer (bw_write_all d) rw = (Inr u, rw') \<Longrightarrow>
     rw_output rw' = rw_output rw @ d \<and> same_flags rw rw'"
  by (auto simp: on_writer_def same_flags_def split: prod.splits dest: bw_write_all_ok)

lemma on_writer_flush:
  "on_writer bw_flush rw = (Inr u, rw') \<Longrightarrow>
     rw_output rw' = rw_output rw \<and> sent (rw_writer rw') = rw_output rw' \<and> same_flags rw rw'"
  by (auto simp: on_writer_def bw_flush_def wr_output_def same_flags_def split: prod.splits dest!: flush_buf_ok)

definition chunk_bytes :: "string \<Rightarrow> string" where
  "chunk_bytes d = (if d = [] then [] else show_hex (length d) @ CRLF @ d @ CRLF)"

lemma rw_chunk_out:
  assumes "rw_chunk d rw = (Inr u, rw')"
  shows "rw_output rw' = rw_output rw @ chunk_bytes d \<and> chunked rw' = chunked rw \<and>
    (d \<noteq> [] \<longrightarrow> sent (rw_writer rw') = rw_output rw')"
proof (cases "d = []")
  case True
  with assms show ?thesis by (simp add: rw_chunk_def returnE_def chunk_bytes_def)
next
  case False
  with assms obtain u1 u2 u3 rw1 rw2 rw3 where
    "on_writer (bw_write_all (show_hex (length d) @ CRLF)) rw = (Inr u1, rw1)"
    "on_writer (bw_write_all d) rw1 = (Inr u2, rw2)"
    "on_writer (bw_write_all CRLF) rw2 = (Inr u3, rw3)"
    "on_writer bw_flush rw3 = (Inr u, rw')"
    by (auto simp: rw_chunk_def thenE_def bindE_Inr)
  then show ?thesis
    using False by (auto simp: chunk_bytes_def same_flags_def dest!: on_writer_write on_writer_flush)
qed

lemma write_head_out:
  assumes "write_head status ct len rw = (Inr u, rw')"
  shows "rw_output rw' = rw_output rw @ head_prefix status ct (rw_keep_alive rw) @
      (case len of Some n \<Rightarrow> ''Content-Length: '' @ show_nat n @ CRLF @ CRLF
       | None \<Rightarrow> ''Transfer-Encoding: chunked'' @ CRLF @ ''X-Accel-Buffering: no'' @ CRLF @ CRLF) \<and>
    started rw' \<and> chunked rw' = (chunked rw \<or> len = None) \<and> hijacked rw' = hijacked rw"
  using assms
  by (auto simp: write_head_def thenE_def bindE_Inr same_flags_def split: option.splits
      dest!: on_writer_write)

text \<open>A fixed response carries its exact length and is on the wire when the call returns.\<close>

lemma rw_fixed_out:
  assumes "rw_fixed status ct body rw = (Inr u, rw')"
  shows "sent (rw_writer rw') = rw_output rw @ head_prefix status ct (rw_keep_alive rw) @
    ''Content-Length: '' @ show_nat (length body) @ CRLF @ CRLF @ body"
  using assms
  by (auto simp: rw_fixed_def thenE_def bindE_Inr dest!: on_writer_write on_writer_flush write_head_out)

text \<open>Reference decoder for \<open>Transfer-Encoding: chunked\<close>: the content and what follows it.\<close>

function dechunk :: "string \<Rightarrow> (string \<times> string) option" where
  "dechunk s =
     (case split_once CR s of
        None \<Rightarrow> None
      | Some (h, r) \<Rightarrow>
          let n = digits_value 16 0 h; r1 = drop 1 r in
          if h = [] \<or> \<not> list_all (\<lambda>c. to_digit 16 c \<noteq> None) h \<or> \<not> prefix [LF] r then None
          else if n = 0 then (if prefix CRLF r1 then Some ([], drop 2 r1) else None)
          else if take 2 (drop n r1) \<noteq> CRLF then None
          else (case dechunk (drop (n + 2) r1) of
                  None \<Rightarrow> None
                | Some (d, rest) \<Rightarrow> Some (take n r1 @ d, rest)))"
  by pat_completeness auto
termination
  by (relation "measure length") (auto simp: split_once_Some)

declare dechunk.simps [simp del]

lemma show_hex_digits: "list_all (\<lambda>c. to_digit 16 c \<noteq> None) (show_hex n)"
  using show_radix_chars [of 16 _ n] by (fastforce simp: list_all_iff to_digit_digit_char)

lemma CR_not_hex: "CR \<notin> set (show_hex n)"
proof
  assume "CR \<in> set (show_hex n)"
  with show_hex_digits [of n] have "to_digit 16 CR \<noteq> None" by (auto simp: list_all_iff)
  then show False by (simp add: to_digit_def CR_def ascii_defs byte_def)
qed

lemma dechunk_chunk:
  assumes "d \<noteq> []"
  shows "dechunk (chunk_bytes d @ s) =
    (case dechunk s of None \<Rightarrow> None | Some (e, rest) \<Rightarrow> Some (d @ e, rest))"
proof -
  have sp: "split_once CR (chunk_bytes d @ s) = Some (show_hex (length d), LF # d @ CRLF @ s)"
    using assms split_once_append [OF CR_not_hex, of "length d" "LF # d @ CRLF @ s"]
    by (simp add: chunk_bytes_def CRLF_def)
  show ?thesis
    using assms show_hex_digits [of "length d"]
    by (subst dechunk.simps) (simp add: sp digits_value_show CRLF_def split: option.split)
qed

lemma dechunk_end: "dechunk (''0'' @ CRLF @ CRLF @ rest) = Some ([], rest)"
proof -
  have "split_once CR (''0'' @ CRLF @ CRLF @ rest) = Some (''0'', LF # CRLF @ rest)"
    by (simp add: CRLF_def CR_def)
  moreover have "to_digit 16 (CHR ''0'') = Some 0" by (simp add: to_digit_def ascii_defs byte_def)
  ultimately show ?thesis by (subst dechunk.simps) (simp add: CRLF_def)
qed

text \<open>The \<open>chunk\<close> calls of one streamed response, in order.\<close>

primrec write_chunks :: "string list \<Rightarrow> (response_writer, unit) io" where
  "write_chunks [] = returnE ()"
| "write_chunks (d # ds) = thenE (rw_chunk d) (write_chunks ds)"

lemma write_chunks_out:
  "write_chunks ds rw = (Inr u, rw') \<Longrightarrow>
     rw_output rw' = rw_output rw @ concat (map chunk_bytes ds) \<and> chunked rw' = chunked rw"
  by (induction ds arbitrary: rw) (auto simp: returnE_def thenE_def bindE_Inr dest!: rw_chunk_out)

lemma dechunk_chunks:
  "dechunk (concat (map chunk_bytes ds) @ ''0'' @ CRLF @ CRLF @ rest) = Some (concat ds, rest)"
proof (induction ds)
  case Nil
  show ?case using dechunk_end [of rest] by simp
next
  case (Cons d ds)
  then show ?case by (cases "d = []") (simp_all add: dechunk_chunk chunk_bytes_def [of "[]"])
qed

lemma chunked_response_out:
  assumes "thenE (start_stream status ct) (thenE (write_chunks ds) rw_finish) rw = (Inr u, rw')"
  shows "\<exists>body. sent (rw_writer rw') = rw_output rw @ head_prefix status ct (rw_keep_alive rw) @
      ''Transfer-Encoding: chunked'' @ CRLF @ ''X-Accel-Buffering: no'' @ CRLF @ CRLF @ body \<and>
    dechunk body = Some (concat ds, [])"
proof -
  from assms obtain u1 u2 rw1 rw2 where st: "start_stream status ct rw = (Inr u1, rw1)"
    and ch: "write_chunks ds rw1 = (Inr u2, rw2)" and fin: "rw_finish rw2 = (Inr u, rw')"
    by (auto simp: thenE_def bindE_Inr)
  from st have out1: "rw_output rw1 = rw_output rw @ head_prefix status ct (rw_keep_alive rw) @
      ''Transfer-Encoding: chunked'' @ CRLF @ ''X-Accel-Buffering: no'' @ CRLF @ CRLF" and "chunked rw1"
    by (auto simp: start_stream_def thenE_def bindE_Inr same_flags_def
        dest!: write_head_out on_writer_flush)
  with write_chunks_out [OF ch] have "chunked rw2" by simp
  with fin have "sent (rw_writer rw') = rw_output rw2 @ ''0'' @ CRLF @ CRLF"
    by (auto simp: rw_finish_def thenE_def bindE_Inr dest!: on_writer_write on_writer_flush)
  with out1 write_chunks_out [OF ch] dechunk_chunks [of ds "[]"] show ?thesis by auto
qed

text \<open>A leading sign survives in an escape: \<open>%+5\<close> is read as the byte 5.\<close>

lemma urldecode_signed_escape: "urldecode_bytes ''%+5'' = [CHR 0x05]"
  by (simp add: str_eval)

text \<open>The proxy answers 502, for which there is no reason phrase.\<close>

lemma status_text_bad_gateway: "status_text 502 = ''Unknown''"
  by (simp add: status_text_def)

section \<open>A socket that accepts everything\<close>

definition succeeds :: "(response_writer, 'a) io \<Rightarrow> bool" where
  "succeeds m \<longleftrightarrow> (\<forall>rw. room (rw_writer rw) = None \<longrightarrow>
     (\<exists>x rw'. m rw = (Inr x, rw') \<and> room (rw_writer rw') = None))"

lemma succeedsD: "succeeds m \<Longrightarrow> room (rw_writer rw) = None \<Longrightarrow> \<exists>x rw'. m rw = (Inr x, rw')"
  unfolding succeeds_def by blast

lemma succeeds_intros [intro]:
  "succeeds (returnE x)"
  "succeeds (on_writer (bw_write_all d))"
  "succeeds (on_writer bw_flush)"
  "succeeds m \<Longrightarrow> succeeds n \<Longrightarrow> succeeds (thenE m n)"
proof -
  show "succeeds (on_writer (bw_write_all d))"
    unfolding succeeds_def on_writer_def
  proof (intro allI impI)
    fix rw assume "room (rw_writer rw) = None"
    from bw_write_all_open [OF this, of d]
    show "\<exists>x rw'. (case bw_write_all d (rw_writer rw) of (x, w) \<Rightarrow> (x, rw\<lparr>rw_writer := w\<rparr>)) = (Inr x, rw') \<and>
      room (rw_writer rw') = None" by auto
  qed
  show "succeeds (on_writer bw_flush)"
    unfolding succeeds_def on_writer_def bw_flush_def
  proof (intro allI impI)
    fix rw assume "room (rw_writer rw) = None"
    from flush_buf_open [OF this]
    show "\<exists>x rw'. (case flush_buf (rw_writer rw) of (x, w) \<Rightarrow> (x, rw\<lparr>rw_writer := w\<rparr>)) = (Inr x, rw') \<and>
      room (rw_writer rw') = None" by auto
  qed
  show "succeeds (returnE x)" by (simp add: succeeds_def returnE_def)
  show "succeeds (thenE m n)" if "succeeds m" "succeeds n"
    unfolding succeeds_def
  proof (intro allI impI)
    fix rw :: response_writer
    assume "room (rw_writer rw) = None"
    with that(1) obtain y rw1 where m: "m rw = (Inr y, rw1)" "room (rw_writer rw1) = None"
      unfolding succeeds_def by blast
    with that(2) show "\<exists>x rw'. thenE m n rw = (Inr x, rw') \<and> room (rw_writer rw') = None"
      by (auto simp: succeeds_def thenE_def bindE_run)
  qed
qed

lemma succeeds_write_head: "succeeds (write_head status ct len)"
  unfolding succeeds_def
proof (intro allI impI)
  fix rw :: response_writer
  assume "room (rw_writer rw) = None"
  then have "room (rw_writer (rw\<lparr>started := True\<rparr>)) = None" by simp
  with succeeds_intros(2) [of "head_prefix status ct (rw_keep_alive rw)"]
  obtain u rw1 where w: "on_writer (bw_write_all (head_prefix status ct (rw_keep_alive rw)))
      (rw\<lparr>started := True\<rparr>) = (Inr u, rw1)" "room (rw_writer rw1) = None"
    unfolding succeeds_def by blast
  from w(2) have "room (rw_writer (rw1\<lparr>chunked := True\<rparr>)) = None" by simp
  with w(2) have "\<exists>x rw'. on_writer (bw_write_all d) rw1 = (Inr x, rw') \<and> room (rw_writer rw') = None"
    "\<exists>x rw'. on_writer (bw_write_all d) (rw1\<lparr>chunked := True\<rparr>) = (Inr x, rw') \<and> room (rw_writer rw') = None"
    for d using succeeds_intros(2) [of d] unfolding succeeds_def by blast+
  then show "\<exists>x rw'. write_head status ct len rw = (Inr x, rw') \<and> room (rw_writer rw') = None"
    by (cases len) (simp_all add: write_head_def thenE_def bindE_def w(1))
qed

lemma succeeds_rw [intro]:
  "succeeds (rw_fixed status ct body)" "succeeds (rw_json C status j)"
  "succeeds (rw_error C status msg)" "succeeds (start_stream status ct)"
  "succeeds (rw_chunk d)" "succeeds (write_chunks ds)" "succeeds rw_finish"
proof -
  show f: "succeeds (rw_fixed status ct body)" for status ct body
    unfolding rw_fixed_def by (intro succeeds_intros succeeds_write_head)
  show "succeeds (rw_json C status j)" "succeeds (rw_error C status msg)"
    unfolding rw_error_def rw_json_def by (rule f)+
  show "succeeds (start_stream status ct)"
    unfolding start_stream_def by (intro succeeds_intros succeeds_write_head)
  show c: "succeeds (rw_chunk d)" for d unfolding rw_chunk_def by auto
  show "succeeds (write_chunks ds)" by (induction ds) (auto intro: c)
  have "succeeds (thenE (on_writer (bw_write_all (''0'' @ CRLF @ CRLF))) (on_writer bw_flush))" by auto
  then show "succeeds rw_finish" by (auto simp: succeeds_def rw_finish_def)
qed

section \<open>Properties\<close>

lemmas http_eval = str_eval parse_head_def parse_header_line_def parse_content_length_def
  parse_keep_alive_def parse_url_def parse_query_def is_token_byte_def is_blank_def
  bad_value_byte_def bad_target_byte_def hm.get_empty hm.get_insert MAX_HEADERS_def
  hm_contains_key_def header_def

text \<open>A head is decidable: no proper prefix of it ends with a blank line.\<close>

lemma is_head_code:
  "is_head h \<longleftrightarrow> ends_blank h \<and> list_all (\<lambda>p. \<not> ends_blank p) (prefixes (butlast h))"
proof -
  have "strict_prefix p h \<longleftrightarrow> h \<noteq> [] \<and> p \<in> set (prefixes (butlast h))" for p
    by (cases h rule: rev_cases) (auto simp: strict_prefix_def)
  moreover have "ends_blank h \<Longrightarrow> h \<noteq> []" by (auto simp: ends_blank_def CRLF_def)
  ultimately show ?thesis by (auto simp: is_head_def list_all_iff)
qed

text \<open>
  C19: whatever bytes arrive, a head that the parser accepts is well formed: the method is a
  non-empty uppercase token, the path starts with a slash and carries no query or control byte,
  header names are non-empty lowercase tokens and unique, values are trimmed and free of control
  bytes (so neither CR nor LF survives), at most one of the framing headers is present, and the
  body length is the value of a plain decimal \<open>Content-Length\<close> that fits 64 bits, or 0.
\<close>

theorem parse_head_wf:
  assumes "parse_head head = Inr q"
  shows "request_wf q"
  using assms by (rule parse_head_request_wf)

theorem parse_head_wf_witness:
  "\<exists>q. parse_head (''get /a HTTP/1.1'' @ CRLF @ ''Content-Length: 3'' @ CRLF @ CRLF) = Inr q \<and>
     rq_method q = ''GET'' \<and> content_length q = 3 \<and> request_wf q"
proof -
  have "\<exists>q. parse_head (''get /a HTTP/1.1'' @ CRLF @ ''Content-Length: 3'' @ CRLF @ CRLF) = Inr q \<and>
     rq_method q = ''GET'' \<and> content_length q = 3"
    by (simp add: http_eval)
  then show ?thesis using parse_head_wf by blast
qed

text \<open>
  C20: reading a request takes exactly the bytes up to the first blank line off the connection
  and returns what the parser makes of them, however the network cut the stream into pieces;
  what follows stays for the next reader.
\<close>

theorem read_request_framing:
  assumes "rd_clean r" and "rd_bytes r = h @ rest" and "is_head h" and "length h \<le> MAX_HEADER_BYTES"
    and "\<forall>i. clock i \<le> clock 0 + HEAD_TIMEOUT"
  shows "\<exists>r'. read_request clock r = (map_sum id Some (parse_head h), r') \<and> rd_clean r' \<and>
    rd_bytes r' = rest"
  using assms by (rule read_request_finds)

theorem read_request_framing_witness:
  "\<exists>r'. read_request (\<lambda>_. 7) [Chunk ''GET / HTTP'', Chunk (''/1.1'' @ CRLF @ CRLF @ ''tail'')] =
      (map_sum id Some (parse_head (''GET / HTTP/1.1'' @ CRLF @ CRLF)), r') \<and> rd_bytes r' = ''tail''"
proof -
  have "is_head (''GET / HTTP/1.1'' @ CRLF @ CRLF)"
    by (simp add: is_head_code ends_blank_def str_eval)
  with read_request_framing [of "[Chunk ''GET / HTTP'', Chunk (''/1.1'' @ CRLF @ CRLF @ ''tail'')]"
      "''GET / HTTP/1.1'' @ CRLF @ CRLF" "''tail''" "\<lambda>_. 7"]
  show ?thesis by (auto simp: MAX_HEADER_BYTES_def CRLF_def)
qed

text \<open>
  C40: however the peer behaves, reading one request head takes at most one byte more than the
  64 KiB limit off the connection.
\<close>

theorem read_request_bound:
  "rd_total r \<le> rd_total (snd (read_request clock r)) + Suc MAX_HEADER_BYTES"
proof -
  obtain x r' where h: "read_head clock (clock 0 + HEAD_TIMEOUT) 1 [] r = (x, r')" by (cases "read_head clock (clock 0 + HEAD_TIMEOUT) 1 [] r")
  then have "snd (read_request clock r) = r'"
    by (auto simp: read_request_def split: sum.split option.split)
  with read_head_bound [OF h] show ?thesis by simp
qed

text \<open>
  Once a handler has read a body of the announced length, nothing is left to drain and the
  next request on the connection is parsed from the bytes right behind the body: a body is never
  read as the start of a request and no request byte is swallowed by a body.
\<close>

theorem read_body_then_next_request:
  assumes "rd_clean (c_rd c)" and "rd_bytes (c_rd c) = body @ h @ rest"
    and "length body = content_length (c_req c)" and "body_consumed (c_req c) = 0"
    and "content_length (c_req c) \<le> mx" and "is_head h" and "length h \<le> MAX_HEADER_BYTES"
    and "\<forall>i. clock i \<le> clock 0 + HEAD_TIMEOUT"
  shows "\<exists>c' r'. read_body mx c = (Inr body, c') \<and> drain_body c' = (Inr (), c') \<and>
    read_request clock (c_rd c') = (map_sum id Some (parse_head h), r') \<and> rd_bytes r' = rest"
proof -
  have "body_ready c" using assms(1-4) by (simp add: body_ready_def)
  from rb.next_request_follows [OF this assms(5) assms(2,3,6-8)] obtain x c' r' where
    *: "read_body mx c = (Inr x, c')" "drain_body c' = (Inr (), c')"
      "read_request clock (c_rd c') = (map_sum id Some (parse_head h), r')" "rd_bytes r' = rest"
    by blast
  moreover from * read_body_loop_ok [of "c_rd c" "[]" "content_length (c_req c)"] assms(1-5)
  have "x = body" by (auto simp: read_body_def split: if_splits)
  ultimately show ?thesis by blast
qed

text \<open>Concrete connections for the witnesses: a request with a body of \<open>n\<close> bytes, an open socket.\<close>

definition sample_request :: "nat \<Rightarrow> request" where
  "sample_request n = \<lparr>rq_method = ''PUT'', rq_path = ''/v1/files/write'', params = [], raw_query = [],
     headers = [(''content-length'', show_nat n)], content_length = n, body_consumed = 0,
     rq_keep_alive = True\<rparr>"

definition open_writer :: writer where
  "open_writer = \<lparr>buffered = [], sent = [], room = None, wr_error = OsError EPERM\<rparr>"

definition sample_conn :: "nat \<Rightarrow> reader \<Rightarrow> 'w \<Rightarrow> 'w conn" where
  "sample_conn n r w = \<lparr>c_req = sample_request n, c_rd = r, c_rw = rw_new open_writer True, c_os = w\<rparr>"

theorem read_body_then_next_request_witness:
  "\<exists>c' r'. read_body 16 (sample_conn 3 [Chunk ''ab'', Chunk (''cGET / HTTP/1.1'' @ CRLF @ CRLF @ ''x'')] ()) =
      (Inr ''abc'', c') \<and> drain_body c' = (Inr (), c') \<and>
    read_request (\<lambda>_. 0) (c_rd c') = (map_sum id Some (parse_head (''GET / HTTP/1.1'' @ CRLF @ CRLF)), r') \<and>
    rd_bytes r' = ''x''"
proof -
  have "is_head (''GET / HTTP/1.1'' @ CRLF @ CRLF)"
    by (simp add: is_head_code ends_blank_def str_eval)
  then show ?thesis
    by (intro read_body_then_next_request)
       (auto simp: sample_conn_def sample_request_def MAX_HEADER_BYTES_def CRLF_def)
qed

text \<open>
  An upload reaches its sink whole and in order: with a sink that keeps a relation between
  the bytes it was given and the world, the relation holds for the exact body at the end, the
  request counts as consumed and the read half stands right behind the body.
\<close>

theorem stream_body_delivers:
  assumes "\<And>acc bs w. P acc w \<Longrightarrow> length acc + length bs \<le> length body \<Longrightarrow> \<exists>w'. f bs w = (Inr (), w') \<and> P (acc @ bs) w'"
    and "P [] (c_os c)" and "rd_clean (c_rd c)" and "rd_bytes (c_rd c) = body @ rest"
    and "length body = content_length (c_req c)" and "body_consumed (c_req c) = 0"
  shows "\<exists>c'. stream_body f c = (Inr (length body), c') \<and> P body (c_os c') \<and>
    body_consumed (c_req c') = length body \<and> rd_bytes (c_rd c') = rest \<and> c_rw c' = c_rw c"
proof -
  from stream_loop_ok [of P "length body" f "c_rd c" "length body" "[]" "c_os c" 0, OF assms(1,3) _ assms(2)] assms(4)
  obtain r w where "stream_loop f (length body) 0 (c_rd c) (c_os c) = (Inr (), length body, r, w)"
    "rd_bytes r = rest" "P body w" by auto
  with assms(5,6) show ?thesis by (simp add: stream_body_def Let_def)
qed

theorem stream_body_delivers_witness:
  "\<exists>c'. stream_body (\<lambda>bs w. (Inr (), w @ bs)) (sample_conn 3 [Chunk ''ab'', Chunk ''cd''] ''>'') = (Inr 3, c') \<and>
     c_os c' = ''>abc'' \<and> body_consumed (c_req c') = 3 \<and> rd_bytes (c_rd c') = ''d''"
proof -
  have "\<exists>c'. stream_body (\<lambda>bs w. (Inr (), w @ bs)) (sample_conn 3 [Chunk ''ab'', Chunk ''cd''] ''>'') =
      (Inr (length ''abc''), c') \<and> c_os c' = ''>'' @ ''abc'' \<and> body_consumed (c_req c') = length ''abc'' \<and>
      rd_bytes (c_rd c') = ''d'' \<and> c_rw c' = c_rw (sample_conn 3 [Chunk ''ab'', Chunk ''cd''] ''>'')"
    by (rule stream_body_delivers [where P = "\<lambda>acc w. w = ''>'' @ acc"])
       (auto simp: sample_conn_def sample_request_def)
  then show ?thesis by auto
qed

text \<open>
  The query string a client builds by percent-encoding keys and values is decoded to those
  keys and values, the last value winning where a key is repeated.
\<close>

theorem parse_query_roundtrip:
  assumes "kvs \<noteq> []" and "\<forall>(k, v) \<in> set kvs. is_utf8 k \<and> is_utf8 v"
  shows "hm_get (parse_query (encode_query kvs)) = map_of (rev kvs)"
  using assms by (rule parse_query_encoded)

theorem parse_query_roundtrip_witness:
  "hm_get (parse_query (encode_query [(''path'', ''/a b&c''), (''mode'', ''600'')])) =
     map_of [(''mode'', ''600''), (''path'', ''/a b&c'')]"
  using parse_query_roundtrip [of "[(''path'', ''/a b&c''), (''mode'', ''600'')]"]
  by (simp add: str_eval)

text \<open>
  C33: a streamed response that was written without an error is on the wire in full, and its body
  decodes (by the reference decoder for chunked transfer coding) to exactly the chunks that were
  written, in order, with nothing after them.
\<close>

theorem chunked_response_roundtrip:
  assumes "thenE (start_stream status ct) (thenE (write_chunks ds) rw_finish) rw = (Inr u, rw')"
  shows "\<exists>body. sent (rw_writer rw') = rw_output rw @ head_prefix status ct (rw_keep_alive rw) @
      ''Transfer-Encoding: chunked'' @ CRLF @ ''X-Accel-Buffering: no'' @ CRLF @ CRLF @ body \<and>
    dechunk body = Some (concat ds, [])"
  using assms by (rule chunked_response_out)

theorem chunked_response_roundtrip_witness:
  "\<exists>u rw' body. thenE (start_stream 200 ''x'') (thenE (write_chunks [''ab'', [], ''c'']) rw_finish)
      (rw_new open_writer True) = (Inr u, rw') \<and>
    sent (rw_writer rw') = head_prefix 200 ''x'' True @ ''Transfer-Encoding: chunked'' @ CRLF @
      ''X-Accel-Buffering: no'' @ CRLF @ CRLF @ body \<and> dechunk body = Some (''abc'', [])"
proof -
  have s: "succeeds (thenE (start_stream 200 ''x'') (thenE (write_chunks [''ab'', [], ''c'']) rw_finish))"
    by (intro succeeds_intros succeeds_rw)
  have r: "room (rw_writer (rw_new open_writer True)) = None"
    by (simp add: rw_new_def open_writer_def)
  obtain u rw' where run: "thenE (start_stream 200 ''x'') (thenE (write_chunks [''ab'', [], ''c'']) rw_finish)
      (rw_new open_writer True) = (Inr u, rw')"
    using succeedsD [OF s r] by blast
  have out: "rw_output (rw_new open_writer True) = []" "rw_keep_alive (rw_new open_writer True) = True"
    "concat [''ab'', [], ''c''] = ''abc''"
    by (simp_all add: rw_new_def open_writer_def wr_output_def)
  obtain body where "sent (rw_writer rw') = head_prefix 200 ''x'' True @ ''Transfer-Encoding: chunked'' @
      CRLF @ ''X-Accel-Buffering: no'' @ CRLF @ CRLF @ body" "dechunk body = Some (''abc'', [])"
    using chunked_response_roundtrip [OF run] unfolding out append_Nil by blast
  with run show ?thesis by blast
qed

end
