(* ===== verification/Sandboxes.thy ===== *)
theory Sandboxes
  imports Procs Landlock Fsutil Http
begin

text \<open>
  \<open>src/sandboxes.rs\<close>: the registry of sandboxes of a host. A sandbox takes a slot of the capacity,
  a uid from the pool, a home directory and a ruleset; deleting one kills its processes, removes
  its home, and gives the uid back only when both are known to have succeeded.
\<close>

section \<open>Constants\<close>

definition UID_BASE :: nat where "UID_BASE = 20000"
definition UID_MAX :: nat where "UID_MAX = 65000"
definition HOMES_DIR :: string where "HOMES_DIR = ''/sbx/homes''"
definition DEFAULT_MAX_PROCS :: nat where "DEFAULT_MAX_PROCS = 256"
definition DEFAULT_MAX_MEM_MB :: nat where "DEFAULT_MAX_MEM_MB = 2048"
definition MAX_PROCS_CEILING :: nat where "MAX_PROCS_CEILING = 4096"
definition MAX_MEM_MB_CEILING :: nat where "MAX_MEM_MB_CEILING = 1024 * 1024"
definition DEFAULT_MAX_FILES :: nat where "DEFAULT_MAX_FILES = 4096"
definition DEFAULT_MAX_FILE_SIZE_MB :: nat where "DEFAULT_MAX_FILE_SIZE_MB = 8192"
definition DEFAULT_MAX_CPU_SECS :: nat where "DEFAULT_MAX_CPU_SECS = 24 * 3600"
definition MAX_ENV_BYTES :: nat where "MAX_ENV_BYTES = 64 * 1024"
definition PROXY_SUBDIR :: string where "PROXY_SUBDIR = ''.sbx/proxy''"

text \<open>
  What the registry needs of the operating system beyond files and Landlock. \<open>k_urandom n\<close> is the
  outcome of opening \<open>/dev/urandom\<close> and reading \<open>n\<close> bytes; \<open>k_now_ms\<close> reads the clock.
\<close>

record 'w sb_kernel = "'w ll_kernel" +
  k_urandom :: "nat \<Rightarrow> ('w, string) io"
  k_now_ms :: "'w \<Rightarrow> i64 \<times> 'w"
  k_set_permissions :: "string \<Rightarrow> nat \<Rightarrow> ('w, unit) io"
  k_chown :: "string \<Rightarrow> nat \<Rightarrow> ('w, unit) io"
  k_read_to_string :: "string \<Rightarrow> ('w, string) io"
  k_kill :: "int \<Rightarrow> nat \<Rightarrow> ('w, unit) io"
  k_sleep_ms :: "nat \<Rightarrow> ('w, unit) io"
  k_prctl_no_new_privs :: "('w, unit) io"
  k_setrlimit :: "string \<Rightarrow> nat \<Rightarrow> ('w, unit) io"

definition now_ms :: "('w, 'z) sb_kernel_scheme \<Rightarrow> ('w osw, i64) io" where
  "now_ms K s = (case k_now_ms K (kst s) of (t, k) \<Rightarrow> (Inr t, s\<lparr>kst := k\<rparr>))"

definition path_call :: "string \<Rightarrow> ('w, 'a) io \<Rightarrow> ('w osw, 'a) io" where
  "path_call p = sys (ByPath p)"

section \<open>Processes of a uid\<close>

text \<open>\<open>str::lines\<close> and \<open>split_whitespace\<close> on the ASCII text of \<open>/proc\<close>.\<close>

definition strip_cr :: "string \<Rightarrow> string" where
  "strip_cr l = (if l \<noteq> [] \<and> last l = CR then butlast l else l)"

definition str_lines :: "string \<Rightarrow> string list" where
  "str_lines s =
     (let ls = split_char LF s in map strip_cr (if last ls = [] then butlast ls else ls))"

definition is_space :: "char \<Rightarrow> bool" where
  "is_space c \<longleftrightarrow> c = CHR '' '' \<or> (9 \<le> byte c \<and> byte c \<le> 13)"

fun split_whitespace_acc :: "string \<Rightarrow> string \<Rightarrow> string list" where
  "split_whitespace_acc [] w = (if w = [] then [] else [w])"
| "split_whitespace_acc (c # cs) w =
     (if is_space c then (if w = [] then split_whitespace_acc cs [] else w # split_whitespace_acc cs [])
      else split_whitespace_acc cs (w @ [c]))"

definition split_whitespace :: "string \<Rightarrow> string list" where
  "split_whitespace s = split_whitespace_acc s []"

definition nth_opt :: "nat \<Rightarrow> 'a list \<Rightarrow> 'a option" where
  "nth_opt n xs = (if n < length xs then Some (xs ! n) else None)"

definition field_of :: "string \<Rightarrow> string \<Rightarrow> string option" where
  "field_of key status =
     Option.bind (find (prefix key) (str_lines status)) (\<lambda>l. nth_opt 1 (split_whitespace l))"

definition real_uid :: "string \<Rightarrow> nat option" where
  "real_uid status = Option.bind (field_of ''Uid:'' status) parse_u32"

definition is_zombie :: "string \<Rightarrow> bool" where
  "is_zombie status \<longleftrightarrow> field_of ''State:'' status = Some ''Z''"

definition pid_of_name :: "string \<Rightarrow> int option" where
  "pid_of_name name = (if is_utf8 name then parse_i32 name else None)"

text \<open>\<open>format!("{pid}")\<close> of an \<open>i32\<close>.\<close>

definition show_int :: "int \<Rightarrow> string" where
  "show_int i = (if i < 0 then CHR ''-'' # show_nat (nat (- i)) else show_nat (nat i))"

definition status_path :: "int \<Rightarrow> string" where
  "status_path pid = ''/proc/'' @ show_int pid @ ''/status''"

text \<open>One pass over \<open>/proc\<close>: the statuses that could be read, with their process.\<close>

fun read_statuses ::
  "('w, 'z) sb_kernel_scheme \<Rightarrow> (string \<times> metadata result) result list \<Rightarrow> ('w osw, (int \<times> string) list) io" where
  "read_statuses K [] = returnE []"
| "read_statuses K (Inl _ # es) = read_statuses K es"
| "read_statuses K (Inr (name, _) # es) =
     (case pid_of_name name of
        None \<Rightarrow> read_statuses K es
      | Some pid \<Rightarrow>
          catchE (path_call (status_path pid) (k_read_to_string K (status_path pid)))
            (\<lambda>status. bindE (read_statuses K es) (\<lambda>rest. returnE ((pid, status) # rest)))
            (\<lambda>_. read_statuses K es))"

definition live_of_uid :: "nat \<Rightarrow> int \<times> string \<Rightarrow> bool" where
  "live_of_uid uid ps \<longleftrightarrow> real_uid (snd ps) = Some uid \<and> \<not> is_zombie (snd ps)"

definition pids_of_uid :: "('w, 'z) sb_kernel_scheme \<Rightarrow> nat \<Rightarrow> ('w osw, int list) io" where
  "pids_of_uid K uid =
     catchE (path_call ''/proc'' (k_read_dir K ''/proc''))
       (\<lambda>entries. bindE (read_statuses K entries) (\<lambda>ss. returnE (map fst (filter (live_of_uid uid) ss))))
       (\<lambda>_. returnE [])"

definition in_uid_range :: "nat \<Rightarrow> bool" where
  "in_uid_range uid \<longleftrightarrow> UID_BASE \<le> uid \<and> uid < UID_MAX"

definition passwd_uids :: "string \<Rightarrow> nat list" where
  "passwd_uids passwd =
     filter in_uid_range
       (List.map_filter (\<lambda>l. Option.bind (nth_opt 2 (split_char (CHR '':'') l)) parse_u32) (str_lines passwd))"

definition add_status_uid :: "nat list \<Rightarrow> int \<times> string \<Rightarrow> nat list" where
  "add_status_uid used ps =
     (case real_uid (snd ps) of
        Some uid \<Rightarrow> if in_uid_range uid \<and> uid \<notin> set used then used @ [uid] else used
      | None \<Rightarrow> used)"

definition uids_already_in_use :: "('w, 'z) sb_kernel_scheme \<Rightarrow> ('w osw, nat list) io" where
  "uids_already_in_use K =
     bindE (catchE (path_call ''/etc/passwd'' (k_read_to_string K ''/etc/passwd''))
              (\<lambda>passwd. returnE (passwd_uids passwd)) (\<lambda>_. returnE [])) (\<lambda>used.
       catchE (path_call ''/proc'' (k_read_dir K ''/proc''))
         (\<lambda>entries. bindE (read_statuses K entries) (\<lambda>ss. returnE (foldl add_status_uid used ss)))
         (\<lambda>_. returnE used))"

section \<open>The uid pool\<close>

definition with_reserved :: "nat list \<Rightarrow> uid_pool" where
  "with_reserved reserved = \<lparr>up_next = 0, up_free = [], up_quarantined = reserved\<rparr>"

text \<open>
  The two loops of \<open>take\<close>. The free list is a stack whose top is its last element; \<open>take_free\<close> gets
  it top first and returns what is left of it, top first.
\<close>

fun take_free :: "('w, 'z) sb_kernel_scheme \<Rightarrow> nat list \<Rightarrow> nat list \<Rightarrow> ('w osw, nat option \<times> nat list \<times> nat list) io" where
  "take_free K [] quarantined = returnE (None, [], quarantined)"
| "take_free K (uid # stack) quarantined =
     bindE (pids_of_uid K uid) (\<lambda>pids.
       if pids = [] then returnE (Some uid, stack, quarantined)
       else take_free K stack (quarantined @ [uid]))"

function take_fresh :: "nat \<Rightarrow> nat list \<Rightarrow> nat option \<times> nat" where
  "take_fresh next quarantined =
     (if UID_MAX \<le> UID_BASE + next then (None, next)
      else if UID_BASE + next \<notin> set quarantined then (Some (UID_BASE + next), Suc next)
      else take_fresh (Suc next) quarantined)"
  by pat_completeness auto
termination
  by (relation "measure (\<lambda>(next, _). UID_MAX - (UID_BASE + next))") auto

declare take_fresh.simps [simp del]

definition pool_take :: "('w, 'z) sb_kernel_scheme \<Rightarrow> uid_pool \<Rightarrow> ('w osw, nat option \<times> uid_pool) io" where
  "pool_take K p =
     bindE (take_free K (rev (up_free p)) (up_quarantined p)) (\<lambda>(r, stack, q).
       case r of
         Some uid \<Rightarrow> returnE (Some uid, p\<lparr>up_free := rev stack, up_quarantined := q\<rparr>)
       | None \<Rightarrow>
           (case take_fresh (up_next p) q of
              (u, next) \<Rightarrow> returnE (u, p\<lparr>up_next := next, up_free := rev stack, up_quarantined := q\<rparr>)))"

definition pool_release :: "nat \<Rightarrow> uid_pool \<Rightarrow> uid_pool" where
  "pool_release uid p = p\<lparr>up_free := up_free p @ [uid]\<rparr>"

definition pool_quarantine :: "nat \<Rightarrow> uid_pool \<Rightarrow> uid_pool" where
  "pool_quarantine uid p = p\<lparr>up_quarantined := up_quarantined p @ [uid]\<rparr>"

text \<open>\<open>random_hex\<close>: two lower-case digits per byte.\<close>

definition hex_byte :: "char \<Rightarrow> string" where
  "hex_byte b = [digit_char (byte b div 16), digit_char (byte b mod 16)]"

definition random_hex :: "('w, 'z) sb_kernel_scheme \<Rightarrow> nat \<Rightarrow> ('w osw, string) io" where
  "random_hex K n = bindE (raw_os (k_urandom K n)) (\<lambda>buf. returnE (concat (map hex_byte buf)))"

section \<open>The registry\<close>

text \<open>
  The atomic sections of the registry, one per lock or atomic operation of the source.
  \<open>fetch_reserve\<close> is \<open>reserved.fetch_add(1)\<close>, which returns the value before.
\<close>

definition fetch_reserve :: "registry \<Rightarrow> nat \<times> registry" where
  "fetch_reserve g = (rg_reserved g, g\<lparr>rg_reserved := rg_reserved g + 1\<rparr>)"

definition unreserve :: "registry \<Rightarrow> unit \<times> registry" where
  "unreserve g = ((), g\<lparr>rg_reserved := rg_reserved g - 1\<rparr>)"

definition release_uid :: "nat \<Rightarrow> registry \<Rightarrow> unit \<times> registry" where
  "release_uid uid g = ((), g\<lparr>rg_uids := pool_release uid (rg_uids g)\<rparr>)"

definition quarantine_uid :: "nat \<Rightarrow> registry \<Rightarrow> unit \<times> registry" where
  "quarantine_uid uid g = ((), g\<lparr>rg_uids := pool_quarantine uid (rg_uids g)\<rparr>)"

definition insert_entry :: "sandbox_entry \<Rightarrow> registry \<Rightarrow> unit \<times> registry" where
  "insert_entry e g = ((), g\<lparr>rg_map := hm_insert (e_id e) e (rg_map g)\<rparr>)"

definition remove_entry :: "string \<Rightarrow> registry \<Rightarrow> sandbox_entry option \<times> registry" where
  "remove_entry sid g = (hm_get (rg_map g) sid, g\<lparr>rg_map := hm_remove sid (rg_map g)\<rparr>)"

definition mark_deleted :: "sandbox_entry \<Rightarrow> registry \<Rightarrow> unit \<times> registry" where
  "mark_deleted e g = ((), g\<lparr>rg_deleted := e_id e # rg_deleted g\<rparr>)"

definition take_uid :: "('w, 'z) sb_kernel_scheme \<Rightarrow> ('w world, nat option) io" where
  "take_uid K w =
     (case pool_take K (rg_uids (w_sandboxes w)) (w_os w) of
        (Inl e, s) \<Rightarrow> (Inl e, w\<lparr>w_os := s\<rparr>)
      | (Inr (u, p), s) \<Rightarrow>
          (Inr u, w\<lparr>w_os := s, w_sandboxes := (w_sandboxes w)\<lparr>rg_uids := p\<rparr>\<rparr>))"

definition registry_new :: "('w, 'z) sb_kernel_scheme \<Rightarrow> nat \<Rightarrow> bool \<Rightarrow> ('w osw, registry) io" where
  "registry_new K capacity allow_unconfined =
     bindE (uids_already_in_use K) (\<lambda>reserved.
       returnE \<lparr>rg_map = [], rg_capacity = capacity, rg_reserved = 0,
                rg_allow_unconfined = allow_unconfined, rg_uids = with_reserved reserved, rg_deleted = []\<rparr>)"

text \<open>\<open>chown\<close> and \<open>chown_into_home\<close>; paths are compared by their components.\<close>

definition chown :: "('w, 'z) sb_kernel_scheme \<Rightarrow> string \<Rightarrow> nat \<Rightarrow> ('w osw, unit) io" where
  "chown K path uid =
     (if NUL \<in> set path then returnE () else ignoreE (path_call path (k_chown K path uid)))"

lemma path_parent_shorter: "path_parent p = Some q \<Longrightarrow> length q < length p"
proof -
  assume a: "path_parent p = Some q"
  then have ne: "path_components p \<noteq> []" and
    f: "find (\<lambda>q. path_components q = butlast (path_components p)) (prefixes p) = Some q"
    by (auto simp: path_parent_def Let_def split: if_splits)
  from find_SomeD [OF f] have pq: "path_components q = butlast (path_components p)" and "prefix q p"
    by simp_all
  from pq ne have "path_components q \<noteq> path_components p"
    by (metis append_butlast_last_id not_Cons_self2 self_append_conv)
  with \<open>prefix q p\<close> show ?thesis
    by (metis prefix_length_less prefix_order.dual_order.not_eq_order_implies_strict)
qed

function chown_into_home :: "('w, 'z) sb_kernel_scheme \<Rightarrow> string \<Rightarrow> string option \<Rightarrow> nat \<Rightarrow> ('w osw, unit) io" where
  "chown_into_home K home None uid = returnE ()"
| "chown_into_home K home (Some p) uid =
     (if path_components p = path_components home \<or> \<not> prefix (path_components home) (path_components p)
      then returnE ()
      else thenE (chown K p uid) (chown_into_home K home (path_parent p) uid))"
  by pat_completeness auto
termination
proof (relation "measure (\<lambda>(_, _, cur, _). case cur of None \<Rightarrow> 0 | Some p \<Rightarrow> Suc (length p))")
  show "((K, home, path_parent p, uid), K, home, Some p, uid)
      \<in> measure (\<lambda>(_, _, cur, _). case cur of None \<Rightarrow> 0 | Some p \<Rightarrow> Suc (length p))"
    for K :: "('w, 'z) sb_kernel_scheme" and home p uid
    using path_parent_shorter [of p] by (cases "path_parent p") auto
qed simp

declare chown_into_home.simps [simp del]

text \<open>
  The layout of a new home: the directory with mode 0700, its \<open>.tmp\<close> and the proxy directory, all
  owned by the sandbox.
\<close>

definition make_home :: "('w, 'z) sb_kernel_scheme \<Rightarrow> string \<Rightarrow> nat \<Rightarrow> ('w osw, unit) io" where
  "make_home K home uid =
     (let tmp = home @ ''/.tmp''; proxy_dir = home @ ''/'' @ PROXY_SUBDIR in
      thenE (path_call home (k_create_dir_all K home))
     (thenE (path_call home (k_set_permissions K home 448))
     (thenE (path_call tmp (k_create_dir_all K tmp))
     (thenE (path_call proxy_dir (k_create_dir_all K proxy_dir))
     (thenE (ignoreE (path_call home (k_chown K home uid)))
     (thenE (ignoreE (path_call tmp (k_chown K tmp uid)))
        (chown_into_home K home (Some proxy_dir) uid)))))))"

definition confine :: "('w, 'z) sb_kernel_scheme \<Rightarrow> string \<Rightarrow> ('w world, confinement) io" where
  "confine K home w =
     catchE (on_os (build_ruleset K (w_rules w) home))
       (\<lambda>f. returnE (Landlock (int f)))
       (\<lambda>e. if rg_allow_unconfined (w_sandboxes w) then returnE UidOnly
             else thenE (ignoreE (on_os (path_call home (k_remove_dir_all K home))))
                    (throwE (IoError OtherKind (''cannot confine sandbox: '' @ error_text K e)))) w"

definition opt_or :: "'a option \<Rightarrow> 'a \<Rightarrow> 'a" where
  "opt_or x d = (case x of Some y \<Rightarrow> y | None \<Rightarrow> d)"

definition create_inner ::
  "('w, 'z) sb_kernel_scheme \<Rightarrow> nat \<Rightarrow> (string, string) hashmap \<Rightarrow> nat option \<Rightarrow> nat option \<Rightarrow> i64 \<Rightarrow>
   ('w world, sandbox_entry) io" where
  "create_inner K uid env max_procs max_mem_mb idle_timeout_ms =
     bindE (on_os (random_hex K 8)) (\<lambda>sid.
     bindE (on_os (random_hex K 32)) (\<lambda>token.
     (let home = HOMES_DIR @ ''/'' @ sid in
      thenE (on_os (make_home K home uid))
     (bindE (confine K home) (\<lambda>conf.
      bindE (on_os (now_ms K)) (\<lambda>created.
      bindE (on_os (now_ms K)) (\<lambda>active.
      (let entry = \<lparr>e_id = sid, e_uid = uid, e_home = home, e_created_at_ms = created, e_env = env,
                    e_max_procs = opt_or max_procs DEFAULT_MAX_PROCS,
                    e_max_mem_mb = opt_or max_mem_mb DEFAULT_MAX_MEM_MB,
                    e_token = token, e_confinement = conf, e_last_activity_ms = active,
                    e_idle_timeout_ms = idle_timeout_ms\<rparr>
       in thenE (on_reg (insert_entry entry)) (returnE entry))))))))) "

datatype create_error = Full | CreateIo io_error

definition create ::
  "('w, 'z) sb_kernel_scheme \<Rightarrow> (string, string) hashmap \<Rightarrow> nat option \<Rightarrow> nat option \<Rightarrow> i64 \<Rightarrow>
   ('w world, create_error + sandbox_entry) io" where
  "create K env max_procs max_mem_mb idle_timeout_ms w =
     bindE (on_reg fetch_reserve) (\<lambda>old.
       if rg_capacity (w_sandboxes w) \<le> old
       then thenE (on_reg unreserve) (returnE (Inl Full))
       else bindE (take_uid K) (\<lambda>u. case u of
           None \<Rightarrow> thenE (on_reg unreserve) (returnE (Inl Full))
         | Some uid \<Rightarrow>
             catchE (create_inner K uid env max_procs max_mem_mb idle_timeout_ms)
               (\<lambda>entry. returnE (Inr entry))
               (\<lambda>e. thenE (on_reg unreserve) (thenE (on_reg (release_uid uid)) (returnE (Inl (CreateIo e))))))) w"

definition reg_get :: "registry \<Rightarrow> string \<Rightarrow> sandbox_entry option" where
  "reg_get g sid = hm_get (rg_map g) sid"

definition reg_ids :: "registry \<Rightarrow> string list" where
  "reg_ids g = map fst (rg_map g)"

definition touch :: "('w, 'z) sb_kernel_scheme \<Rightarrow> string \<Rightarrow> ('w world, unit) io" where
  "touch K sid w =
     (case reg_get (w_sandboxes w) sid of
        None \<Rightarrow> returnE ()
      | Some e \<Rightarrow> bindE (on_os (now_ms K)) (\<lambda>t. on_reg (\<lambda>g.
          ((), g\<lparr>rg_map := hm_insert sid (e\<lparr>e_last_activity_ms := t\<rparr>) (rg_map g)\<rparr>)))) w"

text \<open>Signed comparison; the difference wraps as \<open>i64\<close> subtraction does in a release build.\<close>

definition is_idle :: "i64 \<Rightarrow> sandbox_entry \<Rightarrow> bool" where
  "is_idle now e \<longleftrightarrow>
     0 < sint (e_idle_timeout_ms e) \<and> sint (e_idle_timeout_ms e) < sint (now - e_last_activity_ms e)"

definition idle_candidates :: "registry \<Rightarrow> i64 \<Rightarrow> string list" where
  "idle_candidates g now = map e_id (filter (is_idle now) (map snd (rg_map g)))"

text \<open>\<open>kill_uid\<close>: at most a hundred rounds of signals, then a last look.\<close>

definition SIGKILL :: nat where "SIGKILL = 9"

text \<open>\<open>libc::kill\<close>, with the pid or (negated) process group it addresses in the log.\<close>

definition sys_kill :: "('w, 'z) sb_kernel_scheme \<Rightarrow> int \<Rightarrow> nat \<Rightarrow> ('w osw, unit) io" where
  "sys_kill K target signal = sys (KillPid target signal) (k_kill K target signal)"

fun kill_all :: "('w, 'z) sb_kernel_scheme \<Rightarrow> int list \<Rightarrow> ('w osw, unit) io" where
  "kill_all K [] = returnE ()"
| "kill_all K (pid # pids) = thenE (ignoreE (sys_kill K pid SIGKILL)) (kill_all K pids)"

fun kill_rounds :: "('w, 'z) sb_kernel_scheme \<Rightarrow> nat \<Rightarrow> nat \<Rightarrow> ('w osw, bool) io" where
  "kill_rounds K uid 0 = bindE (pids_of_uid K uid) (\<lambda>pids. returnE (pids = []))"
| "kill_rounds K uid (Suc left) =
     bindE (pids_of_uid K uid) (\<lambda>pids.
       if pids = [] then returnE True
       else thenE (kill_all K pids)
              (thenE (ignoreE (raw_os (k_sleep_ms K (if 100 - Suc left < 10 then 5 else 10))))
                 (kill_rounds K uid left)))"

definition kill_uid :: "('w, 'z) sb_kernel_scheme \<Rightarrow> nat \<Rightarrow> ('w osw, bool) io" where
  "kill_uid K uid = kill_rounds K uid 100"

text \<open>The outcome of a removal as a value.\<close>

definition try_os :: "('w osw, unit) io \<Rightarrow> ('w world, io_error option) io" where
  "try_os m = catchE (on_os m) (\<lambda>_. returnE None) (\<lambda>e. returnE (Some e))"

definition reg_delete :: "('w, 'z) sb_kernel_scheme \<Rightarrow> string \<Rightarrow> ('w world, (string + unit) option) io" where
  "reg_delete K sid =
     bindE (on_reg (remove_entry sid)) (\<lambda>r. case r of
       None \<Rightarrow> returnE None
     | Some e \<Rightarrow>
         thenE (on_reg (mark_deleted e))
        (thenE (on_reg unreserve)
        (bindE (on_os (kill_uid K (e_uid e))) (\<lambda>converged.
         bindE (try_os (path_call (e_home e) (k_remove_dir_all K (e_home e)))) (\<lambda>removed.
           if \<not> converged then
             thenE (on_reg (quarantine_uid (e_uid e)))
               (returnE (Some (Inl (''sandbox '' @ sid @ '' was removed but processes under uid '' @
                  show_nat (e_uid e) @ '' survived the kill sweep''))))
           else (case removed of
               Some err \<Rightarrow> thenE (on_reg (quarantine_uid (e_uid e)))
                 (returnE (Some (Inl (''sandbox '' @ sid @ '' was removed but its home could not be deleted: '' @
                    error_text K err))))
             | None \<Rightarrow> thenE (on_reg (release_uid (e_uid e))) (returnE (Some (Inr ())))))))))"

definition list_json :: "registry \<Rightarrow> json" where
  "list_json g = JArray (map (\<lambda>(_, s). JObject [
     (''id'', JString (e_id s)), (''uid'', JNat (e_uid s)), (''home'', JString (e_home s)),
     (''created_at_ms'', JInt (sint (e_created_at_ms s))),
     (''confinement'', JString (label (e_confinement s)))]) (rg_map g))"

definition reg_count :: "registry \<Rightarrow> nat" where
  "reg_count g = length (rg_map g)"

definition remaining_capacity :: "registry \<Rightarrow> nat" where
  "remaining_capacity g = min (rg_capacity g - rg_reserved g) 4096"

section \<open>What a sandboxed process starts with\<close>

text \<open>\<open>saturating_mul\<close> on \<open>u64\<close>.\<close>

definition sat_mul :: "nat \<Rightarrow> nat \<Rightarrow> nat" where
  "sat_mul a b = min (a * b) u64_max"

fun confinement_fd :: "confinement \<Rightarrow> int option" where
  "confinement_fd (Landlock f) = Some f"
| "confinement_fd UidOnly = None"

text \<open>
  \<open>pre_exec_isolation\<close>: run by the child between fork and exec. The process and address-space
  limits are mandatory, the others best effort.
\<close>

definition pre_exec_isolation :: "('w, 'z) sb_kernel_scheme \<Rightarrow> sandbox_entry \<Rightarrow> ('w osw, unit) io" where
  "pre_exec_isolation K e =
     (let max_mem = sat_mul (e_max_mem_mb e) (1024 * 1024) in
      thenE (raw_os (k_prctl_no_new_privs K))
     (thenE (case confinement_fd (e_confinement e) of
               Some f \<Rightarrow> restrict_self K (nat f)
             | None \<Rightarrow> returnE ())
     (thenE (raw_os (k_setrlimit K ''NPROC'' (e_max_procs e)))
     (thenE (raw_os (k_setrlimit K ''AS'' max_mem))
     (thenE (ignoreE (raw_os (k_setrlimit K ''CORE'' 0)))
     (thenE (ignoreE (raw_os (k_setrlimit K ''NOFILE'' DEFAULT_MAX_FILES)))
     (thenE (ignoreE (raw_os (k_setrlimit K ''FSIZE'' (DEFAULT_MAX_FILE_SIZE_MB * 1024 * 1024))))
        (ignoreE (raw_os (k_setrlimit K ''CPU'' DEFAULT_MAX_CPU_SECS))))))))))"

definition base_env :: "sandbox_entry \<Rightarrow> (string \<times> string) list" where
  "base_env e =
     [(''PATH'', e_home e @ ''/.local/bin:/usr/local/sbin:/usr/local/bin:/usr/sbin:/usr/bin:/sbin:/bin''),
      (''HOME'', e_home e),
      (''TMPDIR'', e_home e @ ''/.tmp''),
      (''USER'', ''sbx-'' @ e_id e),
      (''LOGNAME'', ''sbx-'' @ e_id e),
      (''SBX_SANDBOX_ID'', e_id e),
      (''SBX_PROXY_DIR'', e_home e @ ''/'' @ PROXY_SUBDIR)] @ e_env e"

section \<open>Handlers\<close>

text \<open>
  The handlers run on a connection whose world is the server's state. The idle timeout is
  multiplied in \<open>i64\<close>, which wraps in a release build.
\<close>

definition env_size :: "(string, string) hashmap \<Rightarrow> nat" where
  "env_size env = sum_list (map (\<lambda>(k, v). length k + length v) env)"

definition entry_created_json :: "sandbox_entry \<Rightarrow> json" where
  "entry_created_json e = JObject [
     (''id'', JString (e_id e)), (''token'', JString (e_token e)), (''uid'', JNat (e_uid e)),
     (''home'', JString (e_home e)), (''confinement'', JString (label (e_confinement e)))]"

datatype create_outcome = Created "json list" nat | CreateFailed io_error

fun create_loop ::
  "('w, 'z) sb_kernel_scheme \<Rightarrow> (string, string) hashmap \<Rightarrow> nat option \<Rightarrow> nat option \<Rightarrow> i64 \<Rightarrow> nat \<Rightarrow> nat \<Rightarrow> json list \<Rightarrow>
   ('w world, create_outcome) io" where
  "create_loop K env mp mm idle todo 0 created = returnE (Created created 0)"
| "create_loop K env mp mm idle todo (Suc left) created =
     bindE (create K env mp mm idle) (\<lambda>r. case r of
       Inr entry \<Rightarrow> create_loop K env mp mm idle todo left (created @ [entry_created_json entry])
     | Inl Full \<Rightarrow> returnE (Created created (todo - length created))
     | Inl (CreateIo e) \<Rightarrow> returnE (CreateFailed e))"

definition limit_ok :: "nat option \<Rightarrow> nat \<Rightarrow> bool" where
  "limit_ok v ceiling \<longleftrightarrow> (case v of Some x \<Rightarrow> x \<noteq> 0 \<and> x \<le> ceiling | None \<Rightarrow> True)"

definition parse_create_body :: "codec \<Rightarrow> string \<Rightarrow> json" where
  "parse_create_body C body =
     (if body = [] then JObject [] else (case from_slice C body of Inr j \<Rightarrow> j | Inl _ \<Rightarrow> JObject []))"

definition handle_create :: "codec \<Rightarrow> ('w, 'z) sb_kernel_scheme \<Rightarrow> ('w world conn, unit) io" where
  "handle_create C K =
     bindE (read_body (1024 * 1024)) (\<lambda>body. (\<lambda>c.
     (let j = parse_create_body C body;
          env = json_string_map j ''env'';
          requested = max (opt_or (Option.bind (json_get j ''count'') as_u64) 1) 1;
          todo = min requested (remaining_capacity (w_sandboxes (c_os c)));
          max_procs = Option.bind (json_get j ''max_procs'') as_u64;
          max_mem_mb = Option.bind (json_get j ''max_mem_mb'') as_u64;
          idle = (word_of_int (opt_or (Option.bind (json_get j ''idle_timeout_secs'') as_i64) 0) * 1000 :: i64)
      in if MAX_ENV_BYTES < env_size env then
           resp (rw_error C 400 (''env too large ('' @ show_nat (env_size env) @ '' bytes, max '' @
             show_nat MAX_ENV_BYTES @ '')''))
         else if \<not> limit_ok max_procs MAX_PROCS_CEILING then
           resp (rw_error C 400 (''max_procs must be 1..='' @ show_nat MAX_PROCS_CEILING))
         else if \<not> limit_ok max_mem_mb MAX_MEM_MB_CEILING then
           resp (rw_error C 400 (''max_mem_mb must be 1..='' @ show_nat MAX_MEM_MB_CEILING))
         else bindE (os (create_loop K env max_procs max_mem_mb idle todo todo [])) (\<lambda>out. case out of
             Created created rejected \<Rightarrow>
               resp (rw_json C 200 (JObject [(''sandboxes'', JArray created), (''rejected'', JNat rejected)]))
           | CreateFailed e \<Rightarrow> resp (rw_error C 500 (''failed to create sandbox: '' @ error_text K e)))) c))"

definition handle_delete_sandbox :: "codec \<Rightarrow> ('w, 'z) sb_kernel_scheme \<Rightarrow> string \<Rightarrow> ('w world conn, unit) io" where
  "handle_delete_sandbox C K sid =
     bindE (os (reg_delete K sid)) (\<lambda>r. case r of
       None \<Rightarrow> resp (rw_error C 404 (''no such sandbox: '' @ sid))
     | Some (Inr _) \<Rightarrow>
         thenE (os (on_procs (remove_for_sandbox sid)))
           (resp (rw_json C 200 (JObject [(''id'', JString sid), (''deleted'', JBool True)])))
     | Some (Inl message) \<Rightarrow>
         thenE (os (on_procs (remove_for_sandbox sid)))
           (resp (rw_json C 500 (JObject [(''id'', JString sid), (''deleted'', JBool True), (''error'', JString message)]))))"

fun delete_loop :: "('w, 'z) sb_kernel_scheme \<Rightarrow> string list \<Rightarrow> string list \<Rightarrow> ('w world, string list) io" where
  "delete_loop K [] errors = returnE errors"
| "delete_loop K (sid # sids) errors =
     bindE (reg_delete K sid) (\<lambda>r.
     thenE (on_procs (remove_for_sandbox sid))
       (delete_loop K sids (case r of Some (Inl message) \<Rightarrow> errors @ [message] | _ \<Rightarrow> errors)))"

definition handle_delete_all :: "codec \<Rightarrow> ('w, 'z) sb_kernel_scheme \<Rightarrow> ('w world conn, unit) io" where
  "handle_delete_all C K c =
     (let sids = reg_ids (w_sandboxes (c_os c)); n = length sids in
      bindE (os (delete_loop K sids [])) (\<lambda>errors.
        if errors = [] then resp (rw_json C 200 (JObject [(''deleted'', JNat n)]))
        else resp (rw_json C 500 (JObject [(''deleted'', JNat n), (''errors'', JArray (map JString errors))])))) c"

end
