(* ===== verification/Sandbox_Pool.thy ===== *)
theory Sandbox_Pool
  imports Sandboxes
begin

text \<open>
  The registry under concurrency. A \<^emph>\<open>thread\<close> is a request that stands between two atomic sections
  of \<open>create\<close> or \<open>delete\<close> (one lock or one atomic operation each); \<open>host_step\<close> lets any thread take its
  next section and anything outside the registry change in between. The invariant counts slots and
  tracks uids; the sequential operations of \<open>Sandboxes\<close> are shown to be runs of this machine. The
  second half states what deletion, creation and the pre-exec hook guarantee.
\<close>

section \<open>The uid pool\<close>

text \<open>
  \<open>pool_ok p held\<close>: the free uids and the uids \<open>held\<close> outside the pool are pairwise different, lie
  in the part of the range already handed out, and none of them is quarantined.
\<close>

definition pool_ok :: "uid_pool \<Rightarrow> nat list \<Rightarrow> bool" where
  "pool_ok p held \<longleftrightarrow> distinct (up_free p @ held) \<and>
     (\<forall>u \<in> set (up_free p @ held). UID_BASE \<le> u \<and> u < UID_BASE + up_next p \<and> u < UID_MAX \<and> u \<notin> set (up_quarantined p))"

locale uid_allocator =
  fixes ok :: "'p \<Rightarrow> nat list \<Rightarrow> bool"
    and taken :: "'p \<Rightarrow> nat option \<Rightarrow> 'p \<Rightarrow> bool"
    and release :: "nat \<Rightarrow> 'p \<Rightarrow> 'p"
    and quarantine :: "nat \<Rightarrow> 'p \<Rightarrow> 'p"
  assumes held_distinct: "ok p h \<Longrightarrow> distinct h"
    and held_perm: "ok p h \<Longrightarrow> mset h = mset h' \<Longrightarrow> ok p h'"
    and take_some: "ok p h \<Longrightarrow> taken p (Some u) p' \<Longrightarrow> ok p' (u # h)"
    and take_none: "ok p h \<Longrightarrow> taken p None p' \<Longrightarrow> ok p' h"
    and release_held: "ok p (u # h) \<Longrightarrow> ok (release u p) h"
    and quarantine_held: "ok p (u # h) \<Longrightarrow> ok (quarantine u p) h"
begin

lemma take_new: "ok p h \<Longrightarrow> taken p (Some u) p' \<Longrightarrow> u \<notin> set h"
  using take_some [of p h u p'] held_distinct [of p' "u # h"] by auto

lemma release_middle: "ok p (a @ u # b) \<Longrightarrow> ok (release u p) (a @ b)"
  using release_held held_perm [of p "a @ u # b" "u # a @ b"] by simp

lemma quarantine_middle: "ok p (a @ u # b) \<Longrightarrow> ok (quarantine u p) (a @ b)"
  using quarantine_held held_perm [of p "a @ u # b" "u # a @ b"] by simp

lemma take_middle: "ok p (a @ b) \<Longrightarrow> taken p (Some u) p' \<Longrightarrow> ok p' (a @ u # b)"
  using take_some [of p "a @ b" u p'] held_perm [of p' "u # a @ b" "a @ u # b"] by simp

end

text \<open>
  What \<open>take\<close> may do, whatever the operating system says about the processes of a uid: reuse the
  topmost free uid after quarantining those above it, or quarantine all of them and go on in the
  range.
\<close>

inductive pool_taken :: "uid_pool \<Rightarrow> nat option \<Rightarrow> uid_pool \<Rightarrow> bool" where
  reuse: "rev (up_free p) = bs @ u # stack \<Longrightarrow>
     pool_taken p (Some u) (p\<lparr>up_free := rev stack, up_quarantined := up_quarantined p @ bs\<rparr>)"
| fresh: "take_fresh (up_next p) (up_quarantined p @ rev (up_free p)) = (r, n) \<Longrightarrow>
     pool_taken p r (p\<lparr>up_next := n, up_free := [], up_quarantined := up_quarantined p @ rev (up_free p)\<rparr>)"

lemma take_fresh_spec:
  "take_fresh n q = (r, m) \<Longrightarrow> n \<le> m \<and>
     (case r of Some u \<Rightarrow> UID_BASE + n \<le> u \<and> u < UID_BASE + m \<and> u < UID_MAX \<and> u \<notin> set q | None \<Rightarrow> True)"
proof (induction n q arbitrary: r m rule: take_fresh.induct)
  case (1 n q)
  show ?case
  proof (cases "UID_MAX \<le> UID_BASE + n \<or> UID_BASE + n \<notin> set q")
    case True
    with 1(2) show ?thesis by (auto simp: take_fresh.simps [of n q] split: if_splits)
  next
    case False
    with 1(2) have "take_fresh (Suc n) q = (r, m)" by (simp add: take_fresh.simps [of n q])
    with 1(1) False show ?thesis by (fastforce split: option.splits)
  qed
qed

lemma take_free_spec:
  "take_free K stack q s = (Inr (r, stack', q'), t) \<Longrightarrow>
     (case r of
        Some u \<Rightarrow> (\<exists>bs. stack = bs @ u # stack' \<and> q' = q @ bs)
      | None \<Rightarrow> stack' = [] \<and> q' = q @ stack)"
proof (induction K stack q arbitrary: s rule: take_free.induct)
  case (1 K q)
  then show ?case by (auto simp: returnE_def)
next
  case (2 K uid stack q)
  then obtain pids s1 where p: "pids_of_uid K uid s = (Inr pids, s1)"
    and r: "(if pids = [] then returnE (Some uid, stack, q) else take_free K stack (q @ [uid])) s1 = (Inr (r, stack', q'), t)"
    by (auto simp: bindE_Inr)
  show ?case
  proof (cases "pids = []")
    case True
    with r show ?thesis by (auto simp: returnE_def)
  next
    case False
    with r have "take_free K stack (q @ [uid]) s1 = (Inr (r, stack', q'), t)" by simp
    from 2(1) [OF False this] show ?thesis
      by (cases r) (auto intro: exI [of _ "uid # _"])
  qed
qed

lemma pool_take_taken: "pool_take K p s = (Inr (r, p'), t) \<Longrightarrow> pool_taken p r p'"
proof -
  assume "pool_take K p s = (Inr (r, p'), t)"
  then obtain r1 stack q s1 where f: "take_free K (rev (up_free p)) (up_quarantined p) s = (Inr (r1, stack, q), s1)"
    and k: "(case r1 of
         Some uid \<Rightarrow> returnE (Some uid, p\<lparr>up_free := rev stack, up_quarantined := q\<rparr>)
       | None \<Rightarrow> (case take_fresh (up_next p) q of
              (u, next) \<Rightarrow> returnE (u, p\<lparr>up_next := next, up_free := rev stack, up_quarantined := q\<rparr>))) s1 = (Inr (r, p'), t)"
    by (auto simp: pool_take_def bindE_Inr)
  show ?thesis
  proof (cases r1)
    case (Some u)
    with take_free_spec [OF f] obtain bs where bs: "rev (up_free p) = bs @ u # stack" "q = up_quarantined p @ bs" by auto
    from k Some bs(2) have "r = Some u" "p' = p\<lparr>up_free := rev stack, up_quarantined := up_quarantined p @ bs\<rparr>"
      by (auto simp: returnE_def)
    with pool_taken.reuse [OF bs(1)] show ?thesis by simp
  next
    case None
    with take_free_spec [OF f] have st: "stack = []" "q = up_quarantined p @ rev (up_free p)" by auto
    obtain u n where t: "take_fresh (up_next p) (up_quarantined p @ rev (up_free p)) = (u, n)"
      by (cases "take_fresh (up_next p) (up_quarantined p @ rev (up_free p))")
    with k None st have "r = u" "p' = p\<lparr>up_next := n, up_free := [], up_quarantined := up_quarantined p @ rev (up_free p)\<rparr>"
      by (auto simp: returnE_def)
    with pool_taken.fresh [OF t] show ?thesis by simp
  qed
qed

lemma pool_ok_taken:
  assumes ok: "pool_ok p h" and "pool_taken p r p'"
  shows "pool_ok p' ((case r of Some u \<Rightarrow> [u] | None \<Rightarrow> []) @ h)"
  using assms(2)
proof cases
  case (reuse bs u stack)
  have "distinct ((bs @ u # stack) @ h)" "set (up_free p) = set (bs @ u # stack)"
    using ok reuse(3) by (auto simp: pool_ok_def simp flip: reuse(3))
  with ok reuse show ?thesis by (auto simp: pool_ok_def)
next
  case (fresh n)
  note tf = take_fresh_spec [OF fresh(2)]
  have old: "u < UID_BASE + up_next p" if "u \<in> set h" for u
    using ok that by (simp add: pool_ok_def)
  with tf have "u < UID_BASE + n" if "u \<in> set h" for u using that by fastforce
  moreover have "x \<notin> set h" if "r = Some x" for x
    using old [of x] tf that by auto
  ultimately show ?thesis
    using ok tf fresh(1) by (auto simp: pool_ok_def split: option.splits)
qed

interpretation pool: uid_allocator pool_ok pool_taken pool_release pool_quarantine
proof unfold_locales
  fix p p' :: uid_pool and h h' :: "nat list" and u :: nat
  show "pool_ok p h \<Longrightarrow> distinct h" by (simp add: pool_ok_def)
  show "pool_ok p h \<Longrightarrow> mset h = mset h' \<Longrightarrow> pool_ok p h'"
    by (auto simp: pool_ok_def dest: mset_eq_imp_distinct_iff mset_eq_setD)
  show "pool_ok p h \<Longrightarrow> pool_taken p (Some u) p' \<Longrightarrow> pool_ok p' (u # h)"
    using pool_ok_taken [of p h "Some u" p'] by simp
  show "pool_ok p h \<Longrightarrow> pool_taken p None p' \<Longrightarrow> pool_ok p' h"
    using pool_ok_taken [of p h None p'] by simp
  show "pool_ok p (u # h) \<Longrightarrow> pool_ok (pool_release u p) h"
    by (auto simp: pool_ok_def pool_release_def)
  show "pool_ok p (u # h) \<Longrightarrow> pool_ok (pool_quarantine u p) h"
    by (auto simp: pool_ok_def pool_quarantine_def)
qed

section \<open>Creation and deletion side by side\<close>

text \<open>
  Where a request thread stands between two atomic sections of \<open>create\<close> or \<open>delete\<close>.
\<close>

datatype thread =
    Idle
  | Overfull                        \<comment> \<open>\<open>fetch_add\<close> found the host full, \<open>fetch_sub\<close> is due\<close>
  | SlotHeld                        \<comment> \<open>slot reserved, uid to be taken\<close>
  | NoUid                           \<comment> \<open>range exhausted, slot to be given back\<close>
  | Building nat                    \<comment> \<open>\<open>create_inner\<close> runs under this uid\<close>
  | Failed nat                      \<comment> \<open>\<open>create_inner\<close> failed, slot given back, uid to be released\<close>
  | Removed sandbox_entry           \<comment> \<open>entry out of the map\<close>
  | Marked sandbox_entry            \<comment> \<open>its \<open>deleted\<close> flag set\<close>
  | Sweeping sandbox_entry          \<comment> \<open>slot given back, processes to be killed\<close>
  | Swept sandbox_entry bool        \<comment> \<open>sweep over; whether it converged\<close>
  | Clean nat                       \<comment> \<open>home removed as well, uid to be released\<close>
  | Doubtful nat                    \<comment> \<open>something survived, uid to be quarantined\<close>

inductive thread_step :: "('w, 'z) sb_kernel_scheme \<Rightarrow> 'w world \<times> thread \<Rightarrow> 'w world \<times> thread \<Rightarrow> bool"
  for K :: "('w, 'z) sb_kernel_scheme" where
  t_reserve: "on_reg fetch_reserve w = (Inr old, w') \<Longrightarrow>
     thread_step K (w, Idle) (w', if rg_capacity (w_sandboxes w) \<le> old then Overfull else SlotHeld)"
| t_full: "on_reg unreserve w = (Inr u, w') \<Longrightarrow> thread_step K (w, Overfull) (w', Idle)"
| t_take: "take_uid K w = (Inr r, w') \<Longrightarrow>
     thread_step K (w, SlotHeld) (w', case r of None \<Rightarrow> NoUid | Some uid \<Rightarrow> Building uid)"
| t_exhausted: "on_reg unreserve w = (Inr u, w') \<Longrightarrow> thread_step K (w, NoUid) (w', Idle)"
| t_insert: "e_uid e = uid \<Longrightarrow> reg_get (w_sandboxes w) (e_id e) = None \<Longrightarrow>
     on_reg (insert_entry e) w = (Inr u, w') \<Longrightarrow> thread_step K (w, Building uid) (w', Idle)"
| t_fail: "on_reg unreserve w = (Inr u, w') \<Longrightarrow> thread_step K (w, Building uid) (w', Failed uid)"
| t_release: "on_reg (release_uid uid) w = (Inr u, w') \<Longrightarrow> thread_step K (w, Failed uid) (w', Idle)"
| t_remove: "on_reg (remove_entry sid) w = (Inr (Some e), w') \<Longrightarrow> thread_step K (w, Idle) (w', Removed e)"
| t_mark: "on_reg (mark_deleted e) w = (Inr u, w') \<Longrightarrow> thread_step K (w, Removed e) (w', Marked e)"
| t_free: "on_reg unreserve w = (Inr u, w') \<Longrightarrow> thread_step K (w, Marked e) (w', Sweeping e)"
| t_sweep: "on_os (kill_uid K (e_uid e)) w = (Inr converged, w') \<Longrightarrow>
     thread_step K (w, Sweeping e) (w', Swept e converged)"
| t_wipe: "try_os (path_call (e_home e) (k_remove_dir_all K (e_home e))) w = (Inr removed, w') \<Longrightarrow>
     thread_step K (w, Swept e converged)
       (w', if converged \<and> removed = None then Clean (e_uid e) else Doubtful (e_uid e))"
| t_recycle: "on_reg (release_uid uid) w = (Inr u, w') \<Longrightarrow> thread_step K (w, Clean uid) (w', Idle)"
| t_quarantine: "on_reg (quarantine_uid uid) w = (Inr u, w') \<Longrightarrow> thread_step K (w, Doubtful uid) (w', Idle)"

text \<open>
  The host: any thread may take the next step, a request may stamp a sandbox's activity, and
  anything but the registry may change in between (other requests, the sandboxes' own processes, the clock).
\<close>

inductive host_step :: "('w, 'z) sb_kernel_scheme \<Rightarrow> 'w world \<times> thread list \<Rightarrow> 'w world \<times> thread list \<Rightarrow> bool"
  for K :: "('w, 'z) sb_kernel_scheme" where
  h_thread: "thread_step K (w, t) (w', t') \<Longrightarrow> host_step K (w, as @ t # bs) (w', as @ t' # bs)"
| h_touch: "touch K sid w = (Inr u, w') \<Longrightarrow> host_step K (w, ts) (w', ts)"
| h_other: "w_sandboxes w' = w_sandboxes w \<Longrightarrow> host_step K (w, ts) (w', ts)"

definition host_init :: "'w world \<times> thread list \<Rightarrow> bool" where
  "host_init s \<longleftrightarrow> rg_map (w_sandboxes (fst s)) = [] \<and> rg_reserved (w_sandboxes (fst s)) = 0 \<and>
     (\<exists>reserved. rg_uids (w_sandboxes (fst s)) = with_reserved reserved) \<and> set (snd s) \<subseteq> {Idle}"

text \<open>What a thread holds: a unit of the counter, a slot of the capacity, a uid.\<close>

fun counted :: "thread \<Rightarrow> nat" where
  "counted Overfull = 1"
| "counted SlotHeld = 1"
| "counted NoUid = 1"
| "counted (Building _) = 1"
| "counted (Removed _) = 1"
| "counted (Marked _) = 1"
| "counted _ = 0"

fun slots :: "thread \<Rightarrow> nat" where
  "slots Overfull = 0"
| "slots t = counted t"

fun held :: "thread \<Rightarrow> nat list" where
  "held (Building uid) = [uid]"
| "held (Failed uid) = [uid]"
| "held (Removed e) = [e_uid e]"
| "held (Marked e) = [e_uid e]"
| "held (Sweeping e) = [e_uid e]"
| "held (Swept e _) = [e_uid e]"
| "held (Clean uid) = [uid]"
| "held (Doubtful uid) = [uid]"
| "held _ = []"

definition live_uids :: "registry \<Rightarrow> nat list" where
  "live_uids g = map (\<lambda>(_, e). e_uid e) (rg_map g)"

definition reg_ok :: "registry \<Rightarrow> nat \<Rightarrow> nat \<Rightarrow> nat list \<Rightarrow> bool" where
  "reg_ok g n l h \<longleftrightarrow> hm_ok (rg_map g) \<and> rg_reserved g = length (rg_map g) + n \<and>
     length (rg_map g) + l \<le> rg_capacity g \<and> pool_ok (rg_uids g) (live_uids g @ h)"

definition host_inv :: "'w world \<times> thread list \<Rightarrow> bool" where
  "host_inv s \<longleftrightarrow> reg_ok (w_sandboxes (fst s)) (sum_list (map counted (snd s))) (sum_list (map slots (snd s)))
     (concat (map held (snd s)))"

lemma update_absent: "map_of m k = None \<Longrightarrow> AList.update k v m = m @ [(k, v)]"
  by (induction m) (auto split: if_splits)

lemma delete_present:
  "distinct (map fst m) \<Longrightarrow> map_of m k = Some v \<Longrightarrow> mset m = add_mset (k, v) (mset (AList.delete k m))"
proof (induction m)
  case (Cons x m)
  then show ?case
    by (cases x) (auto simp: delete_notin_dom split: if_splits)
qed simp

lemma live_uids_insert:
  assumes "hm_get (rg_map g) (e_id e) = None"
  shows "live_uids (g\<lparr>rg_map := hm_insert (e_id e) e (rg_map g)\<rparr>) = live_uids g @ [e_uid e]"
  using assms by (simp add: live_uids_def hm_insert_def hm_get_def update_absent)

lemma live_uids_remove:
  assumes "hm_ok (rg_map g)" and "hm_get (rg_map g) sid = Some e"
  shows "mset (live_uids g) = add_mset (e_uid e) (mset (live_uids (g\<lparr>rg_map := hm_remove sid (rg_map g)\<rparr>)))"
proof -
  have "mset (rg_map g) = add_mset (sid, e) (mset (hm_remove sid (rg_map g)))"
    using assms delete_present [of "rg_map g" sid e] by (simp add: hm_ok_def hm_get_def hm_remove_def)
  then have "mset (map (\<lambda>(_, e). e_uid e) (rg_map g)) =
      add_mset (e_uid e) (mset (map (\<lambda>(_, e). e_uid e) (hm_remove sid (rg_map g))))"
    by (simp only: mset_map) simp
  then show ?thesis by (simp add: live_uids_def)
qed

lemma on_reg_eq: "on_reg f w = (Inr x, w') \<longleftrightarrow> fst (f (w_sandboxes w)) = x \<and> w' = w\<lparr>w_sandboxes := snd (f (w_sandboxes w))\<rparr>"
  by (auto simp: on_reg_def split: prod.splits)

lemma on_os_reg: "on_os m w = (r, w') \<Longrightarrow> w_sandboxes w' = w_sandboxes w"
  by (auto simp: on_os_def split: prod.splits)

lemma try_os_reg: "try_os m w = (r, w') \<Longrightarrow> w_sandboxes w' = w_sandboxes w"
  by (auto simp: try_os_def catchE_def returnE_def split: prod.splits sum.splits dest: on_os_reg)

lemma reg_ok_insert:
  assumes "reg_ok g (1 + n) (1 + l) (e_uid e # h)" and "reg_get g (e_id e) = None"
  shows "reg_ok (g\<lparr>rg_map := hm_insert (e_id e) e (rg_map g)\<rparr>) n l h"
  using assms hm.len_insert_new [of "rg_map g" "e_id e" e] hm.ok_insert [of "rg_map g"]
    live_uids_insert [of g e]
  by (auto simp: reg_ok_def reg_get_def)

lemma reg_ok_remove:
  assumes ok: "reg_ok g n l h" and get: "hm_get (rg_map g) sid = Some e"
  shows "reg_ok (g\<lparr>rg_map := hm_remove sid (rg_map g)\<rparr>) (1 + n) (1 + l) (e_uid e # h)"
proof -
  have hok: "hm_ok (rg_map g)" using ok by (simp add: reg_ok_def)
  have len: "length (rg_map g) = Suc (length (hm_remove sid (rg_map g)))"
    using hm.len_remove [OF hok get] hok get by (cases "rg_map g") (auto simp: hm_get_def)
  have "mset (live_uids g @ h) = mset (live_uids (g\<lparr>rg_map := hm_remove sid (rg_map g)\<rparr>) @ e_uid e # h)"
    using live_uids_remove [OF hok get] by simp
  then have "pool_ok (rg_uids g) (live_uids (g\<lparr>rg_map := hm_remove sid (rg_map g)\<rparr>) @ e_uid e # h)"
    using ok pool.held_perm unfolding reg_ok_def by blast
  with ok len hm.ok_remove [OF hok] show ?thesis by (auto simp: reg_ok_def)
qed

text \<open>Stamping an entry keeps its place, its identifier and its uid.\<close>

lemma touch_reg:
  assumes "touch K sid w = (r, w')"
  obtains (same) "w_sandboxes w' = w_sandboxes w"
  | (stamped) e t where "reg_get (w_sandboxes w) sid = Some e"
      "w_sandboxes w' = (w_sandboxes w)\<lparr>rg_map := hm_insert sid (e\<lparr>e_last_activity_ms := t\<rparr>) (rg_map (w_sandboxes w))\<rparr>"
  using assms
  by (auto simp: touch_def bindE_def returnE_def on_os_def on_reg_def now_ms_def split: option.splits prod.splits sum.splits)

lemma map_update_snd: "map_of m k = Some v \<Longrightarrow> f v' = f v \<Longrightarrow> map (\<lambda>(_, x). f x) (AList.update k v' m) = map (\<lambda>(_, x). f x) m"
  by (induction m) auto

lemma reg_ok_touch:
  assumes "reg_ok g n l h" and "reg_get g sid = Some e"
  shows "reg_ok (g\<lparr>rg_map := hm_insert sid (e\<lparr>e_last_activity_ms := t\<rparr>) (rg_map g)\<rparr>) n l h"
proof -
  have "live_uids (g\<lparr>rg_map := hm_insert sid (e\<lparr>e_last_activity_ms := t\<rparr>) (rg_map g)\<rparr>) = live_uids g"
    using assms(2) map_update_snd [of "rg_map g" sid e e_uid "e\<lparr>e_last_activity_ms := t\<rparr>"]
    by (simp add: live_uids_def hm_insert_def reg_get_def hm_get_def)
  moreover have "length (hm_insert sid (e\<lparr>e_last_activity_ms := t\<rparr>) (rg_map g)) = length (rg_map g)"
    using calculation by (simp add: live_uids_def) (metis length_map)
  ultimately show ?thesis using assms(1) by (simp add: reg_ok_def hm.ok_insert)
qed

lemma live_uids_upd [simp]:
  "live_uids (g\<lparr>rg_reserved := r\<rparr>) = live_uids g" "live_uids (g\<lparr>rg_uids := p\<rparr>) = live_uids g"
  "live_uids (g\<lparr>rg_deleted := d\<rparr>) = live_uids g"
  by (simp_all add: live_uids_def)

lemma take_uid_pool:
  assumes "take_uid K w = (Inr r, w')"
  obtains p where "pool_taken (rg_uids (w_sandboxes w)) r p" "w_sandboxes w' = (w_sandboxes w)\<lparr>rg_uids := p\<rparr>"
  using assms by (auto simp: take_uid_def split: prod.splits sum.splits dest: pool_take_taken)

lemma thread_step_ok:
  assumes "thread_step K (w, t) (w', t')"
    and "reg_ok (w_sandboxes w) (counted t + n) (slots t + l) (held t @ h)" and "l \<le> n"
  shows "reg_ok (w_sandboxes w') (counted t' + n) (slots t' + l) (held t' @ h)"
  using assms
proof (cases rule: thread_step.cases)
  case (t_reserve old)
  with assms(2,3) show ?thesis by (auto simp: on_reg_eq fetch_reserve_def reg_ok_def)
next
  case (t_take r)
  from take_uid_pool [OF t_take(3)] obtain p where p: "pool_taken (rg_uids (w_sandboxes w)) r p"
    "w_sandboxes w' = (w_sandboxes w)\<lparr>rg_uids := p\<rparr>" .
  with assms(2) t_take show ?thesis
    by (cases r) (auto simp: reg_ok_def intro: pool.take_none pool.take_middle)
next
  case (t_insert e uid u)
  with assms(2) reg_ok_insert [of "w_sandboxes w" n l e h] show ?thesis
    by (auto simp: on_reg_eq insert_entry_def)
next
  case (t_remove sid e)
  with assms(2) reg_ok_remove [of "w_sandboxes w" n l h sid e] show ?thesis
    by (auto simp: on_reg_eq remove_entry_def)
next
  case (t_sweep e converged)
  with assms(2) show ?thesis by (auto dest!: on_os_reg)
next
  case (t_wipe e removed converged)
  with assms(2) show ?thesis by (auto dest!: try_os_reg)
qed (use assms(2) in \<open>auto simp: on_reg_eq unreserve_def release_uid_def quarantine_uid_def mark_deleted_def reg_ok_def
      intro: pool.release_middle pool.quarantine_middle\<close>)

lemma reg_ok_perm: "reg_ok g n l h \<Longrightarrow> mset h = mset h' \<Longrightarrow> reg_ok g n l h'"
  unfolding reg_ok_def using pool.held_perm [of "rg_uids g" "live_uids g @ h" "live_uids g @ h'"] by simp

lemma slots_le: "slots t \<le> counted t"
  by (cases t) auto

lemma idle_sums:
  assumes "set ts \<subseteq> {Idle}"
  shows "sum_list (map counted ts) = 0" "sum_list (map slots ts) = 0" "concat (map held ts) = []"
  using assms by (induction ts) auto

interpretation host: inductive_invariant host_init "host_step K" host_inv
proof unfold_locales
  fix s t :: "'a world \<times> thread list"
  show "host_inv s" if "host_init s"
  proof -
    have "set (snd s) \<subseteq> {Idle}" using that by (simp add: host_init_def)
    note z = idle_sums [OF this]
    with \<open>host_init s\<close> show ?thesis unfolding host_inv_def z
      by (auto simp: host_init_def reg_ok_def hm.ok_empty live_uids_def pool_ok_def with_reserved_def)
  qed
  assume inv: "host_inv s" and "host_step K s t"
  from this(2) show "host_inv t"
  proof cases
    case (h_thread w t1 w' t1' as bs)
    let ?n = "sum_list (map counted (as @ bs))" and ?l = "sum_list (map slots (as @ bs))"
    let ?h = "concat (map held (as @ bs))"
    have m: "mset (concat (map held (as @ x # bs))) = mset (held x @ ?h)" for x by simp
    have c: "sum_list (map counted (as @ x # bs)) = counted x + ?n" "sum_list (map slots (as @ x # bs)) = slots x + ?l" for x
      by simp_all
    have "reg_ok (w_sandboxes w) (counted t1 + ?n) (slots t1 + ?l) (concat (map held (as @ t1 # bs)))"
      using inv unfolding host_inv_def h_thread(1) fst_conv snd_conv c .
    then have "reg_ok (w_sandboxes w) (counted t1 + ?n) (slots t1 + ?l) (held t1 @ ?h)"
      by (rule reg_ok_perm [OF _ m])
    moreover have "?l \<le> ?n" by (rule sum_list_mono) (rule slots_le)
    ultimately have "reg_ok (w_sandboxes w') (counted t1' + ?n) (slots t1' + ?l) (held t1' @ ?h)"
      using thread_step_ok [OF h_thread(3)] by blast
    then have "reg_ok (w_sandboxes w') (counted t1' + ?n) (slots t1' + ?l) (concat (map held (as @ t1' # bs)))"
      by (rule reg_ok_perm [OF _ m [symmetric]])
    then show ?thesis unfolding host_inv_def h_thread(2) fst_conv snd_conv c .
  next
    case (h_touch sid w u w' ts)
    from touch_reg [OF h_touch(3)] inv h_touch(1,2) show ?thesis
      by cases (auto simp: host_inv_def reg_ok_touch)
  next
    case (h_other w' w ts)
    with inv show ?thesis by (simp add: host_inv_def)
  qed
qed

text \<open>The registry is a map from identifiers to entries that carry them.\<close>

definition reg_keyed :: "registry \<Rightarrow> bool" where
  "reg_keyed g \<longleftrightarrow> (\<forall>sid e. reg_get g sid = Some e \<longrightarrow> e_id e = sid)"

lemma reg_keyed_upd:
  "reg_keyed g \<Longrightarrow> e_id e = sid \<Longrightarrow> reg_keyed (g\<lparr>rg_map := hm_insert sid e (rg_map g)\<rparr>)"
  "reg_keyed g \<Longrightarrow> reg_keyed (g\<lparr>rg_map := hm_remove sid (rg_map g)\<rparr>)"
  by (auto simp: reg_keyed_def reg_get_def hm.get_insert hm.get_remove split: if_splits)

lemma reg_keyed_touch:
  assumes k: "reg_keyed (w_sandboxes w)" and "touch K sid w = (r, w')"
  shows "reg_keyed (w_sandboxes w')"
  using assms(2)
proof (cases rule: touch_reg)
  case (stamped e t)
  then have "e_id (e\<lparr>e_last_activity_ms := t\<rparr>) = sid" using k by (simp add: reg_keyed_def)
  from reg_keyed_upd(1) [OF k this] stamped(2) show ?thesis by simp
qed (use k in simp)

lemma reg_keyed_frame [simp]:
  "reg_keyed (g\<lparr>rg_reserved := n\<rparr>) = reg_keyed g" "reg_keyed (g\<lparr>rg_uids := p\<rparr>) = reg_keyed g"
  "reg_keyed (g\<lparr>rg_deleted := d\<rparr>) = reg_keyed g"
  by (simp_all add: reg_keyed_def reg_get_def)

lemma thread_step_keyed:
  assumes "thread_step K (w, t) (w', t')" and "reg_keyed (w_sandboxes w)"
  shows "reg_keyed (w_sandboxes w')"
  using assms(1)
proof (cases rule: thread_step.cases)
  case (t_take r)
  from take_uid_pool [OF t_take(3)] assms(2) show ?thesis by (metis reg_keyed_frame(2))
qed (use assms(2) in \<open>auto simp: on_reg_eq fetch_reserve_def unreserve_def release_uid_def quarantine_uid_def mark_deleted_def
      insert_entry_def remove_entry_def reg_keyed_upd dest!: on_os_reg try_os_reg\<close>)

interpretation keyed: inductive_invariant host_init "host_step K" "\<lambda>s. reg_keyed (w_sandboxes (fst s))"
proof unfold_locales
  fix s t :: "'a world \<times> thread list"
  show "reg_keyed (w_sandboxes (fst s))" if "host_init s"
    using that by (simp add: host_init_def reg_keyed_def reg_get_def hm_get_def)
  assume k: "reg_keyed (w_sandboxes (fst s))" and "host_step K s t"
  from this(2) show "reg_keyed (w_sandboxes (fst t))"
    by cases (use k in \<open>auto dest: thread_step_keyed reg_keyed_touch\<close>)
qed

text \<open>
  C3: Creations and deletions that run side by side, in any order of their atomic sections and
  whatever the operating system answers, keep the registry safe: never more sandboxes than the
  capacity, no uid given to two live sandboxes, every live uid in the sandbox range, not
  quarantined, not free and not in the hands of another request; and when no request is under way
  the reservation counter equals the number of sandboxes.
\<close>

theorem host_registry_safe:
  assumes "reach host_init (host_step K) (w, ts)"
  shows "reg_count (w_sandboxes w) \<le> rg_capacity (w_sandboxes w) \<and>
    distinct (live_uids (w_sandboxes w)) \<and>
    (\<forall>uid. uid \<in> set (live_uids (w_sandboxes w)) \<longrightarrow>
       UID_BASE \<le> uid \<and> uid < UID_MAX \<and> uid \<notin> set (up_quarantined (rg_uids (w_sandboxes w))) \<and>
       uid \<notin> set (up_free (rg_uids (w_sandboxes w))) \<and> (\<forall>t. t \<in> set ts \<longrightarrow> uid \<notin> set (held t))) \<and>
    (set ts \<subseteq> {Idle} \<longrightarrow> rg_reserved (w_sandboxes w) = reg_count (w_sandboxes w))"
proof -
  have inv: "reg_ok (w_sandboxes w) (sum_list (map counted ts)) (sum_list (map slots ts)) (concat (map held ts))"
    using host.reach_inv [OF assms] by (simp add: host_inv_def)
  from inv idle_sums(1) [of ts] show ?thesis by (auto simp: reg_ok_def reg_count_def pool_ok_def)
qed

section \<open>The operations are runs of the machine\<close>

definition runs :: "('w, 'z) sb_kernel_scheme \<Rightarrow> 'w world \<times> thread list \<Rightarrow> 'w world \<times> thread list \<Rightarrow> bool" where
  "runs K = (host_step K)\<^sup>*\<^sup>*"

lemma runs_refl: "runs K s s"
  by (simp add: runs_def)

lemma runs_trans: "runs K s t \<Longrightarrow> runs K t u \<Longrightarrow> runs K s u"
  by (simp add: runs_def)

lemma runs_thread: "thread_step K (w, t) (w', t') \<Longrightarrow> runs K (w, as @ t # bs) (w', as @ t' # bs)"
  unfolding runs_def by (intro r_into_rtranclp h_thread)

lemma runs_other: "w_sandboxes w' = w_sandboxes w \<Longrightarrow> runs K (w, ts) (w', ts)"
  unfolding runs_def by (intro r_into_rtranclp h_other)

lemma reach_runs: "reach host_init (host_step K) s \<Longrightarrow> runs K s t \<Longrightarrow> reach host_init (host_step K) t"
  unfolding runs_def by (rule reach_steps)

text \<open>Everything \<open>create_inner\<close> does before it inserts the entry leaves the registry alone.\<close>

lemma on_os_snd: "w_sandboxes (snd (on_os m w)) = w_sandboxes w"
  by (simp add: on_os_def split: prod.split)

lemma on_reg_Inl: "on_reg f w \<noteq> (Inl e, w')"
  by (simp add: on_reg_def split: prod.split)

lemma on_reg_ex:
  obtains x w' where "on_reg f w = (Inr x, w')"
  by (cases "f (w_sandboxes w)") (simp add: on_reg_def)

lemma confine_reg: "confine K home w = (r, w') \<Longrightarrow> w_sandboxes w' = w_sandboxes w"
  unfolding confine_def
  by (auto simp: catchE_def thenE_def bindE_def ignoreE_def returnE_def throwE_def
      split: prod.splits sum.splits if_splits dest!: on_os_reg simp: on_os_snd)

lemma create_inner_reg:
  assumes "create_inner K uid env mp mm idle w = (r, w')"
  shows "case r of
      Inl e \<Rightarrow> w_sandboxes w' = w_sandboxes w
    | Inr e \<Rightarrow> e_uid e = uid \<and> (\<exists>w1. w_sandboxes w1 = w_sandboxes w \<and> on_reg (insert_entry e) w1 = (Inr (), w'))"
  using assms unfolding create_inner_def Let_def thenE_def bindE_def
  by (auto simp: returnE_def on_reg_Inl split: prod.splits sum.splits dest!: on_os_reg confine_reg)

lemma thread_runs:
  "thread_step K s t \<Longrightarrow> runs K (fst s, as @ snd s # bs) (fst t, as @ snd t # bs)"
  using runs_thread [of K "fst s" "snd s" "fst t" "snd t"] by simp

text \<open>The ways out of \<open>create\<close>: giving the reservation back, and the outcome of \<open>create_inner\<close>.\<close>

lemma reserved_runs:
  assumes "thenE (on_reg unreserve) (returnE x) w = (Inr r, w')"
    and "\<And>v. on_reg unreserve w = (Inr v, w') \<Longrightarrow> thread_step K (w, t) (w', Idle)"
  shows "runs K (w, as @ t # bs) (w', as @ Idle # bs)"
proof -
  from assms(1) obtain v where "on_reg unreserve w = (Inr v, w')" by (auto simp: thenE_def bindE_Inr returnE_def)
  from thread_runs [OF assms(2) [OF this]] show ?thesis by simp
qed

lemma building_runs:
  assumes k: "catchE (create_inner K uid env mp mm idle) (\<lambda>entry. returnE (Inr entry))
      (\<lambda>e. thenE (on_reg unreserve) (thenE (on_reg (release_uid uid)) (returnE (Inl (CreateIo e))))) w = (Inr r, w')"
    and new: "\<And>e. r = Inr e \<Longrightarrow> reg_get (w_sandboxes w) (e_id e) = None"
  shows "runs K (w, as @ Building uid # bs) (w', as @ Idle # bs)"
proof -
  obtain x w1 where ci: "create_inner K uid env mp mm idle w = (x, w1)" by (cases "create_inner K uid env mp mm idle w")
  show ?thesis
  proof (cases x)
    case (Inr e)
    with create_inner_reg [OF ci] obtain w2 where w2: "e_uid e = uid" "w_sandboxes w2 = w_sandboxes w"
      "on_reg (insert_entry e) w2 = (Inr (), w1)" by auto
    from k ci Inr have r: "w' = w1" "r = Inr e" by (auto simp: catchE_run returnE_def)
    have "reg_get (w_sandboxes w2) (e_id e) = None" using new [OF r(2)] w2(2) by simp
    then have "runs K (w2, as @ Building uid # bs) (w', as @ Idle # bs)"
      using thread_runs [OF t_insert [OF w2(1) _ w2(3)]] r(1) by simp
    with runs_other [OF w2(2)] show ?thesis by (rule runs_trans)
  next
    case (Inl e)
    with create_inner_reg [OF ci] have w1: "w_sandboxes w1 = w_sandboxes w" by simp
    from k ci Inl obtain v w2 v' where "on_reg unreserve w1 = (Inr v, w2)" "on_reg (release_uid uid) w2 = (Inr v', w')"
      by (auto simp: catchE_run thenE_def bindE_Inr returnE_def)
    then have "runs K (w1, as @ Building uid # bs) (w2, as @ Failed uid # bs)" "runs K (w2, as @ Failed uid # bs) (w', as @ Idle # bs)"
      using thread_runs [OF t_fail] thread_runs [OF t_release] by simp_all
    with runs_other [OF w1] show ?thesis by (meson runs_trans)
  qed
qed

lemma create_runs:
  assumes "create K env mp mm idle w = (Inr r, w')"
    and new: "\<And>e. r = Inr e \<Longrightarrow> reg_get (w_sandboxes w) (e_id e) = None"
  shows "runs K (w, as @ Idle # bs) (w', as @ Idle # bs)"
proof -
  obtain old w1 where r1: "on_reg fetch_reserve w = (Inr old, w1)" by (rule on_reg_ex)
  then have g1: "w_sandboxes w1 = (w_sandboxes w)\<lparr>rg_reserved := rg_reserved (w_sandboxes w) + 1\<rparr>"
    by (auto simp: on_reg_eq fetch_reserve_def)
  note c = assms(1) [unfolded create_def]
  note s1 = thread_runs [where as = as and bs = bs, OF t_reserve [OF r1], unfolded fst_conv snd_conv]
  show ?thesis
  proof (cases "rg_capacity (w_sandboxes w) \<le> old")
    case True
    with c r1 have "thenE (on_reg unreserve) (returnE (Inl Full)) w1 = (Inr r, w')" by (simp add: bindE_run)
    from runs_trans [OF s1 [simplified True if_True simp_thms] reserved_runs [OF this t_full]] show ?thesis .
  next
    case False
    with c r1 obtain u w2 where tk: "take_uid K w1 = (Inr u, w2)"
      and k: "(case u of
           None \<Rightarrow> thenE (on_reg unreserve) (returnE (Inl Full))
         | Some uid \<Rightarrow>
             catchE (create_inner K uid env mp mm idle) (\<lambda>entry. returnE (Inr entry))
               (\<lambda>e. thenE (on_reg unreserve) (thenE (on_reg (release_uid uid)) (returnE (Inl (CreateIo e)))))) w2 = (Inr r, w')"
      by (auto simp: bindE_Inr bindE_run)
    obtain p where g2: "w_sandboxes w2 = (w_sandboxes w1)\<lparr>rg_uids := p\<rparr>" using take_uid_pool [OF tk] by metis
    have s2: "runs K (w, as @ Idle # bs) (w2, as @ (case u of None \<Rightarrow> NoUid | Some uid \<Rightarrow> Building uid) # bs)"
      using runs_trans [OF s1] thread_runs [where as = as and bs = bs, OF t_take [OF tk]] False by simp
    show ?thesis
    proof (cases u)
      case None
      with k have "thenE (on_reg unreserve) (returnE (Inl Full)) w2 = (Inr r, w')" by simp
      from runs_trans [OF s2 [unfolded None option.case] reserved_runs [OF this t_exhausted]] show ?thesis .
    next
      case (Some uid)
      have "reg_get (w_sandboxes w2) (e_id e) = None" if "r = Inr e" for e
        using new [OF that] g1 g2 by (simp add: reg_get_def)
      with building_runs [of K uid env mp mm idle w2 r w' as bs] k s2 Some show ?thesis
        by (auto intro: runs_trans)
    qed
  qed
qed

lemma remove_absent: "hm_get m k = None \<Longrightarrow> hm_remove k m = m"
  by (simp add: hm_get_def hm_remove_def delete_notin_dom map_of_eq_None_iff)

lemma delete_runs:
  assumes "reg_delete K sid w = (Inr r, w')"
  shows "runs K (w, as @ Idle # bs) (w', as @ Idle # bs)"
proof -
  let ?run = "\<lambda>s t. runs K (fst s, as @ snd s # bs) (fst t, as @ snd t # bs)"
  have step: "?run s t" if "thread_step K s t" for s t
    using that runs_thread [of K "fst s" "snd s" "fst t" "snd t"] by simp
  obtain e0 w1 where r1: "on_reg (remove_entry sid) w = (Inr e0, w1)" by (rule on_reg_ex)
  show ?thesis
  proof (cases e0)
    case None
    then have "w_sandboxes w1 = w_sandboxes w"
      using r1 remove_absent [of "rg_map (w_sandboxes w)" sid] by (auto simp: on_reg_eq remove_entry_def)
    moreover have "w' = w1" using assms r1 None by (simp add: reg_delete_def bindE_run returnE_def)
    ultimately show ?thesis by (auto intro: runs_other)
  next
    case (Some e)
    obtain v2 w2 where r2: "on_reg (mark_deleted e) w1 = (Inr v2, w2)" by (rule on_reg_ex)
    obtain v3 w3 where r3: "on_reg unreserve w2 = (Inr v3, w3)" by (rule on_reg_ex)
    from assms r1 r2 r3 Some obtain conv w4 removed w5 where
      r4: "on_os (kill_uid K (e_uid e)) w3 = (Inr conv, w4)" and
      r5: "try_os (path_call (e_home e) (k_remove_dir_all K (e_home e))) w4 = (Inr removed, w5)" and
      r6: "\<exists>u. on_reg (if conv \<and> removed = None then release_uid (e_uid e) else quarantine_uid (e_uid e)) w5 = (Inr u, w')"
      by (auto simp: reg_delete_def thenE_def bindE_run bindE_Inr returnE_def split: if_splits option.splits)
    have "?run (w, Idle) (w5, if conv \<and> removed = None then Clean (e_uid e) else Doubtful (e_uid e))"
      using step [OF t_remove [OF r1 [unfolded Some]]] step [OF t_mark [OF r2]] step [OF t_free [OF r3]]
        step [OF t_sweep [OF r4]] step [OF t_wipe [OF r5]] by (metis (no_types, lifting) runs_trans)
    moreover have "?run (w5, if conv \<and> removed = None then Clean (e_uid e) else Doubtful (e_uid e)) (w', Idle)"
      using r6 step [OF t_recycle, of "e_uid e" w5 _ w'] step [OF t_quarantine, of "e_uid e" w5 _ w'] by (auto split: if_splits)
    ultimately show ?thesis by (auto intro: runs_trans)
  qed
qed

text \<open>
  C15: The sequential code of \<open>create\<close> (when its random id is new) and of \<open>delete\<close>, on every
  outcome, is a run of the interleaving machine from an idle thread to an idle thread, so what
  holds in every reachable state of the machine holds around the handlers.
\<close>

theorem operations_run_machine:
  assumes "create K env mp mm idle w = (Inr r, w') \<and> (\<forall>e. r = Inr e \<longrightarrow> reg_get (w_sandboxes w) (e_id e) = None) \<or>
      reg_delete K sid w = (Inr d, w')"
  shows "runs K (w, as @ Idle # bs) (w', as @ Idle # bs)"
  using assms create_runs [of K env mp mm idle w r w' as bs] delete_runs [of K sid w d w' as bs] by blast

section \<open>Outcomes\<close>

lemma kill_rounds_last:
  "kill_rounds K uid n s = (Inr b, t) \<Longrightarrow> \<exists>s' pids. pids_of_uid K uid s' = (Inr pids, t) \<and> b = (pids = [])"
proof (induction n arbitrary: s)
  case 0
  then show ?case by (auto simp: bindE_Inr returnE_def)
next
  case (Suc n)
  then show ?case by (auto simp: bindE_Inr thenE_def returnE_def split: if_splits)
qed

text \<open>
  C26: What \<open>delete\<close> leaves behind. An unknown id changes nothing. Otherwise the entry is gone, its
  \<open>deleted\<close> flag is set and its slot is free; the uid goes back to the pool only after a sweep that
  found no process of the uid and the removal of the home, and is quarantined in every other
  case, which is reported as an error.
\<close>

theorem reg_delete_outcome:
  assumes "reg_delete K sid w = (Inr r, w')"
  shows "case reg_get (w_sandboxes w) sid of
      None \<Rightarrow> r = None \<and> w' = w
    | Some e \<Rightarrow>
        reg_get (w_sandboxes w') sid = None \<and> e_id e \<in> set (rg_deleted (w_sandboxes w')) \<and>
        rg_reserved (w_sandboxes w') = rg_reserved (w_sandboxes w) - 1 \<and>
        (case r of
           Some (Inr _) \<Rightarrow>
             up_free (rg_uids (w_sandboxes w')) = up_free (rg_uids (w_sandboxes w)) @ [e_uid e] \<and>
             up_quarantined (rg_uids (w_sandboxes w')) = up_quarantined (rg_uids (w_sandboxes w)) \<and>
             (\<exists>s t. pids_of_uid K (e_uid e) s = (Inr [], t) \<and>
                k_remove_dir_all K (e_home e) (kst t) = (Inr (), kst (w_os w')))
         | Some (Inl _) \<Rightarrow>
             up_free (rg_uids (w_sandboxes w')) = up_free (rg_uids (w_sandboxes w)) \<and>
             up_quarantined (rg_uids (w_sandboxes w')) = up_quarantined (rg_uids (w_sandboxes w)) @ [e_uid e]
         | None \<Rightarrow> False)"
proof (cases "reg_get (w_sandboxes w) sid")
  case None
  then have "on_reg (remove_entry sid) w = (Inr None, w)"
    by (simp add: on_reg_eq remove_entry_def reg_get_def remove_absent)
  with assms None show ?thesis by (simp add: reg_delete_def bindE_run returnE_def)
next
  case (Some e)
  let ?g = "w_sandboxes w"
  define w1 where "w1 = w\<lparr>w_sandboxes := ?g\<lparr>rg_map := hm_remove sid (rg_map ?g)\<rparr>\<rparr>"
  have r1: "on_reg (remove_entry sid) w = (Inr (Some e), w1)"
    using Some by (simp add: on_reg_eq remove_entry_def reg_get_def w1_def)
  define g3 where "g3 = ?g\<lparr>rg_map := hm_remove sid (rg_map ?g), rg_deleted := e_id e # rg_deleted ?g, rg_reserved := rg_reserved ?g - 1\<rparr>"
  define w3 where "w3 = w\<lparr>w_sandboxes := g3\<rparr>"
  obtain w2 where r2: "on_reg (mark_deleted e) w1 = (Inr (), w2)" "on_reg unreserve w2 = (Inr (), w3)"
    by (simp add: on_reg_eq mark_deleted_def unreserve_def w1_def w3_def g3_def)
  from assms r1 r2 obtain conv w4 removed w5 where
      r4: "on_os (kill_uid K (e_uid e)) w3 = (Inr conv, w4)" and
      r5: "try_os (path_call (e_home e) (k_remove_dir_all K (e_home e))) w4 = (Inr removed, w5)" and
      r6: "\<exists>u. on_reg (if conv \<and> removed = None then release_uid (e_uid e) else quarantine_uid (e_uid e)) w5 = (Inr u, w')" and
      r7: "if conv \<and> removed = None then r = Some (Inr ()) else (\<exists>m. r = Some (Inl m))"
      by (auto simp: reg_delete_def thenE_def bindE_run bindE_Inr returnE_def split: if_splits option.splits)
  have g5: "w_sandboxes w5 = g3"
    using on_os_reg [OF r4] try_os_reg [OF r5] by (simp add: w3_def)
  have k: "\<exists>s. pids_of_uid K (e_uid e) s = (Inr [], w_os w4)" if conv
    using r4 that by (auto simp: on_os_def kill_uid_def split: prod.splits dest!: kill_rounds_last)
  have d: "k_remove_dir_all K (e_home e) (kst (w_os w4)) = (Inr (), kst (w_os w5))" if "removed = None"
    using r5 that by (auto simp: try_os_def catchE_Inr on_os_def path_call_def sys_def returnE_def throwE_def split: prod.splits if_splits)
  have "w_os w' = w_os w5" using r6 by (auto simp: on_reg_eq)
  with k d have "\<exists>s t. pids_of_uid K (e_uid e) s = (Inr [], t) \<and> k_remove_dir_all K (e_home e) (kst t) = (Inr (), kst (w_os w'))"
    if "conv" "removed = None" using that by metis
  with r6 r7 g5 Some show ?thesis
    by (auto simp: on_reg_eq release_uid_def quarantine_uid_def pool_release_def pool_quarantine_def g3_def reg_get_def
        hm.get_remove split: if_splits)
qed

lemma confine_landlock:
  assumes "confine K home w = (Inr c, w')" and "\<not> rg_allow_unconfined (w_sandboxes w)"
  shows "\<exists>f s. c = Landlock (int f) \<and> build_ruleset K (w_rules w) home s = (Inr f, w_os w')"
  using assms unfolding confine_def
  by (auto simp: catchE_Inr thenE_def bindE_Inr throwE_def returnE_def on_os_def split: prod.splits)

lemma on_os_frame: "on_os m w = (r, w') \<Longrightarrow> w_rules w' = w_rules w \<and> w_sandboxes w' = w_sandboxes w"
  by (auto simp: on_os_def split: prod.splits)

lemma now_ms_log: "on_os (now_ms K) w = (r, w') \<Longrightarrow> log (w_os w') = log (w_os w)"
  by (auto simp: on_os_def now_ms_def split: prod.splits)

text \<open>
  C27: Unless the operator allowed unconfined sandboxes, a sandbox that \<open>create\<close> returns is confined
  by a Landlock ruleset that was built for its own home, after which no further file-system call
  was made; a kernel that cannot build it makes the creation fail.
\<close>

theorem create_fails_closed:
  assumes "create K env mp mm idle w = (Inr (Inr e), w')" and "\<not> rg_allow_unconfined (w_sandboxes w)"
  shows "\<exists>f s t. e_confinement e = Landlock (int f) \<and> e_home e = HOMES_DIR @ ''/'' @ e_id e \<and>
    build_ruleset K (w_rules w) (e_home e) s = (Inr f, t) \<and> log (w_os w') = log t"
proof -
  obtain uid w1 where ci: "create_inner K uid env mp mm idle w1 = (Inr e, w')"
    and w1: "w_rules w1 = w_rules w" "rg_allow_unconfined (w_sandboxes w1) = rg_allow_unconfined (w_sandboxes w)"
    using assms(1)
    by (auto simp: create_def bindE_Inr thenE_def catchE_Inr returnE_def on_reg_eq fetch_reserve_def take_uid_def
        split: if_splits option.splits prod.splits sum.splits)
  from ci obtain sid w2 tok w3 w4 conf w5 w6 w7 c a where
    h: "on_os (random_hex K 8) w1 = (Inr sid, w2)" "on_os (random_hex K 32) w2 = (Inr tok, w3)"
    "on_os (make_home K (HOMES_DIR @ ''/'' @ sid) uid) w3 = (Inr (), w4)" and
    conf: "confine K (HOMES_DIR @ ''/'' @ sid) w4 = (Inr conf, w5)" and
    l: "on_os (now_ms K) w5 = (Inr c, w6)" "on_os (now_ms K) w6 = (Inr a, w7)" "w_os w' = w_os w7" and
    e: "e_confinement e = conf" "e_home e = HOMES_DIR @ ''/'' @ sid" "e_id e = sid"
    by (auto simp: create_inner_def Let_def thenE_def bindE_Inr returnE_def on_reg_eq)
  have "w_rules w4 = w_rules w" "\<not> rg_allow_unconfined (w_sandboxes w4)"
    using h [THEN on_os_frame] w1 assms(2) by simp_all
  then obtain f s where "conf = Landlock (int f)" "build_ruleset K (w_rules w) (HOMES_DIR @ ''/'' @ sid) s = (Inr f, w_os w5)"
    using confine_landlock [OF conf] by auto
  moreover have "log (w_os w') = log (w_os w5)" using l by (auto dest!: now_ms_log)
  ultimately show ?thesis unfolding e by blast
qed

lemma raw_os_log: "raw_os m u = (r, u') \<Longrightarrow> log u' = log u" "log (snd (raw_os m u)) = log u"
  by (auto simp: raw_os_def split: prod.splits)

lemma raw_os_Inr: "raw_os m u = (Inr x, u') \<longleftrightarrow> m (kst u) = (Inr x, kst u') \<and> log u' = log u"
  by (cases u, cases u') (auto simp: raw_os_def split: prod.splits)

text \<open>
  C18: When the hook that runs in the child before exec succeeds for a Landlock sandbox, the child
  has given up new privileges, then restricted itself with the sandbox's ruleset, then limited
  its processes and its address space to the sandbox's limits, in this order.
\<close>

theorem pre_exec_restricts:
  assumes "pre_exec_isolation K e s = (Inr (), t)" and "e_confinement e = Landlock f"
  shows "\<exists>w1 w2 w3 w4. k_prctl_no_new_privs K (kst s) = (Inr (), w1) \<and>
    k_ll_restrict K (nat f) w1 = (Inr (), w2) \<and>
    k_setrlimit K ''NPROC'' (e_max_procs e) w2 = (Inr (), w3) \<and>
    k_setrlimit K ''AS'' (min (e_max_mem_mb e * 1048576) u64_max) w3 = (Inr (), w4) \<and>
    log t = log s @ [(LlRestrict (nat f), None)]"
proof -
  from assms obtain s1 s2 s3 s4 where p: "raw_os (k_prctl_no_new_privs K) s = (Inr (), s1)"
    and r: "sys (LlRestrict (nat f)) (k_ll_restrict K (nat f)) s1 = (Inr (), s2)"
    and n: "raw_os (k_setrlimit K ''NPROC'' (e_max_procs e)) s2 = (Inr (), s3)"
    and m: "raw_os (k_setrlimit K ''AS'' (sat_mul (e_max_mem_mb e) (1024 * 1024))) s3 = (Inr (), s4)"
    and l: "log t = log s4"
    by (auto simp: pre_exec_isolation_def Let_def thenE_def bindE_Inr restrict_self_def ignoreE_def raw_os_log(2))
  from p r n m l show ?thesis by (auto simp: raw_os_Inr sys_Inr sat_mul_def)
qed

text \<open>Creation never reports more than it was clamped to.\<close>

lemma create_loop_counts:
  "create_loop K env mp mm idle todo left created w = (Inr (Created cs rejected), w') \<Longrightarrow>
     length created + left = todo \<Longrightarrow> length cs + rejected \<le> todo"
proof (induction left arbitrary: created w)
  case 0
  then show ?case by (simp add: returnE_def)
next
  case (Suc left)
  then obtain r w1 where "create K env mp mm idle w = (Inr r, w1)" and
    k: "(case r of
       Inr entry \<Rightarrow> create_loop K env mp mm idle todo left (created @ [entry_created_json entry])
     | Inl Full \<Rightarrow> returnE (Created created (todo - length created))
     | Inl (CreateIo e) \<Rightarrow> returnE (CreateFailed e)) w1 = (Inr (Created cs rejected), w')"
    by (auto simp: bindE_Inr)
  show ?case
  proof (cases r)
    case (Inr e)
    with k Suc(1) [of "created @ [entry_created_json e]" w1] Suc(3) show ?thesis by simp
  next
    case (Inl x)
    with k Suc(3) show ?thesis by (cases x) (auto simp: returnE_def)
  qed
qed

text \<open>
  A request for more sandboxes than the host has room for is clamped before the loop, so the
  sandboxes created and the \<open>rejected\<close> count of the answer add up to less than the client asked
  for.
\<close>

theorem create_underreports:
  assumes "remaining_capacity (w_sandboxes w) < requested"
    and "create_loop K env mp mm idle (min requested (remaining_capacity (w_sandboxes w)))
      (min requested (remaining_capacity (w_sandboxes w))) [] w = (Inr (Created cs rejected), w')"
  shows "length cs + rejected < requested"
  using create_loop_counts [OF assms(2)] assms(1) by simp

section \<open>Witnesses\<close>

definition demo_sb :: "nat sb_kernel" where
  "demo_sb = ll_kernel.extend demo_ll
     (sb_kernel.fields (\<lambda>n. returnE (replicate n CHR ''a'')) (\<lambda>w. (5, w)) (\<lambda>p m. returnE ()) (\<lambda>p u. returnE ())
       (\<lambda>p. returnE ''x'') (\<lambda>p s. returnE ()) (\<lambda>n. returnE ()) (returnE ()) (\<lambda>r n. returnE ()))"

lemmas demo_sb_simps = demo_sb_def ll_kernel.defs sb_kernel.defs demo_ll_simps

definition demo_reg :: "sandbox_entry list \<Rightarrow> nat \<Rightarrow> registry" where
  "demo_reg es cap = \<lparr>rg_map = map (\<lambda>e. (e_id e, e)) es, rg_capacity = cap, rg_reserved = length es,
     rg_allow_unconfined = False, rg_uids = \<lparr>up_next = length es, up_free = [], up_quarantined = []\<rparr>, rg_deleted = []\<rparr>"

definition demo_world :: "sandbox_entry list \<Rightarrow> nat \<Rightarrow> nat world" where
  "demo_world es cap = \<lparr>w_os = \<lparr>kst = 9, log = []\<rparr>, w_auth = DisabledForDevelopment, w_started_at_ms = 0,
     w_last_activity_ms = 0, w_procs = \<lparr>pg_procs = [], pg_seq = 0, pg_active = 0\<rparr>, w_sandboxes = demo_reg es cap,
     w_host_mode = True, w_handles = [], w_owned = [], w_rules = []\<rparr>"

abbreviation demo_sandbox :: sandbox_entry where
  "demo_sandbox \<equiv> \<lparr>e_id = ''ab'', e_uid = 20000, e_home = ''/sbx/homes/ab'', e_created_at_ms = 0, e_env = [], e_max_procs = 1,
     e_max_mem_mb = 1, e_token = ''t'', e_confinement = Landlock 4, e_last_activity_ms = 0, e_idle_timeout_ms = 0\<rparr>"

theorem host_registry_safe_witness:
  "\<exists>w. reach host_init (host_step demo_sb) (w, [Idle, Idle]) \<and> live_uids (w_sandboxes w) = [20000] \<and>
     reg_count (w_sandboxes w) \<le> rg_capacity (w_sandboxes w)"
proof -
  let ?w0 = "demo_world [] 1" and ?e = demo_sandbox
  let ?g1 = "(w_sandboxes ?w0)\<lparr>rg_reserved := 1\<rparr>"
  let ?w1 = "?w0\<lparr>w_sandboxes := ?g1\<rparr>"
  let ?w2 = "?w0\<lparr>w_sandboxes := ?g1\<lparr>rg_uids := \<lparr>up_next = 1, up_free = [], up_quarantined = []\<rparr>\<rparr>\<rparr>"
  let ?w3 = "?w2\<lparr>w_sandboxes := (w_sandboxes ?w2)\<lparr>rg_map := [(''ab'', ?e)]\<rparr>\<rparr>"
  have r0: "reach host_init (host_step demo_sb) (?w0, [] @ Idle # [Idle])"
    by (rule reach_init) (auto simp: host_init_def demo_world_def demo_reg_def with_reserved_def)
  have s1: "runs demo_sb (?w0, [] @ Idle # [Idle]) (?w1, [] @ SlotHeld # [Idle])"
    using t_reserve [of ?w0 0 ?w1 demo_sb] by (intro runs_thread) (simp add: on_reg_eq fetch_reserve_def demo_world_def demo_reg_def)
  have s2: "runs demo_sb (?w1, [] @ SlotHeld # [Idle]) (?w2, [] @ Building 20000 # [Idle])"
    using t_take [of demo_sb ?w1 "Some 20000" ?w2]
    by (intro runs_thread) (simp add: take_uid_def pool_take_def bindE_def returnE_def take_fresh.simps UID_BASE_def UID_MAX_def
        demo_world_def demo_reg_def)
  have s3: "runs demo_sb (?w2, [] @ Building 20000 # [Idle]) (?w3, [] @ Idle # [Idle])"
    using t_insert [of ?e 20000 ?w2 "()" ?w3 demo_sb]
    by (intro runs_thread) (simp add: on_reg_eq insert_entry_def reg_get_def hm_get_def hm_insert_def demo_world_def demo_reg_def)
  have r: "reach host_init (host_step demo_sb) (?w3, [Idle, Idle])"
    using reach_runs [OF reach_runs [OF reach_runs [OF r0 s1] s2] s3] unfolding append_Nil .
  have l: "live_uids (w_sandboxes ?w3) = [20000]" by (simp add: live_uids_def)
  have c: "reg_count (w_sandboxes ?w3) \<le> rg_capacity (w_sandboxes ?w3)"
    using host_registry_safe [OF r] by (rule conjunct1)
  show ?thesis by (rule exI [where x = ?w3], intro conjI) (rule r, rule l, rule c)
qed

lemma kill_uid_none:
  assumes "pids_of_uid K uid s = (Inr [], t)"
  shows "kill_uid K uid s = (Inr True, t)"
proof -
  have "kill_rounds K uid (Suc n) s = (Inr True, t)" for n
    using assms by (simp add: bindE_run returnE_def)
  from this [of 99] show ?thesis by (simp add: kill_uid_def)
qed

text \<open>A sweep that cannot read \<open>/proc\<close> finds nobody and reports success without a signal.\<close>

lemma kill_uid_fails_open:
  assumes "\<And>w. \<exists>e w'. k_read_dir K ''/proc'' w = (Inl e, w')"
  shows "\<exists>t. kill_uid K uid s = (Inr True, t)"
proof -
  have "\<exists>t. pids_of_uid K uid s = (Inr [], t)" for s
    using assms [of "kst s"] by (auto simp: pids_of_uid_def path_call_def sys_def catchE_def bindE_def returnE_def split: prod.split)
  then show ?thesis using kill_uid_none by blast
qed

lemma demo_delete: "\<exists>w'. reg_delete demo_sb ''ab'' (demo_world [demo_sandbox] 1) = (Inr (Some (Inr ())), w')"
proof -
  let ?w1 = "(demo_world [demo_sandbox] 1)\<lparr>w_sandboxes := snd (remove_entry ''ab'' (demo_reg [demo_sandbox] 1))\<rparr>"
  let ?w2 = "?w1\<lparr>w_sandboxes := snd (mark_deleted demo_sandbox (w_sandboxes ?w1))\<rparr>"
  let ?w3 = "?w2\<lparr>w_sandboxes := snd (unreserve (w_sandboxes ?w2))\<rparr>"
  have "\<exists>t. kill_uid demo_sb uid s = (Inr True, t)" for uid s
    by (intro exI, rule kill_uid_none) (simp add: pids_of_uid_def path_call_def sys_def catchE_def returnE_def bindE_def demo_sb_simps)
  then have "\<exists>t. on_os (kill_uid demo_sb uid) w = (Inr True, w\<lparr>w_os := t\<rparr>)" for uid and w :: "nat world"
    unfolding on_os_def by (metis (mono_tags, lifting) prod.case)
  then obtain t1 where k: "on_os (kill_uid demo_sb (e_uid demo_sandbox)) ?w3 = (Inr True, ?w3\<lparr>w_os := t1\<rparr>)" by blast
  have "\<exists>t. try_os (path_call h (k_remove_dir_all demo_sb h)) w = (Inr None, w\<lparr>w_os := t\<rparr>)" for h and w :: "nat world"
    by (simp add: try_os_def on_os_def catchE_def path_call_def sys_def returnE_def demo_sb_simps, rule exI, rule refl)
  then obtain t2 where d: "try_os (path_call (e_home demo_sandbox) (k_remove_dir_all demo_sb (e_home demo_sandbox))) (?w3\<lparr>w_os := t1\<rparr>) =
    (Inr None, ?w3\<lparr>w_os := t1, w_os := t2\<rparr>)" by blast
  have r: "on_reg (remove_entry ''ab'') (demo_world [demo_sandbox] 1) = (Inr (Some demo_sandbox), ?w1)"
    by (simp add: on_reg_eq remove_entry_def demo_world_def demo_reg_def hm_get_def)
  have m: "on_reg (mark_deleted demo_sandbox) ?w1 = (Inr (), ?w2)" "on_reg unreserve ?w2 = (Inr (), ?w3)"
    by (simp_all add: on_reg_eq)
  show ?thesis
    by (simp only: reg_delete_def bindE_def thenE_def r m k d prod.case sum.case option.case)
       (simp add: bindE_def on_reg_def release_uid_def returnE_def)
qed

theorem reg_delete_outcome_witness:
  "\<exists>w'. reg_delete demo_sb ''ab'' (demo_world [demo_sandbox] 1) = (Inr (Some (Inr ())), w') \<and>
     up_free (rg_uids (w_sandboxes w')) = [20000]"
proof -
  obtain w' where w': "reg_delete demo_sb ''ab'' (demo_world [demo_sandbox] 1) = (Inr (Some (Inr ())), w')" using demo_delete by blast
  have "reg_get (w_sandboxes (demo_world [demo_sandbox] 1)) ''ab'' = Some demo_sandbox"
    "up_free (rg_uids (w_sandboxes (demo_world [demo_sandbox] 1))) = []"
    by (simp_all add: reg_get_def hm_get_def demo_world_def demo_reg_def)
  with reg_delete_outcome [OF w'] w' show ?thesis by auto
qed

lemma chown_into_home_ok: "\<exists>t. chown_into_home K home p uid s = (Inr (), t)"
proof (induction K home p uid arbitrary: s rule: chown_into_home.induct)
  case (1 K home uid)
  then show ?case by (simp add: chown_into_home.simps returnE_def)
next
  case (2 K home p uid)
  have "\<exists>u. chown K p uid s = (Inr (), u)" by (simp add: chown_def ignoreE_def returnE_def)
  with 2 show ?case by (auto simp: chown_into_home.simps(2) returnE_def thenE_def bindE_def)
qed

lemma demo_ruleset:
  assumes "NUL \<notin> set h"
  shows "\<exists>f t. build_ruleset demo_sb rules h s = (Inr f, t)"
proof -
  have sys: "sys c m s = (Inr (), s\<lparr>log := log s @ [(c, None)]\<rparr>)" if "m = returnE ()" for c s and m :: "(nat, unit) io"
    using that by (simp add: sys_def returnE_def)
  obtain s1 where s1: "sys_fd (LlCreate (handled_fs_for 6) (handled_net 6) (scoped_bits 6)) (\<lambda>w. (Inr w, Suc w)) s = (Inr (kst s), s1)"
    by (simp add: sys_fd_def)
  obtain s2 where s2: "add_system_rules demo_sb (kst s) rules s1 = (Inr (), s2)"
    using add_system_rules_log [of demo_sb "kst s" rules s1] by blast
  have "\<exists>t. add_path_rule demo_sb (kst s) h (handled_fs_for 6) s2 = (Inr (), t)"
    using assms by (simp add: add_path_rule_def open_o_path_def catchE_def bindE_def sys_fd_def add_fd_rule_def close_fd_def
        ignoreE_def sys_def returnE_def demo_sb_simps)
  then obtain t where "add_path_rule demo_sb (kst s) h (handled_fs_for 6) s2 = (Inr (), t)" by blast
  note p = this
  have k: "k_abi demo_sb = 6" "k_ll_create demo_sb = (\<lambda>h n c w. (Inr w, Suc w))" by (simp_all add: demo_sb_simps)
  have "build_ruleset demo_sb rules h s = (Inr (kst s), t)"
    by (simp add: build_ruleset_def Let_def k bindE_def thenE_def s1 s2 catchE_def p returnE_def)
  then show ?thesis by blast
qed

lemma demo_hex: "on_os (random_hex demo_sb n) w = (Inr (concat (replicate n ''61'')), w)"
  by (simp add: random_hex_def on_os_def raw_os_def bindE_def returnE_def demo_sb_simps hex_byte_def digit_char_def str_eval
      map_replicate_const)

lemma demo_home: "\<exists>t. on_os (make_home demo_sb h uid) w = (Inr (), w\<lparr>w_os := t\<rparr>)"
proof -
  have "\<exists>t. make_home demo_sb h uid s = (Inr (), t)" for s
    using chown_into_home_ok [of demo_sb h "Some (h @ ''/'' @ PROXY_SUBDIR)" uid]
    by (simp add: make_home_def Let_def thenE_def bindE_def ignoreE_def path_call_def sys_def returnE_def demo_sb_simps)
  then obtain t where "make_home demo_sb h uid (w_os w) = (Inr (), t)" by blast
  then show ?thesis by (auto simp: on_os_def)
qed

lemma demo_confine:
  assumes "NUL \<notin> set h"
  shows "\<exists>c t. confine demo_sb h w = (Inr c, w\<lparr>w_os := t\<rparr>)"
proof -
  obtain f t where "build_ruleset demo_sb (w_rules w) h (w_os w) = (Inr f, t)" using demo_ruleset [OF assms] by blast
  then show ?thesis by (auto simp: confine_def catchE_def on_os_def returnE_def)
qed

lemma demo_create: "\<exists>e w'. create demo_sb [] None None 0 (demo_world [] 1) = (Inr (Inr e), w')"
proof -
  have inner: "\<exists>e w'. create_inner demo_sb uid [] None None 0 w = (Inr e, w')" for uid w
  proof -
    let ?h = "HOMES_DIR @ ''/'' @ concat (replicate 8 ''61'')"
    obtain t1 where h: "on_os (make_home demo_sb ?h uid) w = (Inr (), w\<lparr>w_os := t1\<rparr>)" using demo_home by blast
    have "NUL \<notin> set ?h" by (auto simp: HOMES_DIR_def NUL_def)
    then obtain c t2 where c: "confine demo_sb ?h (w\<lparr>w_os := t1\<rparr>) = (Inr c, w\<lparr>w_os := t1, w_os := t2\<rparr>)"
      using demo_confine by blast
    have n: "on_os (now_ms demo_sb) w' = (Inr 5, w')" for w'
      by (simp add: on_os_def now_ms_def demo_sb_simps)
    show ?thesis
      by (simp only: create_inner_def Let_def thenE_def bindE_def demo_hex h c n prod.case sum.case)
         (simp add: on_reg_def insert_entry_def returnE_def)
  qed
  have r: "on_reg fetch_reserve (demo_world [] 1) = (Inr 0, (demo_world [] 1)\<lparr>w_sandboxes := (demo_reg [] 1)\<lparr>rg_reserved := 1\<rparr>\<rparr>)"
    by (simp add: on_reg_eq fetch_reserve_def demo_world_def demo_reg_def)
  have t: "\<exists>w'. take_uid demo_sb ((demo_world [] 1)\<lparr>w_sandboxes := (demo_reg [] 1)\<lparr>rg_reserved := 1\<rparr>\<rparr>) = (Inr (Some 20000), w')"
    by (simp add: take_uid_def pool_take_def bindE_def returnE_def take_fresh.simps UID_BASE_def UID_MAX_def
        demo_world_def demo_reg_def)
  then obtain w2 where t: "take_uid demo_sb ((demo_world [] 1)\<lparr>w_sandboxes := (demo_reg [] 1)\<lparr>rg_reserved := 1\<rparr>\<rparr>) = (Inr (Some 20000), w2)"
    by blast
  obtain e w3 where "create_inner demo_sb 20000 [] None None 0 w2 = (Inr e, w3)" using inner by blast
  note i = this
  have c: "\<not> rg_capacity (w_sandboxes (demo_world [] 1)) \<le> 0" by (simp add: demo_world_def demo_reg_def)
  have "create demo_sb [] None None 0 (demo_world [] 1) = (Inr (Inr e), w3)"
    by (simp only: create_def bindE_def r prod.case sum.case c t if_False option.case catchE_def i returnE_def)
  then show ?thesis by blast
qed

theorem create_fails_closed_witness:
  "\<exists>e w' f. create demo_sb [] None None 0 (demo_world [] 1) = (Inr (Inr e), w') \<and> e_confinement e = Landlock (int f)"
proof -
  obtain e w' where c: "create demo_sb [] None None 0 (demo_world [] 1) = (Inr (Inr e), w')" using demo_create by blast
  have "\<not> rg_allow_unconfined (w_sandboxes (demo_world [] 1))" by (simp add: demo_world_def demo_reg_def)
  from create_fails_closed [OF c this] c show ?thesis by blast
qed

theorem pre_exec_restricts_witness:
  "\<exists>t. pre_exec_isolation demo_sb demo_sandbox \<lparr>kst = 0, log = []\<rparr> = (Inr (), t) \<and> log t = [(LlRestrict 4, None)]"
proof -
  have "\<exists>t. pre_exec_isolation demo_sb demo_sandbox \<lparr>kst = 0, log = []\<rparr> = (Inr (), t)"
    by (simp add: pre_exec_isolation_def thenE_def bindE_def raw_os_def restrict_self_def sys_def ignoreE_def returnE_def demo_sb_simps)
  then obtain t where t: "pre_exec_isolation demo_sb demo_sandbox \<lparr>kst = 0, log = []\<rparr> = (Inr (), t)" by blast
  from pre_exec_restricts [OF t, of 4] t show ?thesis by auto
qed

theorem create_underreports_witness:
  "\<exists>w'. create_loop demo_sb [] None None 0 0 0 [] (demo_world [] 0) = (Inr (Created [] 0), w') \<and> length ([]::json list) + 0 < (1::nat)"
proof -
  have "create_loop demo_sb [] None None 0 (min 1 (remaining_capacity (w_sandboxes (demo_world [] 0))))
      (min 1 (remaining_capacity (w_sandboxes (demo_world [] 0)))) [] (demo_world [] 0) = (Inr (Created [] 0), demo_world [] 0)"
    by (simp add: remaining_capacity_def demo_world_def demo_reg_def returnE_def)
  from create_underreports [OF _ this] this show ?thesis
    by (simp add: remaining_capacity_def demo_world_def demo_reg_def)
qed

theorem operations_run_machine_witness:
  "\<exists>e w'. create demo_sb [] None None 0 (demo_world [] 1) = (Inr (Inr e), w') \<and>
     runs demo_sb (demo_world [] 1, [] @ Idle # []) (w', [] @ Idle # [])"
proof -
  obtain e w' where c: "create demo_sb [] None None 0 (demo_world [] 1) = (Inr (Inr e), w')" using demo_create by blast
  have "reg_get (w_sandboxes (demo_world [] 1)) sid = None" for sid
    by (simp add: reg_get_def hm_get_def demo_world_def demo_reg_def)
  then have "\<forall>ea. Inr e = Inr ea \<longrightarrow> reg_get (w_sandboxes (demo_world [] 1)) (e_id ea) = None" by simp
  from operations_run_machine [OF disjI1, OF conjI, OF c this, of "[]" "[]"] c
  show ?thesis by (intro exI conjI)
qed

end
