(* ===== verification/Exec.thy ===== *)
theory Exec
  imports Sandbox_Pool
begin

text \<open>
  Command execution, \<open>src/exec.rs\<close>: the request body, spawning, handles and signals, the waiter of
  a command, the orphan reaper, the event stream and the handlers. (\<open>ProcRegistry\<close> is in \<open>Procs\<close>.)

  Threads. Each definition is what one thread does between two points where others may run:
  \<open>spawn\<close> holds the sandbox's \<open>deleted\<close> lock and the lock of \<open>OWNED_PIDS\<close>, \<open>kill_tree\<close> and
  \<open>reap_child\<close> hold the handle's \<open>running\<close> lock, an iteration of the reaper holds the lock of
  \<open>OWNED_PIDS\<close>. What the reader, waiter and pump threads of a command deliver to its channel is the
  list of outcomes of \<open>recv_timeout\<close> that the handler is given.
\<close>

section \<open>The operating system's processes\<close>

text \<open>
  What \<open>std::process::Command\<close> was told. \<open>cm_isolate\<close> is the sandbox whose \<open>pre_exec_isolation\<close>
  hook the child runs between fork and exec.
\<close>

record command =
  cm_argv :: "string list"
  cm_stdin_piped :: bool
  cm_process_group :: "nat option"
  cm_env_clear :: bool
  cm_envs :: "(string \<times> string) list"
  cm_uid :: "nat option"
  cm_gid :: "nat option"
  cm_isolate :: "sandbox_entry option"
  cm_current_dir :: "string option"

text \<open>
  \<open>k_spawn\<close> is fork and exec of a command, with the new pid; \<open>k_pidfd_open\<close> and
  \<open>k_pidfd_send_signal\<close> the two system calls; \<open>k_waitid_exited\<close> waits for a child to exit and
  leaves it waitable (\<open>WEXITED | WNOWAIT\<close>); \<open>k_wait\<close> is \<open>Child::wait\<close>, with exit code and signal;
  \<open>k_peek_any\<close> is \<open>waitid(P_ALL, WEXITED | WNOHANG | WNOWAIT)\<close>, with the pid or 0; \<open>k_waitpid\<close> is
  \<open>waitpid(pid, WNOHANG)\<close>.
\<close>

record 'w ex_kernel = "'w sb_kernel" +
  k_spawn :: "command \<Rightarrow> ('w, nat) io"
  k_pidfd_open :: "nat \<Rightarrow> ('w, fd) io"
  k_pidfd_send_signal :: "fd \<Rightarrow> nat \<Rightarrow> ('w, unit) io"
  k_waitid_exited :: "nat \<Rightarrow> ('w, unit) io"
  k_wait :: "nat \<Rightarrow> ('w, int option \<times> int option) io"
  k_peek_any :: "('w, nat) io"
  k_waitpid :: "nat \<Rightarrow> ('w, int) io"

section \<open>The request\<close>

record exec_spec =
  sp_argv :: "string list"
  sp_cmd_json :: json
  sp_env :: "(string, string) hashmap"
  sp_cwd :: "string option"
  sp_timeout_secs :: "number option"
  sp_stdin :: "string option"
  sp_background :: bool
  sp_tag :: "string option"
  sp_sandbox :: "sandbox_entry option"

text \<open>\<open>collect::<Result<Vec<_>, _>>\<close> of the items' strings.\<close>

fun all_strings :: "json list \<Rightarrow> string + string list" where
  "all_strings [] = Inr []"
| "all_strings (j # js) =
     (case as_str j of
        None \<Rightarrow> Inl ''cmd array items must be strings''
      | Some s \<Rightarrow> (case all_strings js of Inl e \<Rightarrow> Inl e | Inr ss \<Rightarrow> Inr (s # ss)))"

definition argv_of :: "bool option \<Rightarrow> json option \<Rightarrow> string + string list" where
  "argv_of shell cmd =
     (case (shell, cmd) of
        (Some True, Some (JString s)) \<Rightarrow> Inr [''/bin/sh'', ''-c'', s]
      | (None, Some (JString s)) \<Rightarrow> Inr [''/bin/sh'', ''-c'', s]
      | (Some False, Some (JArray items)) \<Rightarrow>
          (case all_strings items of Inl e \<Rightarrow> Inl e
           | Inr argv \<Rightarrow> if argv = [] then Inl ''cmd array must not be empty'' else Inr argv)
      | (None, Some (JArray items)) \<Rightarrow>
          (case all_strings items of Inl e \<Rightarrow> Inl e
           | Inr argv \<Rightarrow> if argv = [] then Inl ''cmd array must not be empty'' else Inr argv)
      | (Some True, _) \<Rightarrow> Inl (''shell=true requires '' @ squote ''cmd'' @ '' to be a string'')
      | (Some False, _) \<Rightarrow> Inl (''shell=false requires '' @ squote ''cmd'' @ '' to be an array of strings'')
      | (None, _) \<Rightarrow> Inl (''missing '' @ squote ''cmd'' @ '' (string or array of strings)''))"

definition from_json :: "json \<Rightarrow> string + exec_spec" where
  "from_json body =
     (case argv_of (Option.bind (json_get body ''shell'') as_bool) (json_get body ''cmd'') of
        Inl e \<Rightarrow> Inl e
      | Inr argv \<Rightarrow> Inr
          \<lparr>sp_argv = argv,
           sp_cmd_json = opt_or (json_get body ''cmd'') JNull,
           sp_env = json_string_map body ''env'',
           sp_cwd = Option.bind (json_get body ''cwd'') as_str,
           sp_timeout_secs = Option.bind (json_get body ''timeout'') as_f64,
           sp_stdin = Option.bind (json_get body ''stdin'') as_str,
           sp_background = opt_or (Option.bind (json_get body ''background'') as_bool) False,
           sp_tag = Option.bind (json_get body ''tag'') as_str,
           sp_sandbox = None\<rparr>)"

section \<open>Events\<close>

definition PING_CHUNK :: string where
  "PING_CHUNK = [CHR 0x7B, CHR 0x22] @ ''event'' @ [CHR 0x22, CHR '':'', CHR 0x22] @ ''ping'' @ [CHR 0x22, CHR 0x7D, LF]"

fun event_json :: "event \<Rightarrow> json" where
  "event_json (Stdout d) = JObject [(''event'', JString ''stdout''), (''data'', JString d)]"
| "event_json (Stderr d) = JObject [(''event'', JString ''stderr''), (''data'', JString d)]"
| "event_json (Exit info) = JObject [
     (''event'', JString ''exit''), (''exit_code'', json_opt JInt (ex_code info)),
     (''signal'', json_opt JInt (ex_signal info)), (''timed_out'', JBool (ex_timed_out info)),
     (''duration_ms'', JInt (sint (ex_duration_ms info)))]"

definition to_line :: "codec \<Rightarrow> event \<Rightarrow> string" where
  "to_line C ev = to_vec C (event_json ev) @ [LF]"

section \<open>Handles and signals\<close>

text \<open>Handles are shared; a command refers to its own by its index in the table.\<close>

definition handle_open :: "('w, 'z) ex_kernel_scheme \<Rightarrow> nat \<Rightarrow> ('w osw, proc_handle) io" where
  "handle_open K pid =
     catchE (raw_os (k_pidfd_open K pid))
       (\<lambda>f. returnE \<lparr>ph_pid = pid, ph_pidfd = Some f, ph_running = True, ph_timed_out = False\<rparr>)
       (\<lambda>_. returnE \<lparr>ph_pid = pid, ph_pidfd = None, ph_running = True, ph_timed_out = False\<rparr>)"

definition signal_leader :: "('w, 'z) ex_kernel_scheme \<Rightarrow> nat \<Rightarrow> proc_handle \<Rightarrow> ('w osw, bool) io" where
  "signal_leader K signal h =
     catchE (case ph_pidfd h of
               Some f \<Rightarrow> raw_os (k_pidfd_send_signal K f signal)
             | None \<Rightarrow> sys_kill K (int (ph_pid h)) signal)
       (\<lambda>_. returnE True) (\<lambda>_. returnE False)"

definition set_handle :: "nat \<Rightarrow> (proc_handle \<Rightarrow> proc_handle) \<Rightarrow> ('w world, unit) io" where
  "set_handle i f w = (Inr (), w\<lparr>w_handles := (w_handles w)[i := f (w_handles w ! i)]\<rparr>)"

text \<open>\<open>kill_tree\<close>; \<open>timeout\<close> says whether the caller passed the \<open>timed_out\<close> flag.\<close>

definition kill_tree :: "('w, 'z) ex_kernel_scheme \<Rightarrow> nat \<Rightarrow> bool \<Rightarrow> nat \<Rightarrow> ('w world, bool) io" where
  "kill_tree K signal timeout i w =
     (let h = w_handles w ! i in
      if \<not> ph_running h then (Inr False, w)
      else thenE (if timeout then set_handle i (\<lambda>h. h\<lparr>ph_timed_out := True\<rparr>) else returnE ())
          (thenE (ignoreE (on_os (sys_kill K (- int (ph_pid h)) signal)))
             (on_os (signal_leader K signal h))) w)"

section \<open>Spawning\<close>

definition command_of :: "exec_spec \<Rightarrow> command" where
  "command_of spec =
     (case sp_sandbox spec of
        Some sbx \<Rightarrow>
          \<lparr>cm_argv = sp_argv spec, cm_stdin_piped = (sp_stdin spec \<noteq> None), cm_process_group = Some 0,
           cm_env_clear = True, cm_envs = base_env sbx @ sp_env spec,
           cm_uid = Some (e_uid sbx), cm_gid = Some (e_uid sbx), cm_isolate = Some sbx,
           cm_current_dir = Some (opt_or (sp_cwd spec) (e_home sbx))\<rparr>
      | None \<Rightarrow>
          \<lparr>cm_argv = sp_argv spec, cm_stdin_piped = (sp_stdin spec \<noteq> None), cm_process_group = Some 0,
           cm_env_clear = False, cm_envs = sp_env spec,
           cm_uid = None, cm_gid = None, cm_isolate = None, cm_current_dir = sp_cwd spec\<rparr>)"

text \<open>The environment a command starts with, given the environment \<open>host\<close> of the server.\<close>

definition final_env :: "(string, string) hashmap \<Rightarrow> command \<Rightarrow> (string, string) hashmap" where
  "final_env host cmd = foldl (\<lambda>env (k, v). hm_insert k v env) (if cm_env_clear cmd then [] else host) (cm_envs cmd)"

text \<open>
  \<open>spawn\<close>: the pid and the handle of the new command, or the message of the 400 answer. The list
  of owned pids is a set, so inserting a pid twice changes nothing.
\<close>

definition spawn :: "('w, 'z) ex_kernel_scheme \<Rightarrow> exec_spec \<Rightarrow> ('w world, string + nat \<times> nat) io" where
  "spawn K spec w =
     (if (case sp_sandbox spec of Some sbx \<Rightarrow> e_id sbx \<in> set (rg_deleted (w_sandboxes w)) | None \<Rightarrow> False)
      then (Inr (Inl ''sandbox has been deleted''), w)
      else catchE (on_os (raw_os (k_spawn K (command_of spec))))
        (\<lambda>pid. thenE (\<lambda>w. (Inr (), w\<lparr>w_owned := List.insert pid (w_owned w)\<rparr>))
          (bindE (on_os (handle_open K pid)) (\<lambda>h. \<lambda>w.
             (Inr (Inr (pid, length (w_handles w))), w\<lparr>w_handles := w_handles w @ [h]\<rparr>))))
        (\<lambda>e. returnE (Inl (''failed to spawn '' @ squote (hd (sp_argv spec)) @ '': '' @ error_text K e))) w)"

definition untrack_owned :: "nat \<Rightarrow> ('w world, unit) io" where
  "untrack_owned pid w = (Inr (), w\<lparr>w_owned := remove1 pid (w_owned w)\<rparr>)"

section \<open>Waiting for a command\<close>

text \<open>
  The deadline of a command with a timeout. \<open>timeout_ms\<close> is \<open>(secs * 1000.0) as i64\<close> on an IEEE
  binary64 value: the product is rounded to 53 significant bits, ties to even, and the cast
  truncates towards zero and saturates, with 0 for NaN. (A product outside the range of
  binary64 saturates the cast as the exact one does, and one in its subnormal range truncates to 0
  as the exact one does.) An integer of the request is rounded to 53 bits first, as \<open>as_f64\<close> does.
\<close>

fun bit_length :: "nat \<Rightarrow> nat" where
  "bit_length n = (if n = 0 then 0 else Suc (bit_length (n div 2)))"

declare bit_length.simps [simp del]

definition round53 :: "nat \<Rightarrow> nat" where
  "round53 m =
     (let k = bit_length m - 53 in
      if k = 0 then m
      else (let q = m div 2 ^ k; r = m mod 2 ^ k; half = 2 ^ (k - 1)
            in (if half < r \<or> r = half \<and> odd q then q + 1 else q) * 2 ^ k))"

definition scale2 :: "nat \<Rightarrow> int \<Rightarrow> nat" where
  "scale2 m e = (if 0 \<le> e then m * 2 ^ nat e else m div 2 ^ nat (- e))"

definition sat_i64 :: "int \<Rightarrow> int" where
  "sat_i64 i = max (- 9223372036854775808) (min i 9223372036854775807)"

definition signed_ms :: "bool \<Rightarrow> nat \<Rightarrow> int \<Rightarrow> int" where
  "signed_ms neg m e =
     (let v = int (scale2 (round53 (m * 1000)) e) in sat_i64 (if neg then - v else v))"

fun timeout_ms :: "number \<Rightarrow> int" where
  "timeout_ms (NInt i) = signed_ms (i < 0) (round53 (nat \<bar>i\<bar>)) 0"
| "timeout_ms (NFloat b) =
     (let neg = bit b 63; ex = unat (drop_bit 52 b AND 0x7FF); fr = unat (b AND 0xFFFFFFFFFFFFF)
      in if ex = 2047 then (if fr \<noteq> 0 then 0 else sat_i64 (if neg then - (2 ^ 64) else 2 ^ 64))
         else if ex = 0 then signed_ms neg fr (- 1074)
         else signed_ms neg (fr + 2 ^ 52) (int ex - 1075))"

text \<open>How long the watcher sleeps before it kills the command, on the clock's \<open>i64\<close>.\<close>

definition watcher_sleep :: "i64 \<Rightarrow> number \<Rightarrow> i64 \<Rightarrow> nat" where
  "watcher_sleep started_at secs now =
     (let deadline = started_at + word_of_int (timeout_ms secs) in nat (max 0 (sint (deadline - now))))"

text \<open>The watcher's action when the sleep ends before the command does.\<close>

definition timeout_fires :: "('w, 'z) ex_kernel_scheme \<Rightarrow> nat \<Rightarrow> ('w world, bool) io" where
  "timeout_fires K i = kill_tree K SIGKILL True i"

text \<open>
  \<open>waitid\<close> until it is not interrupted. Nothing in the source bounds the interruptions; a run that
  never ends is \<open>None\<close>.
\<close>

partial_function (option) await_exit :: "('w, 'z) ex_kernel_scheme \<Rightarrow> nat \<Rightarrow> 'w osw \<Rightarrow> 'w osw option" where
  "await_exit K pid s =
     (case raw_os (k_waitid_exited K pid) s of
        (Inr _, s') \<Rightarrow> Some s'
      | (Inl e, s') \<Rightarrow> if kind e \<noteq> Interrupted then Some s' else await_exit K pid s')"

text \<open>The section under the \<open>running\<close> lock: \<open>child.wait()\<close>, then \<open>*running = false\<close>.\<close>

definition reap_child :: "('w, 'z) ex_kernel_scheme \<Rightarrow> nat \<Rightarrow> ('w world, (int option \<times> int option) option) io" where
  "reap_child K i w =
     bindE (catchE (on_os (raw_os (k_wait K (ph_pid (w_handles w ! i)))))
              (\<lambda>st. returnE (Some st)) (\<lambda>_. returnE None)) (\<lambda>status.
       thenE (set_handle i (\<lambda>h. h\<lparr>ph_running := False\<rparr>)) (returnE status)) w"

definition exit_info_of ::
  "('w, 'z) ex_kernel_scheme \<Rightarrow> nat \<Rightarrow> i64 \<Rightarrow> (int option \<times> int option) option \<Rightarrow> ('w world, exit_info) io" where
  "exit_info_of K i started_at status =
     (\<lambda>w. bindE (on_os (now_ms K)) (\<lambda>now. returnE
        (case status of
           Some (code, signal) \<Rightarrow>
             \<lparr>ex_code = code, ex_signal = signal, ex_timed_out = ph_timed_out (w_handles w ! i),
              ex_duration_ms = now - started_at\<rparr>
         | None \<Rightarrow>
             \<lparr>ex_code = None, ex_signal = None, ex_timed_out = False, ex_duration_ms = now - started_at\<rparr>)) w)"

text \<open>The waiter with nobody running in between; its result is the event it sends.\<close>

definition wait_and_report :: "('w, 'z) ex_kernel_scheme \<Rightarrow> nat \<Rightarrow> i64 \<Rightarrow> 'w world \<Rightarrow> (event result \<times> 'w world) option" where
  "wait_and_report K i started_at w =
     (let pid = ph_pid (w_handles w ! i) in
      case await_exit K pid (w_os w) of
        None \<Rightarrow> None
      | Some s \<Rightarrow> Some
          (bindE (reap_child K i) (\<lambda>status.
           thenE (untrack_owned pid)
          (bindE (exit_info_of K i started_at status) (\<lambda>info. returnE (Exit info)))) (w\<lparr>w_os := s\<rparr>)))"

section \<open>The orphan reaper\<close>

text \<open>
  One iteration, under the lock of \<open>OWNED_PIDS\<close>: the pid it reaped, or \<open>None\<close> where the source
  breaks out of the loop.
\<close>

definition reaper_iter :: "('w, 'z) ex_kernel_scheme \<Rightarrow> ('w world, nat option) io" where
  "reaper_iter K =
     catchE (on_os (raw_os (k_peek_any K)))
       (\<lambda>pid. \<lambda>w.
          if pid = 0 then (Inr None, w)
          else if pid \<in> set (w_owned w) then (Inr None, w)
          else catchE (on_os (raw_os (k_waitpid K pid)))
                 (\<lambda>r. returnE (if r \<le> 0 then None else Some pid)) (\<lambda>_. returnE None) w)
       (\<lambda>_. returnE None)"

fun reaper_tick :: "('w, 'z) ex_kernel_scheme \<Rightarrow> nat \<Rightarrow> ('w world, unit) io" where
  "reaper_tick K 0 = returnE ()"
| "reaper_tick K (Suc n) =
     bindE (reaper_iter K) (\<lambda>r. case r of None \<Rightarrow> returnE () | Some _ \<Rightarrow> reaper_tick K n)"

definition orphan_reaper_tick :: "('w, 'z) ex_kernel_scheme \<Rightarrow> ('w world, unit) io" where
  "orphan_reaper_tick K = reaper_tick K 256"

section \<open>Handlers\<close>

text \<open>The outcomes of \<open>rx.recv_timeout\<close>; the end of the list is a closed channel.\<close>

datatype recv = Received event | RecvTimeout

definition is_exit :: "event \<Rightarrow> bool" where
  "is_exit ev = (case ev of Exit _ \<Rightarrow> True | _ \<Rightarrow> False)"

definition stamp_activity :: "('w, 'z) sb_kernel_scheme \<Rightarrow> ('w world, unit) io" where
  "stamp_activity K = bindE (on_os (now_ms K)) (\<lambda>t. \<lambda>w. (Inr (), w\<lparr>w_last_activity_ms := t\<rparr>))"

fun stream_events :: "codec \<Rightarrow> ('w, 'z) sb_kernel_scheme \<Rightarrow> recv list \<Rightarrow> ('w world conn, unit) io" where
  "stream_events C K [] = returnE ()"
| "stream_events C K (RecvTimeout # rx) = thenE (resp (rw_chunk PING_CHUNK)) (stream_events C K rx)"
| "stream_events C K (Received ev # rx) =
     thenE (resp (rw_chunk (to_line C ev)))
    (thenE (os (stamp_activity K))
       (if is_exit ev then returnE () else stream_events C K rx))"

text \<open>The pump of a background process: it drops output and records the first exit.\<close>

fun pump_background :: "string \<Rightarrow> recv list \<Rightarrow> ('w world, unit) io" where
  "pump_background pid [] = returnE ()"
| "pump_background pid (Received (Exit info) # rx) = on_procs (record_exit pid info)"
| "pump_background pid (_ # rx) = pump_background pid rx"

definition start_background :: "('w, 'z) ex_kernel_scheme \<Rightarrow> exec_spec \<Rightarrow> ('w world, string + proc) io" where
  "start_background K spec =
     bindE (on_os (now_ms K)) (\<lambda>started_at.
     bindE (spawn K spec) (\<lambda>r. case r of
       Inl e \<Rightarrow> returnE (Inl e)
     | Inr (pid, h) \<Rightarrow>
         bindE (on_procs alloc_id) (\<lambda>pid_str.
         (let p = \<lparr>pr_id = pid_str, pr_pid = pid, pr_handle = h, pr_tag = sp_tag spec,
                   pr_cmd = sp_cmd_json spec, pr_started_at_ms = started_at,
                   pr_sandbox_id = map_option e_id (sp_sandbox spec), pr_exit = None\<rparr>
          in thenE (on_procs (\<lambda>g. ((), proc_insert p g))) (returnE (Inr p))))))"

text \<open>The guard \<open>_op\<close>: dropped on every way out of the block.\<close>

definition with_op :: "('w world conn, 'a) io \<Rightarrow> ('w world conn, 'a) io" where
  "with_op m c =
     (case os (on_procs begin_op) c of
        (_, c1) \<Rightarrow> (case m c1 of (r, c2) \<Rightarrow> (r, snd (os (on_procs end_op) c2))))"

definition MAX_EXEC_BODY :: nat where "MAX_EXEC_BODY = 16 * 1024 * 1024"

definition with_spec :: "codec \<Rightarrow> (exec_spec \<Rightarrow> ('w world conn, unit) io) \<Rightarrow> ('w world conn, unit) io" where
  "with_spec C f =
     bindE (read_body MAX_EXEC_BODY) (\<lambda>body.
       case from_slice C body of
         Inl e \<Rightarrow> resp (rw_error C 400 (''invalid JSON body: '' @ e))
       | Inr j \<Rightarrow> (case from_json j of
             Inl e \<Rightarrow> resp (rw_error C 400 e)
           | Inr spec \<Rightarrow> f spec))"

definition start_line :: "codec \<Rightarrow> nat \<Rightarrow> string" where
  "start_line C pid = to_vec C (JObject [(''event'', JString ''start''), (''pid'', JNat pid)]) @ [LF]"

text \<open>What \<open>handle_exec\<close> does once the command runs.\<close>

definition exec_stream :: "codec \<Rightarrow> ('w, 'z) sb_kernel_scheme \<Rightarrow> recv list \<Rightarrow> nat \<Rightarrow> ('w world conn, unit) io" where
  "exec_stream C K rx pid =
     thenE (resp (start_stream 200 ''application/x-ndjson''))
    (thenE (resp (rw_chunk (start_line C pid)))
       (stream_events C K rx))"

definition handle_exec ::
  "codec \<Rightarrow> ('w, 'z) ex_kernel_scheme \<Rightarrow> recv list \<Rightarrow> sandbox_entry option \<Rightarrow> ('w world conn, unit) io" where
  "handle_exec C K rx sandbox =
     with_spec C (\<lambda>spec0. (let spec = spec0\<lparr>sp_sandbox := sandbox\<rparr> in
       if sp_background spec then
         bindE (os (start_background K spec)) (\<lambda>r. case r of
           Inr p \<Rightarrow> resp (rw_json C 200 (JObject [
             (''id'', JString (pr_id p)), (''pid'', JNat (pr_pid p)), (''tag'', json_opt JString (pr_tag p))]))
         | Inl e \<Rightarrow> resp (rw_error C 400 e))
       else
         bindE (os (on_os (now_ms K))) (\<lambda>started_at.
         bindE (os (spawn K spec)) (\<lambda>r. case r of
           Inl e \<Rightarrow> resp (rw_error C 400 e)
         | Inr (pid, h) \<Rightarrow>
             with_op (exec_stream C K rx pid)))))"

definition handle_process_start ::
  "codec \<Rightarrow> ('w, 'z) ex_kernel_scheme \<Rightarrow> sandbox_entry option \<Rightarrow> ('w world conn, unit) io" where
  "handle_process_start C K sandbox =
     with_spec C (\<lambda>spec.
       bindE (os (start_background K (spec\<lparr>sp_background := True, sp_sandbox := sandbox\<rparr>))) (\<lambda>r. case r of
         Inr p \<Rightarrow> resp (rw_json C 200 (JObject [
           (''id'', JString (pr_id p)), (''pid'', JNat (pr_pid p)), (''cmd'', pr_cmd p),
           (''tag'', json_opt JString (pr_tag p))]))
       | Inl e \<Rightarrow> resp (rw_error C 400 e)))"

definition is_opaque_process_id :: "string \<Rightarrow> bool" where
  "is_opaque_process_id pid \<longleftrightarrow>
     (case strip_prefix ''p-'' pid of
        Some n \<Rightarrow> n \<noteq> [] \<and> list_all is_ascii_digit n
      | None \<Rightarrow> False)"

definition not_opaque_message :: "string \<Rightarrow> string" where
  "not_opaque_message pid =
     squote pid @ '' is not a process id. Use the opaque '' @ [CHR 0x60] @ ''id'' @ [CHR 0x60] @
     '' from the create response (e.g. '' @ squote ''p-3'' @ ''), not the OS pid.''"

definition handle_process_delete ::
  "codec \<Rightarrow> ('w, 'z) ex_kernel_scheme \<Rightarrow> string \<Rightarrow> string option \<Rightarrow> ('w world conn, unit) io" where
  "handle_process_delete C K pid scope =
     (if \<not> is_opaque_process_id pid then resp (rw_error C 400 (not_opaque_message pid))
      else bindE (os (on_procs (remove_by_id pid scope))) (\<lambda>r. case r of
          None \<Rightarrow> resp (rw_json C 200 (JObject [(''id'', JString pid), (''killed'', JBool False)]))
        | Some p \<Rightarrow>
            bindE (os (kill_tree K SIGKILL False (pr_handle p))) (\<lambda>killed.
              resp (rw_json C 200 (JObject [(''id'', JString pid), (''killed'', JBool killed)])))))"

section \<open>The request body\<close>

lemma as_str_Some: "as_str j = Some s \<longleftrightarrow> j = JString s"
  by (cases j) auto

lemma all_strings_map: "all_strings (map JString ss) = Inr ss"
  by (induction ss) auto

lemma all_strings_Inr: "all_strings js = Inr ss \<Longrightarrow> js = map JString ss"
  by (induction js arbitrary: ss) (auto simp: as_str_Some split: option.splits sum.splits)

lemma all_strings_iff: "all_strings js = Inr ss \<longleftrightarrow> js = map JString ss"
  using all_strings_map all_strings_Inr by blast

text \<open>
  Which bodies \<open>from_json\<close> accepts, and what they run. The request is accepted exactly if
  \<open>cmd\<close> is a string and \<open>shell\<close> is not \<open>false\<close>, or \<open>cmd\<close> is a non-empty array of strings and
  \<open>shell\<close> is not \<open>true\<close>; a string runs verbatim under \<open>/bin/sh -c\<close>, an array is the argument
  vector itself.
\<close>

theorem from_json_accepts:
  "(\<exists>spec. from_json body = Inr spec \<and> sp_argv spec = argv) \<longleftrightarrow>
     (let shell = Option.bind (json_get body ''shell'') as_bool in
      (\<exists>s. json_get body ''cmd'' = Some (JString s) \<and> shell \<noteq> Some False \<and> argv = [''/bin/sh'', ''-c'', s]) \<or>
      (json_get body ''cmd'' = Some (JArray (map JString argv)) \<and> shell \<noteq> Some True \<and> argv \<noteq> []))"
proof -
  let ?sh = "Option.bind (json_get body ''shell'') as_bool"
  have "argv_of sh c = Inr argv \<longleftrightarrow>
      (\<exists>s. c = Some (JString s) \<and> sh \<noteq> Some False \<and> argv = [''/bin/sh'', ''-c'', s]) \<or>
      (c = Some (JArray (map JString argv)) \<and> sh \<noteq> Some True \<and> argv \<noteq> [])" for sh c
    by (auto simp: argv_of_def all_strings_map dest: all_strings_Inr split: option.splits json.splits sum.splits bool.splits)
  moreover have "(\<exists>spec. from_json body = Inr spec \<and> sp_argv spec = argv) \<longleftrightarrow> argv_of ?sh (json_get body ''cmd'') = Inr argv"
    by (auto simp: from_json_def split: sum.splits)
  ultimately show ?thesis by (simp add: Let_def)
qed

section \<open>Spawning\<close>

lemma on_os_Inr: "on_os m w = (Inr x, w') \<longleftrightarrow> (\<exists>s. m (w_os w) = (Inr x, s) \<and> w' = w\<lparr>w_os := s\<rparr>)"
  by (auto simp: on_os_def split: prod.splits)

lemma handle_open_Inr:
  "handle_open K pid s = (Inr h, t) \<Longrightarrow> ph_pid h = pid \<and> ph_running h \<and> \<not> ph_timed_out h"
  by (auto simp: handle_open_def catchE_def returnE_def split: prod.splits sum.splits)

lemma handle_open_ok: "\<exists>h t. handle_open K pid s = (Inr h, t)"
  by (auto simp: handle_open_def catchE_def returnE_def split: prod.split sum.split)

lemma spawn_Inr:
  assumes "spawn K spec w = (Inr (Inr (pid, i)), w')"
  shows "(\<forall>e. sp_sandbox spec = Some e \<longrightarrow> e_id e \<notin> set (rg_deleted (w_sandboxes w)))"
    "\<exists>k. k_spawn K (command_of spec) (kst (w_os w)) = (Inr pid, k)"
    "\<exists>h s. ph_pid h = pid \<and> ph_running h \<and> \<not> ph_timed_out h \<and> i = length (w_handles w) \<and>
       w' = w\<lparr>w_owned := List.insert pid (w_owned w), w_os := s, w_handles := w_handles w @ [h]\<rparr>"
proof -
  from assms show "(\<forall>e. sp_sandbox spec = Some e \<longrightarrow> e_id e \<notin> set (rg_deleted (w_sandboxes w)))"
    by (auto simp: spawn_def split: if_splits option.splits)
  from assms obtain w1 where sp: "on_os (raw_os (k_spawn K (command_of spec))) w = (Inr pid, w1)"
    and rest: "bindE (on_os (handle_open K pid)) (\<lambda>h. \<lambda>w. (Inr (Inr (pid, length (w_handles w))), w\<lparr>w_handles := w_handles w @ [h]\<rparr>))
      (w1\<lparr>w_owned := List.insert pid (w_owned w1)\<rparr>) = (Inr (Inr (pid, i)), w')"
    by (cases "on_os (raw_os (k_spawn K (command_of spec))) w")
       (auto simp: spawn_def catchE_Inr returnE_def thenE_def bindE_Inr split: if_splits)
  from sp show "\<exists>k. k_spawn K (command_of spec) (kst (w_os w)) = (Inr pid, k)"
    by (auto simp: on_os_Inr raw_os_Inr)
  from rest obtain h w2 where h: "on_os (handle_open K pid) (w1\<lparr>w_owned := List.insert pid (w_owned w1)\<rparr>) = (Inr h, w2)"
    and i: "i = length (w_handles w2)" "w' = w2\<lparr>w_handles := w_handles w2 @ [h]\<rparr>"
    by (auto simp: bindE_Inr)
  from h sp i show "\<exists>h s. ph_pid h = pid \<and> ph_running h \<and> \<not> ph_timed_out h \<and> i = length (w_handles w) \<and>
       w' = w\<lparr>w_owned := List.insert pid (w_owned w), w_os := s, w_handles := w_handles w @ [h]\<rparr>"
    by (auto simp: on_os_Inr dest!: handle_open_Inr intro!: exI [of _ h])
qed

text \<open>
  C10: a command of a sandbox starts isolated. If \<open>spawn\<close> succeeds for a sandbox, the sandbox was
  not deleted and the one process started is a process-group leader under the sandbox's uid and
  gid, runs the sandbox's pre-exec hook, starts in its home unless the request names a directory,
  and has an environment that does not depend on the server's own; its pid is registered with the
  reaper and its handle says that it runs.
\<close>

theorem spawn_isolated:
  assumes "spawn K spec w = (Inr (Inr (pid, i)), w')" and "sp_sandbox spec = Some e"
  shows "e_id e \<notin> set (rg_deleted (w_sandboxes w)) \<and>
    (\<exists>cmd k. k_spawn K cmd (kst (w_os w)) = (Inr pid, k) \<and> cm_argv cmd = sp_argv spec \<and>
       cm_uid cmd = Some (e_uid e) \<and> cm_gid cmd = Some (e_uid e) \<and> cm_isolate cmd = Some e \<and>
       cm_process_group cmd = Some 0 \<and>
       cm_current_dir cmd = Some (case sp_cwd spec of Some d \<Rightarrow> d | None \<Rightarrow> e_home e) \<and>
       (\<forall>host. final_env host cmd = final_env [] cmd)) \<and>
    pid \<in> set (w_owned w') \<and> i < length (w_handles w') \<and>
    ph_pid (w_handles w' ! i) = pid \<and> ph_running (w_handles w' ! i)"
proof -
  from spawn_Inr(3) [OF assms(1)] have "pid \<in> set (w_owned w') \<and> i < length (w_handles w') \<and>
      ph_pid (w_handles w' ! i) = pid \<and> ph_running (w_handles w' ! i)" by auto
  moreover from spawn_Inr(2) [OF assms(1)] obtain k where "k_spawn K (command_of spec) (kst (w_os w)) = (Inr pid, k)" by blast
  moreover have "final_env host (command_of spec) = final_env [] (command_of spec)" for host
    using assms(2) by (simp add: final_env_def command_of_def)
  moreover have "cm_argv (command_of spec) = sp_argv spec" "cm_uid (command_of spec) = Some (e_uid e)"
    "cm_gid (command_of spec) = Some (e_uid e)" "cm_isolate (command_of spec) = Some e"
    "cm_process_group (command_of spec) = Some 0"
    "cm_current_dir (command_of spec) = Some (case sp_cwd spec of Some d \<Rightarrow> d | None \<Rightarrow> e_home e)"
    using assms(2) by (simp_all add: command_of_def opt_or_def)
  ultimately show ?thesis using spawn_Inr(1) [OF assms(1)] assms(2) by blast
qed

lemma reg_delete_marks:
  assumes "reg_delete K sid w = (Inr (Some r), w')" and "reg_get (w_sandboxes w) sid = Some e"
  shows "e_id e \<in> set (rg_deleted (w_sandboxes w'))"
proof -
  obtain w1 where r1: "on_reg (remove_entry sid) w = (Inr (Some e), w1)"
    using assms(2) by (simp add: on_reg_eq remove_entry_def reg_get_def)
  obtain w2 where r2: "on_reg (mark_deleted e) w1 = (Inr (), w2)" and
    m: "rg_deleted (w_sandboxes w2) = e_id e # rg_deleted (w_sandboxes w1)"
    by (simp add: on_reg_eq mark_deleted_def)
  from assms(1) r1 r2 obtain w3 conv w4 removed w5 where
    "on_reg unreserve w2 = (Inr (), w3)" "on_os (kill_uid K (e_uid e)) w3 = (Inr conv, w4)"
    "try_os (path_call (e_home e) (k_remove_dir_all K (e_home e))) w4 = (Inr removed, w5)"
    "\<exists>u. on_reg (if conv \<and> removed = None then release_uid (e_uid e) else quarantine_uid (e_uid e)) w5 = (Inr u, w')"
    by (auto simp: reg_delete_def thenE_def bindE_run bindE_Inr returnE_def split: if_splits option.splits)
  with m show ?thesis
    by (auto simp: on_reg_eq unreserve_def release_uid_def quarantine_uid_def dest!: on_os_reg try_os_reg split: if_splits)
qed

text \<open>
  C11: nothing starts in a deleted sandbox. Once \<open>delete\<close> has returned, a request that was already
  under way and still holds the entry cannot start a command in it, however the server's state
  has changed since, as long as deletion flags are not taken back: the attempt is refused before
  the operating system is asked and changes nothing.
\<close>

theorem no_spawn_after_delete:
  assumes "reg_delete K sid w = (Inr (Some r), w1)" and "reg_get (w_sandboxes w) sid = Some e"
    and "set (rg_deleted (w_sandboxes w1)) \<subseteq> set (rg_deleted (w_sandboxes w2))" and "sp_sandbox spec = Some e"
  shows "spawn K' spec w2 = (Inr (Inl ''sandbox has been deleted''), w2)"
  using reg_delete_marks [OF assms(1,2)] assms(3,4) by (auto simp: spawn_def)

section \<open>Timeouts\<close>

lemma bit_length_less: "n < 2 ^ bit_length n"
proof (induction n rule: bit_length.induct)
  case (1 n)
  then show ?case by (subst bit_length.simps) auto
qed

lemma bit_length_le: "n < 2 ^ k \<Longrightarrow> bit_length n \<le> k"
proof (induction n arbitrary: k rule: bit_length.induct)
  case (1 n)
  show ?case
  proof (cases "n = 0")
    case False
    with 1(2) obtain j where k: "k = Suc j" by (cases k) auto
    with 1(2) have "n div 2 < 2 ^ j" by auto
    from 1(1) [OF False this] False k show ?thesis by (subst bit_length.simps) simp
  qed (simp add: bit_length.simps)
qed

lemma round53_exact: "n < 2 ^ 53 \<Longrightarrow> round53 n = n"
  using bit_length_le [of n 53] by (simp add: round53_def)

lemma sat_i64_range: "- 9223372036854775808 \<le> sat_i64 i \<and> sat_i64 i \<le> 9223372036854775807"
  by (simp add: sat_i64_def)

lemma timeout_ms_range: "- 9223372036854775808 \<le> timeout_ms n \<and> timeout_ms n \<le> 9223372036854775807"
  by (cases n) (auto simp: signed_ms_def Let_def sat_i64_range)

lemma timeout_ms_int: "0 \<le> i \<Longrightarrow> i < 9007199254740 \<Longrightarrow> timeout_ms (NInt i) = i * 1000"
  by (simp add: signed_ms_def round53_exact scale2_def sat_i64_def Let_def)

lemma sint_of_range: "- 9223372036854775808 \<le> i \<Longrightarrow> i \<le> 9223372036854775807 \<Longrightarrow> sint (word_of_int i :: i64) = i"
  by (simp add: sint_sbintrunc' signed_take_bit_int_eq_self)

text \<open>
  The timeout watcher sleeps for what is left of the timeout, whatever the clock reads: with
  \<open>d\<close> milliseconds gone since the start, \<open>max 0 (timeout - d)\<close>, although the deadline is computed
  in 64 bits and may wrap, for every requested timeout that is not negative; and a whole number of
  seconds below about \<open>9 * 10^12\<close> is converted without rounding.
\<close>

theorem watcher_sleep_remaining:
  "(0 \<le> timeout_ms secs \<and> 0 \<le> d \<and> d \<le> 9223372036854775807 \<longrightarrow>
     watcher_sleep t0 secs (t0 + word_of_int d) = nat (max 0 (timeout_ms secs - d))) \<and>
   (0 \<le> i \<and> i < 9007199254740 \<longrightarrow> timeout_ms (NInt i) = i * 1000)"
proof (intro conjI impI)
  assume a: "0 \<le> timeout_ms secs \<and> 0 \<le> d \<and> d \<le> 9223372036854775807"
  have "sint (word_of_int (timeout_ms secs - d) :: i64) = timeout_ms secs - d"
    using a timeout_ms_range [of secs] by (intro sint_of_range) auto
  then show "watcher_sleep t0 secs (t0 + word_of_int d) = nat (max 0 (timeout_ms secs - d))"
    by (simp add: watcher_sleep_def Let_def)
next
  assume "0 \<le> i \<and> i < 9007199254740"
  then show "timeout_ms (NInt i) = i * 1000" by (intro timeout_ms_int) simp_all
qed

section \<open>The event stream\<close>

text \<open>The lines of the stream: everything up to the first exit, a ping for each silent interval.\<close>

fun stream_lines :: "codec \<Rightarrow> recv list \<Rightarrow> string list" where
  "stream_lines C [] = []"
| "stream_lines C (RecvTimeout # rx) = PING_CHUNK # stream_lines C rx"
| "stream_lines C (Received ev # rx) = to_line C ev # (if is_exit ev then [] else stream_lines C rx)"

lemma resp_Inr: "resp m c = (Inr x, c') \<longleftrightarrow> (\<exists>rw. m (c_rw c) = (Inr x, rw) \<and> c' = c\<lparr>c_rw := rw\<rparr>)"
  by (auto simp: resp_def split: prod.splits)

lemma os_Inr: "os m c = (Inr x, c') \<longleftrightarrow> (\<exists>w. m (c_os c) = (Inr x, w) \<and> c' = c\<lparr>c_os := w\<rparr>)"
  by (auto simp: os_def split: prod.splits)

lemma stamp_ok: "\<exists>w'. stamp_activity K w = (Inr (), w')"
  by (auto simp: stamp_activity_def bindE_def on_os_def now_ms_def split: prod.splits)

lemma stream_events_chunks:
  "(\<exists>r c'. stream_events C K rx c = (r, c') \<and> c_rw c' = rw \<and> r = r0) \<longleftrightarrow>
     write_chunks (stream_lines C rx) (c_rw c) = (r0, rw)"
proof (induction C K rx arbitrary: c rule: stream_events.induct)
  case (1 C K)
  then show ?case by (auto simp: returnE_def)
next
  case (2 C K rx)
  obtain x rw1 where x: "rw_chunk PING_CHUNK (c_rw c) = (x, rw1)" by (cases "rw_chunk PING_CHUNK (c_rw c)")
  with 2 [of "c\<lparr>c_rw := rw1\<rparr>"] show ?case
    by (cases x) (auto simp: thenE_def bindE_def resp_def)
next
  case (3 C K ev rx)
  obtain x rw1 where x: "rw_chunk (to_line C ev) (c_rw c) = (x, rw1)" by (cases "rw_chunk (to_line C ev) (c_rw c)")
  obtain w1 where w1: "stamp_activity K (c_os c) = (Inr (), w1)" using stamp_ok by blast
  from x w1 3 [of "c\<lparr>c_rw := rw1, c_os := w1\<rparr>"] show ?case
    by (cases x; cases "is_exit ev") (auto simp: thenE_def bindE_def resp_def os_def returnE_def)
qed

text \<open>
  C31: what the client of a foreground command receives. When the stream of \<open>handle_exec\<close> and the
  end of the response succeed, which they do on a socket that accepts every write, the body decodes to
  the start line followed by one line per event in the order of the channel, with a ping for each
  silent interval, up to and including the first exit event and nothing after it.
\<close>

theorem exec_stream_lines:
  "(\<forall>c'. thenE (exec_stream C K rx pid) (resp rw_finish) c = (Inr (), c') \<longrightarrow>
      (\<exists>body. sent (rw_writer (c_rw c')) = rw_output (c_rw c) @ head_prefix 200 ''application/x-ndjson'' (rw_keep_alive (c_rw c)) @
          ''Transfer-Encoding: chunked'' @ CRLF @ ''X-Accel-Buffering: no'' @ CRLF @ CRLF @ body \<and>
        dechunk body = Some (concat (start_line C pid # stream_lines C rx), []))) \<and>
   (room (rw_writer (c_rw c)) = None \<longrightarrow>
      (\<exists>c'. thenE (exec_stream C K rx pid) (resp rw_finish) c = (Inr (), c')))"
proof -
  let ?m = "thenE (start_stream 200 ''application/x-ndjson'') (thenE (write_chunks (start_line C pid # stream_lines C rx)) rw_finish)"
  have eq: "(\<exists>c'. thenE (exec_stream C K rx pid) (resp rw_finish) c = (Inr (), c') \<and> c_rw c' = rw) \<longleftrightarrow> ?m (c_rw c) = (Inr (), rw)" for rw
  proof -
    have "(\<exists>c'. stream_events C K rx d = (Inr u, c') \<and> c_rw c' = rw1) \<longleftrightarrow> write_chunks (stream_lines C rx) (c_rw d) = (Inr u, rw1)" for d u rw1
      using stream_events_chunks [of C K rx d rw1 "Inr u"] by auto
    then show ?thesis
      by (auto simp: exec_stream_def thenE_def bindE_Inr resp_Inr) (metis conn.select_convs(3) conn.surjective conn.update_convs(3))+
  qed
  show ?thesis
  proof (intro conjI allI impI)
    fix c' assume "thenE (exec_stream C K rx pid) (resp rw_finish) c = (Inr (), c')"
    with eq have "?m (c_rw c) = (Inr (), c_rw c')" by blast
    from chunked_response_out [OF this] show "\<exists>body. sent (rw_writer (c_rw c')) =
        rw_output (c_rw c) @ head_prefix 200 ''application/x-ndjson'' (rw_keep_alive (c_rw c)) @
          ''Transfer-Encoding: chunked'' @ CRLF @ ''X-Accel-Buffering: no'' @ CRLF @ CRLF @ body \<and>
        dechunk body = Some (concat (start_line C pid # stream_lines C rx), [])" .
  next
    assume "room (rw_writer (c_rw c)) = None"
    moreover have "succeeds ?m" by (intro succeeds_intros succeeds_rw)
    ultimately obtain u rw where "?m (c_rw c) = (Inr u, rw)" using succeedsD by blast
    with eq show "\<exists>c'. thenE (exec_stream C K rx pid) (resp rw_finish) c = (Inr (), c')" by auto
  qed
qed

section \<open>The guard of foreground commands\<close>

context frame_relation begin

lemma keeps_if_state: "keeps R m \<Longrightarrow> keeps R n \<Longrightarrow> keeps R (\<lambda>s. if b s then m s else n s)"
  by (simp add: keeps_def)

lemma keeps_update: "(\<And>s. R s (f s)) \<Longrightarrow> keeps R (\<lambda>s. (r s, f s))"
  by (simp add: keeps_def)

end

text \<open>The number of active operations, in the server's state and through a connection.\<close>

definition same_active :: "'w world \<Rightarrow> 'w world \<Rightarrow> bool" where
  "same_active w v \<longleftrightarrow> pg_active (w_procs w) = pg_active (w_procs v)"

definition same_conn :: "'w world conn \<Rightarrow> 'w world conn \<Rightarrow> bool" where
  "same_conn c d \<longleftrightarrow> same_active (c_os c) (c_os d)"

interpretation act: frame_relation same_active
  by unfold_locales (simp_all add: same_active_def)

interpretation cact: frame_relation same_conn
  by unfold_locales (simp_all add: same_conn_def same_active_def)

lemma cact_os: "keeps same_active m \<Longrightarrow> keeps same_conn (os m)"
  by (simp add: keeps_def same_conn_def os_def split: prod.split) (metis snd_conv)

lemma cact_resp: "keeps same_conn (resp m)"
  by (simp add: keeps_def same_conn_def resp_def same_active_def split: prod.split)

lemma read_body_os: "c_os (snd (read_body n c)) = c_os c"
  by (simp add: read_body_def Let_def split: prod.split sum.split)

lemma cact_body: "keeps same_conn (read_body n)"
  by (simp add: keeps_def same_conn_def read_body_os same_active_def)

lemma act_on_os: "keeps same_active (on_os m)"
  by (simp add: keeps_def on_os_def same_active_def split: prod.split)

lemma act_procs: "(\<And>g. pg_active (snd (f g)) = pg_active g) \<Longrightarrow> keeps same_active (on_procs f)"
  by (simp add: keeps_def on_procs_def same_active_def split: prod.split) (metis snd_conv)

lemmas act_intros = act.keeps_intros cact.keeps_intros act_on_os cact_os cact_resp cact_body

lemma act_spawn: "keeps same_active (spawn K spec)"
proof -
  have e: "spawn K spec = (\<lambda>w. if (case sp_sandbox spec of Some sbx \<Rightarrow> e_id sbx \<in> set (rg_deleted (w_sandboxes w)) | None \<Rightarrow> False)
      then (Inr (Inl ''sandbox has been deleted''), w)
      else catchE (on_os (raw_os (k_spawn K (command_of spec))))
        (\<lambda>pid. thenE (\<lambda>w. (Inr (), w\<lparr>w_owned := List.insert pid (w_owned w)\<rparr>))
          (bindE (on_os (handle_open K pid)) (\<lambda>h. \<lambda>w.
             (Inr (Inr (pid, length (w_handles w))), w\<lparr>w_handles := w_handles w @ [h]\<rparr>))))
        (\<lambda>e. returnE (Inl (''failed to spawn '' @ squote (hd (sp_argv spec)) @ '': '' @ error_text K e))) w)"
    by (rule ext) (simp only: spawn_def)
  show ?thesis unfolding e
    by (intro act.keeps_if_state act.keeps_update act_intros) (simp_all add: same_active_def)
qed

lemma act_start_background: "keeps same_active (start_background K spec)"
  unfolding start_background_def Let_def
  by (intro act_intros act_spawn)
     (auto simp: alloc_id_def proc_insert_def Let_def split: sum.split intro!: act_intros act_procs)

lemma act_stream_events: "keeps same_conn (stream_events C K rx)"
proof (induction C K rx rule: stream_events.induct)
  case (3 C K ev rx)
  have "keeps same_active (stamp_activity K)"
    unfolding stamp_activity_def by (intro act_intros act.keeps_update) (simp add: same_active_def)
  with 3 show ?case by (cases "is_exit ev") (auto intro!: act_intros)
qed (auto intro!: act_intros)

lemma act_with_op: "keeps same_conn m \<Longrightarrow> keeps same_conn (with_op m)"
  unfolding keeps_def same_conn_def same_active_def
proof
  fix c :: "'a world conn"
  assume m: "\<forall>s. pg_active (w_procs (c_os s)) = pg_active (w_procs (c_os (snd (m s))))"
  obtain r c2 where c2: "m (c\<lparr>c_os := (c_os c)\<lparr>w_procs := (w_procs (c_os c))\<lparr>pg_active := pg_active (w_procs (c_os c)) + 1\<rparr>\<rparr>\<rparr>) = (r, c2)"
    (is "m ?c1 = _") by (cases "m ?c1")
  then have "pg_active (w_procs (c_os c2)) = Suc (pg_active (w_procs (c_os c)))" using m [THEN spec, of ?c1] by simp
  with c2 show "pg_active (w_procs (c_os c)) = pg_active (w_procs (c_os (snd (with_op m c))))"
    by (simp add: with_op_def os_def on_procs_def begin_op_def end_op_def)
qed

text \<open>
  A foreground command counts as one active operation for exactly as long as its handler runs.
  Whatever \<open>handle_exec\<close> and \<open>handle_process_start\<close> meet (a bad body, a command that does not start,
  a client that hangs up in the middle of the stream), the count that keeps the idle watchdog from
  stopping the job is back where it was when they return.
\<close>

theorem exec_op_balanced:
  "pg_active (w_procs (c_os (snd (handle_exec C K rx sandbox c)))) = pg_active (w_procs (c_os c)) \<and>
   pg_active (w_procs (c_os (snd (handle_process_start C K sandbox c)))) = pg_active (w_procs (c_os c))"
proof -
  have spec: "keeps same_conn (with_spec C f)" if "\<And>s. keeps same_conn (f s)" for f
    unfolding with_spec_def by (intro act_intros) (auto split: sum.split intro!: act_intros that)
  have "keeps same_conn (exec_stream C K rx pid)" for pid
    unfolding exec_stream_def by (intro act_intros act_stream_events)
  then have "keeps same_conn (handle_exec C K rx sandbox)"
    unfolding handle_exec_def Let_def
    by (intro spec act_intros act_start_background act_spawn)
       (auto split: sum.split intro!: act_intros act_with_op)
  moreover have "keeps same_conn (handle_process_start C K sandbox)"
    unfolding handle_process_start_def
    by (intro spec act_intros act_start_background) (auto split: sum.split intro!: act_intros)
  ultimately show ?thesis by (simp add: keeps_def same_conn_def same_active_def)
qed

section \<open>Background processes\<close>

lemma remove_first_unique:
  assumes "p \<in> set ps" "P p" and "\<And>q. q \<in> set ps \<Longrightarrow> P q \<Longrightarrow> q = p"
  shows "fst (remove_first P ps) = Some p"
proof (cases "remove_first P ps")
  case (Pair r qs)
  show ?thesis
  proof (cases r)
    case None
    with Pair remove_first_None [of P ps qs] assms(1,2) show ?thesis by blast
  next
    case (Some x)
    with Pair remove_first_Some [of P ps x qs] have "x = p" by (intro assms(3)) simp_all
    with Pair Some show ?thesis by simp
  qed
qed

lemma insert_running_mem:
  assumes "\<not> finished p"
  shows "p \<in> set (pg_procs (proc_insert p g))"
proof -
  let ?n = "length (filter finished (pg_procs g @ [p])) - MAX_FINISHED_PROCS"
  have "p \<in> set (filter (\<lambda>q. \<not> finished q) (pg_procs g @ [p]))" using assms by simp
  then have "p \<in> set (filter (\<lambda>q. \<not> finished q) (drop_first ?n finished (pg_procs g @ [p])))"
    by (simp only: drop_first_filter(2))
  then show ?thesis unfolding proc_insert_eq by (rule filter_is_subset [THEN subsetD])
qed

lemma insert_mem_sub:
  assumes "q \<in> set (pg_procs (proc_insert p g))"
  shows "q = p \<or> q \<in> set (pg_procs g)"
proof -
  have "subseq [q] (pg_procs (proc_insert p g))" using assms by (simp add: subseq_singleton_left)
  then have "subseq [q] (pg_procs g @ [p])"
    unfolding proc_insert_eq by (rule subseq_order.order_trans [OF _ drop_first_subseq])
  then show ?thesis by (auto simp: subseq_singleton_left)
qed

lemma signal_leader_ok: "\<exists>b s'. signal_leader K signal h s = (Inr b, s')"
proof -
  let ?m = "case ph_pidfd h of Some f \<Rightarrow> raw_os (k_pidfd_send_signal K f signal) | None \<Rightarrow> sys_kill K (int (ph_pid h)) signal"
  obtain r s' where "?m s = (r, s')" by fastforce
  then show ?thesis by (cases r) (auto simp: signal_leader_def catchE_def returnE_def)
qed

lemma start_background_Inr:
  assumes "start_background K spec w = (Inr (Inr p), w')"
  shows "\<exists>pid i t w0 w1. on_os (now_ms K) w = (Inr t, w0) \<and> spawn K spec w0 = (Inr (Inr (pid, i)), w1) \<and>
    p = \<lparr>pr_id = ''p-'' @ show_nat (pg_seq (w_procs w)), pr_pid = pid, pr_handle = i, pr_tag = sp_tag spec,
         pr_cmd = sp_cmd_json spec, pr_started_at_ms = t, pr_sandbox_id = map_option e_id (sp_sandbox spec), pr_exit = None\<rparr> \<and>
    w' = w1\<lparr>w_procs := proc_insert p ((w_procs w)\<lparr>pg_seq := pg_seq (w_procs w) + 1\<rparr>)\<rparr>"
proof -
  from assms obtain t w0 r w1 where a: "on_os (now_ms K) w = (Inr t, w0)" "spawn K spec w0 = (Inr r, w1)"
    by (auto simp: start_background_def bindE_Inr)
  with assms obtain pid i where r: "r = Inr (pid, i)"
    by (cases r) (auto simp: start_background_def bindE_run returnE_def)
  let ?p = "\<lparr>pr_id = ''p-'' @ show_nat (pg_seq (w_procs w)), pr_pid = pid, pr_handle = i, pr_tag = sp_tag spec,
         pr_cmd = sp_cmd_json spec, pr_started_at_ms = t, pr_sandbox_id = map_option e_id (sp_sandbox spec), pr_exit = None\<rparr>"
  have "w_procs w1 = w_procs w"
    using a spawn_Inr(3) [OF a(2) [unfolded r]] by (auto simp: on_os_Inr)
  then have "start_background K spec w = (Inr (Inr ?p), w1\<lparr>w_procs := proc_insert ?p ((w_procs w)\<lparr>pg_seq := pg_seq (w_procs w) + 1\<rparr>)\<rparr>)"
    by (simp add: start_background_def bindE_def a r on_procs_def alloc_id_def returnE_def thenE_def Let_def)
  from trans [OF sym [OF assms] this] have "p = ?p" "w' = w1\<lparr>w_procs := proc_insert ?p ((w_procs w)\<lparr>pg_seq := pg_seq (w_procs w) + 1\<rparr>)\<rparr>" by (simp_all only: prod.inject sum.inject)
  with a r show ?thesis by blast
qed

text \<open>
  A background process that was started can be stopped. The identifier the start returns has
  the shape the delete route accepts and, unless it was in use already (\<open>proc_ids_unique\<close>), a
  lookup under it in the same scope finds exactly this process, whose handle says that it runs.
\<close>

theorem start_then_lookup:
  assumes "start_background K spec w = (Inr (Inr p), w')"
    and "\<And>q. q \<in> set (pg_procs (w_procs w)) \<Longrightarrow> pr_id q \<noteq> ''p-'' @ show_nat (pg_seq (w_procs w))"
  shows "is_opaque_process_id (pr_id p) \<and>
    fst (remove_by_id (pr_id p) (map_option e_id (sp_sandbox spec)) (w_procs w')) = Some p \<and>
    pr_handle p < length (w_handles w') \<and> ph_running (w_handles w' ! pr_handle p) \<and>
    ph_pid (w_handles w' ! pr_handle p) = pr_pid p"
proof -
  from start_background_Inr [OF assms(1)] obtain pid i t w0 w1 where
    sp: "spawn K spec w0 = (Inr (Inr (pid, i)), w1)" and
    p: "p = \<lparr>pr_id = ''p-'' @ show_nat (pg_seq (w_procs w)), pr_pid = pid, pr_handle = i, pr_tag = sp_tag spec,
         pr_cmd = sp_cmd_json spec, pr_started_at_ms = t, pr_sandbox_id = map_option e_id (sp_sandbox spec), pr_exit = None\<rparr>" and
    w': "w' = w1\<lparr>w_procs := proc_insert p ((w_procs w)\<lparr>pg_seq := pg_seq (w_procs w) + 1\<rparr>)\<rparr>" by blast
  have "is_opaque_process_id (pr_id p)"
    using p show_nat_digits by (simp add: is_opaque_process_id_def strip_prefix_def)
  moreover have "fst (remove_first (\<lambda>q. pr_id q = pr_id p \<and> in_scope (map_option e_id (sp_sandbox spec)) q) (pg_procs (w_procs w'))) = Some p"
  proof (rule remove_first_unique)
    show "p \<in> set (pg_procs (w_procs w'))" unfolding w' using p by (simp add: insert_running_mem)
    show "pr_id p = pr_id p \<and> in_scope (map_option e_id (sp_sandbox spec)) p" using p by (simp add: in_scope_def)
    show "q = p" if "q \<in> set (pg_procs (w_procs w'))" "pr_id q = pr_id p \<and> in_scope (map_option e_id (sp_sandbox spec)) q" for q
      using that assms(2) [of q] insert_mem_sub [of q p] p unfolding w' by fastforce
  qed
  moreover have "pr_handle p < length (w_handles w') \<and> ph_running (w_handles w' ! pr_handle p) \<and>
    ph_pid (w_handles w' ! pr_handle p) = pr_pid p"
    using spawn_Inr(3) [OF sp] p w' by auto
  ultimately show ?thesis by (auto simp: remove_by_id_def split: prod.splits)
qed

text \<open>
  What \<open>DELETE /processes/{id}\<close> does. A string that is not a process identifier and an
  identifier that is not in scope change nothing and the latter is answered with \<open>killed: false\<close>;
  otherwise exactly this process leaves the table, and the process group and then its leader are
  signalled only while the handle says that the command runs, so that a command that was already
  reaped is never signalled; the answer says which.
\<close>

theorem process_delete_effect:
  assumes "handle_process_delete C K pid scope c = (r, c')"
  shows "if \<not> is_opaque_process_id pid then c_os c' = c_os c
    else case remove_by_id pid scope (w_procs (c_os c)) of
      (None, _) \<Rightarrow> c_os c' = c_os c \<and>
        (r, c_rw c') = rw_json C 200 (JObject [(''id'', JString pid), (''killed'', JBool False)]) (c_rw c)
    | (Some p, g) \<Rightarrow>
        (let h = w_handles (c_os c) ! pr_handle p in
         w_procs (c_os c') = g \<and> w_handles (c_os c') = w_handles (c_os c) \<and>
         (if ph_running h
          then \<exists>x s killed. sys_kill K (- int (ph_pid h)) SIGKILL (w_os (c_os c)) = (x, s) \<and>
            signal_leader K SIGKILL h s = (Inr killed, w_os (c_os c')) \<and>
            (r, c_rw c') = rw_json C 200 (JObject [(''id'', JString pid), (''killed'', JBool killed)]) (c_rw c)
          else w_os (c_os c') = w_os (c_os c) \<and>
            (r, c_rw c') = rw_json C 200 (JObject [(''id'', JString pid), (''killed'', JBool False)]) (c_rw c)))"
proof (cases "is_opaque_process_id pid")
  case False
  with assms show ?thesis by (auto simp: handle_process_delete_def resp_def split: prod.splits)
next
  case True
  obtain q g where q: "remove_by_id pid scope (w_procs (c_os c)) = (q, g)" by (cases "remove_by_id pid scope (w_procs (c_os c))")
  have rm: "os (on_procs (remove_by_id pid scope)) c = (Inr q, c\<lparr>c_os := (c_os c)\<lparr>w_procs := g\<rparr>\<rparr>)"
    by (simp add: os_def on_procs_def q)
  show ?thesis
  proof (cases q)
    case None
    have "g = w_procs (c_os c)"
      using q None by (auto simp: remove_by_id_def split: prod.splits dest!: remove_first_None)
    with assms True None q rm show ?thesis
      by (auto simp: handle_process_delete_def bindE_run resp_def split: prod.splits)
  next
    case (Some p)
    let ?h = "w_handles (c_os c) ! pr_handle p"
    obtain x s where s: "sys_kill K (- int (ph_pid ?h)) SIGKILL (w_os (c_os c)) = (x, s)" by fastforce
    obtain b s' where b: "signal_leader K SIGKILL ?h s = (Inr b, s')"
      using signal_leader_ok by blast
    have "os (kill_tree K SIGKILL False (pr_handle p)) (c\<lparr>c_os := (c_os c)\<lparr>w_procs := g\<rparr>\<rparr>) =
        (if ph_running ?h then (Inr b, c\<lparr>c_os := (c_os c)\<lparr>w_procs := g, w_os := s'\<rparr>\<rparr>)
         else (Inr False, c\<lparr>c_os := (c_os c)\<lparr>w_procs := g\<rparr>\<rparr>))"
      using s b by (simp add: os_def kill_tree_def Let_def thenE_def bindE_def ignoreE_def on_os_def returnE_def)
    with assms True Some q rm s b show ?thesis
      by (auto simp: handle_process_delete_def bindE_run resp_def split: prod.splits if_splits)
  qed
qed

section \<open>The waiter\<close>

lemma await_exit_returns:
  assumes "\<And>w w' e. k_waitid_exited K pid w = (Inl e, w') \<Longrightarrow> kind e = Interrupted \<Longrightarrow> f w' < (f w :: nat)"
  shows "\<exists>t. await_exit K pid s = Some t"
proof (induction "f (kst s)" arbitrary: s rule: less_induct)
  case less
  show ?case
  proof (cases "raw_os (k_waitid_exited K pid) s")
    case (Pair r s')
    show ?thesis
    proof (cases r)
      case (Inl e)
      then have k: "k_waitid_exited K pid (kst s) = (Inl e, kst s')"
        using Pair by (auto simp: raw_os_def split: prod.splits)
      show ?thesis
      proof (cases "kind e = Interrupted")
        case True
        with less [of s'] assms [OF k] Pair Inl show ?thesis by (subst await_exit.simps) simp
      next
        case False
        with Pair Inl show ?thesis by (subst await_exit.simps) simp
      qed
    next
      case (Inr u)
      with Pair show ?thesis by (subst await_exit.simps) simp
    qed
  qed
qed

text \<open>
  C32: the waiter of a command always ends by reporting it. If the wait is not interrupted forever
  (each interruption lowers some measure), \<open>wait_and_report\<close> returns, the event it sends is an
  exit, the handle no longer says that the command runs, the pid is no longer held back from the
  reaper, and no other handle has changed.
\<close>

theorem wait_and_report_ends:
  assumes "\<And>w w' e. k_waitid_exited K (ph_pid (w_handles v ! i)) w = (Inl e, w') \<Longrightarrow> kind e = Interrupted \<Longrightarrow> f w' < (f w :: nat)"
    and "i < length (w_handles v)" and "distinct (w_owned v)"
  shows "\<exists>info v'. wait_and_report K i t0 v = Some (Inr (Exit info), v') \<and>
    \<not> ph_running (w_handles v' ! i) \<and> ph_pid (w_handles v ! i) \<notin> set (w_owned v') \<and>
    (\<forall>j. j \<noteq> i \<longrightarrow> w_handles v' ! j = w_handles v ! j)"
proof -
  let ?pid = "ph_pid (w_handles v ! i)"
  obtain s where s: "await_exit K ?pid (w_os v) = Some s" using await_exit_returns [of K ?pid f] assms(1) by blast
  obtain st s1 where st: "raw_os (k_wait K ?pid) s = (st, s1)" by fastforce
  obtain n s2 where n: "now_ms K s1 = (Inr n, s2)" by (cases "k_now_ms K (kst s1)") (simp add: now_ms_def)
  let ?hs = "(w_handles v)[i := (w_handles v ! i)\<lparr>ph_running := False\<rparr>]"
  have "reap_child K i (v\<lparr>w_os := s\<rparr>) = (Inr (case st of Inl _ \<Rightarrow> None | Inr x \<Rightarrow> Some x), v\<lparr>w_os := s1, w_handles := ?hs\<rparr>)"
    using st by (cases st) (simp_all add: reap_child_def bindE_def catchE_def on_os_def thenE_def set_handle_def returnE_def)
  then have "\<exists>info. wait_and_report K i t0 v = Some (Inr (Exit info), v\<lparr>w_os := s1, w_handles := ?hs, w_owned := remove1 ?pid (w_owned v), w_os := s2\<rparr>)"
    using s n by (simp add: wait_and_report_def Let_def bindE_def thenE_def untrack_owned_def exit_info_of_def on_os_def returnE_def)
  then show ?thesis using assms(2,3) by auto
qed

section \<open>Witnesses\<close>

definition demo_ex :: "nat ex_kernel" where
  "demo_ex = sb_kernel.extend demo_sb
     (ex_kernel.fields (\<lambda>c. returnE 7) (\<lambda>p. returnE 3) (\<lambda>f s. returnE ()) (\<lambda>p. returnE ())
        (\<lambda>p. returnE (Some 0, None)) (returnE 7) (\<lambda>p. returnE (int p)))"

lemma demo_ex_simps:
  "k_spawn demo_ex = (\<lambda>c. returnE 7)" "k_pidfd_open demo_ex = (\<lambda>p. returnE 3)"
  "k_pidfd_send_signal demo_ex = (\<lambda>f s. returnE ())" "k_waitid_exited demo_ex = (\<lambda>p. returnE ())"
  "k_wait demo_ex = (\<lambda>p. returnE (Some 0, None))" "k_peek_any demo_ex = returnE 7"
  "k_waitpid demo_ex = (\<lambda>p. returnE (int p))" "k_kill demo_ex = (\<lambda>p s. returnE ())"
  "k_now_ms demo_ex = (\<lambda>w. (5, w))"
  by (simp_all add: demo_ex_def sb_kernel.defs ex_kernel.defs demo_sb_simps)

definition demo_spec :: "sandbox_entry option \<Rightarrow> exec_spec" where
  "demo_spec sandbox = \<lparr>sp_argv = [''ls''], sp_cmd_json = JNull, sp_env = [], sp_cwd = None, sp_timeout_secs = None, sp_stdin = None,
     sp_background = False, sp_tag = None, sp_sandbox = sandbox\<rparr>"

abbreviation demo_handle :: proc_handle where
  "demo_handle \<equiv> \<lparr>ph_pid = 7, ph_pidfd = Some 3, ph_running = True, ph_timed_out = False\<rparr>"

lemma demo_spawn:
  assumes "\<And>e. sandbox = Some e \<Longrightarrow> e_id e \<notin> set (rg_deleted (w_sandboxes w))"
  shows "spawn demo_ex (demo_spec sandbox) w = (Inr (Inr (7, length (w_handles w))),
    w\<lparr>w_owned := List.insert 7 (w_owned w), w_handles := w_handles w @ [demo_handle]\<rparr>)"
  using assms
  by (auto simp: spawn_def demo_spec_def catchE_def thenE_def bindE_def on_os_def raw_os_def demo_ex_simps returnE_def handle_open_def
      split: option.splits)

theorem spawn_isolated_witness:
  "\<exists>w'. spawn demo_ex (demo_spec (Some demo_sandbox)) (demo_world [] 2) = (Inr (Inr (7, 0)), w') \<and> 7 \<in> set (w_owned w')"
proof -
  have "\<exists>w'. spawn demo_ex (demo_spec (Some demo_sandbox)) (demo_world [] 2) = (Inr (Inr (7, 0)), w')"
    by (subst demo_spawn) (simp_all add: demo_world_def demo_reg_def)
  moreover have "sp_sandbox (demo_spec (Some demo_sandbox)) = Some demo_sandbox" by (simp add: demo_spec_def)
  ultimately show ?thesis using spawn_isolated by blast
qed

theorem no_spawn_after_delete_witness:
  "\<exists>w'. reg_delete demo_sb ''ab'' (demo_world [demo_sandbox] 1) = (Inr (Some (Inr ())), w') \<and>
     spawn demo_ex (demo_spec (Some demo_sandbox)) w' = (Inr (Inl ''sandbox has been deleted''), w')"
proof -
  obtain w' where d: "reg_delete demo_sb ''ab'' (demo_world [demo_sandbox] 1) = (Inr (Some (Inr ())), w')"
    using demo_delete by blast
  have g: "reg_get (w_sandboxes (demo_world [demo_sandbox] 1)) ''ab'' = Some demo_sandbox"
    by (simp add: reg_get_def hm_get_def demo_world_def demo_reg_def)
  have "sp_sandbox (demo_spec (Some demo_sandbox)) = Some demo_sandbox" by (simp add: demo_spec_def)
  from no_spawn_after_delete [OF d g subset_refl this] d show ?thesis by blast
qed

theorem watcher_sleep_remaining_witness:
  "watcher_sleep 0xFFFFFFFFFFFFFF00 (NInt 3) (0xFFFFFFFFFFFFFF00 + word_of_int 1000) = 2000 \<and> timeout_ms (NInt 3) = 3000"
proof -
  have t: "timeout_ms (NInt 3) = 3000" using watcher_sleep_remaining [of "NInt 0" 0 0 3] by simp
  have "watcher_sleep 0xFFFFFFFFFFFFFF00 (NInt 3) (0xFFFFFFFFFFFFFF00 + word_of_int 1000) = nat (max 0 (timeout_ms (NInt 3) - 1000))"
    using watcher_sleep_remaining [of "NInt 3" 1000 "0xFFFFFFFFFFFFFF00" 3] by (simp add: t del: timeout_ms.simps)
  with t show ?thesis by (simp del: timeout_ms.simps)
qed

theorem exec_stream_lines_witness:
  "\<exists>c'. thenE (exec_stream demo_codec demo_ex [Received (Stdout ''hi''), RecvTimeout] 7) (resp rw_finish)
      (sample_conn 0 [] (demo_world [] 2)) = (Inr (), c') \<and> sent (rw_writer (c_rw c')) \<noteq> []"
proof -
  let ?c = "sample_conn 0 [] (demo_world [] 2)"
  let ?m = "thenE (exec_stream demo_codec demo_ex [Received (Stdout ''hi''), RecvTimeout] 7) (resp rw_finish)"
  have "room (rw_writer (c_rw ?c)) = None" by (simp add: sample_conn_def rw_new_def open_writer_def)
  with exec_stream_lines [of demo_codec demo_ex "[Received (Stdout ''hi''), RecvTimeout]" 7 ?c]
  obtain c' where c': "?m ?c = (Inr (), c')" by blast
  with exec_stream_lines [of demo_codec demo_ex "[Received (Stdout ''hi''), RecvTimeout]" 7 ?c]
  obtain body where "sent (rw_writer (c_rw c')) = rw_output (c_rw ?c) @ head_prefix 200 ''application/x-ndjson'' (rw_keep_alive (c_rw ?c)) @
          ''Transfer-Encoding: chunked'' @ CRLF @ ''X-Accel-Buffering: no'' @ CRLF @ CRLF @ body" by blast
  then have "sent (rw_writer (c_rw c')) \<noteq> []" by (simp add: CRLF_def)
  with c' show ?thesis by blast
qed

lemma demo_background:
  "\<exists>w'. start_background demo_ex (demo_spec None) (demo_world [] 2) = (Inr (Inr
     \<lparr>pr_id = ''p-0'', pr_pid = 7, pr_handle = 0, pr_tag = None, pr_cmd = JNull, pr_started_at_ms = 5, pr_sandbox_id = None, pr_exit = None\<rparr>), w')"
proof -
  let ?w = "demo_world [] 2"
  have n: "on_os (now_ms demo_ex) ?w = (Inr 5, ?w)" by (simp add: on_os_def now_ms_def demo_ex_simps)
  have s: "spawn demo_ex (demo_spec None) ?w = (Inr (Inr (7, 0)), ?w\<lparr>w_owned := [7], w_handles := [demo_handle]\<rparr>)"
    by (subst demo_spawn) (simp_all add: demo_world_def)
  show ?thesis
    by (simp add: start_background_def bindE_def n s on_procs_def alloc_id_def thenE_def returnE_def Let_def)
       (simp add: demo_spec_def demo_world_def show_radix.simps digit_char_def str_eval)
qed

theorem start_then_lookup_witness:
  "\<exists>p w'. start_background demo_ex (demo_spec None) (demo_world [] 2) = (Inr (Inr p), w') \<and> pr_id p = ''p-0'' \<and>
     is_opaque_process_id ''p-0''"
proof -
  obtain p w' where p: "start_background demo_ex (demo_spec None) (demo_world [] 2) = (Inr (Inr p), w')" "pr_id p = ''p-0''"
    using demo_background by fastforce
  have "is_opaque_process_id (pr_id p)"
    by (rule conjunct1 [OF start_then_lookup [OF p(1)]]) (simp add: demo_world_def)
  with p show ?thesis by auto
qed

theorem process_delete_effect_witness:
  "\<exists>r c'. handle_process_delete demo_codec demo_ex ''7'' None (sample_conn 0 [] (demo_world [] 2)) = (r, c') \<and>
     c_os c' = demo_world [] 2"
proof -
  obtain r c' where c': "handle_process_delete demo_codec demo_ex ''7'' None (sample_conn 0 [] (demo_world [] 2)) = (r, c')" by fastforce
  have "\<not> is_opaque_process_id ''7''" by (simp add: is_opaque_process_id_def strip_prefix_def)
  with process_delete_effect [OF c'] c' show ?thesis by (simp add: sample_conn_def)
qed

theorem wait_and_report_ends_witness:
  "\<exists>info v'. wait_and_report demo_ex 0 0 ((demo_world [] 2)\<lparr>w_handles := [demo_handle], w_owned := [7]\<rparr>) = Some (Inr (Exit info), v') \<and>
     \<not> ph_running (w_handles v' ! 0)"
proof -
  let ?v = "(demo_world [] 2)\<lparr>w_handles := [demo_handle], w_owned := [7]\<rparr>"
  have "\<And>w w' e. k_waitid_exited demo_ex (ph_pid (w_handles ?v ! 0)) w = (Inl e, w') \<Longrightarrow> kind e = Interrupted \<Longrightarrow> w' < w"
    by (simp add: demo_ex_simps returnE_def)
  from wait_and_report_ends [of demo_ex ?v 0 "\<lambda>w. w", OF this] show ?thesis by fastforce
qed

end
