(* ===== verification/Files.thy ===== *)
theory Files
  imports Http Fsutil Sandbox_Entry
begin

text \<open>
  \<open>src/files.rs\<close>: the file endpoints. A request's \<open>path\<close> becomes a \<open>target\<close>, an ordinary path
  in dedicated mode and a scoped root with a normalised path in host mode; each handler acts on
  the target and answers with exactly one response.

  The lemmas show that a handler that returns successfully has put exactly one response on the
  wire whose length header agrees with its body (so the connection stays in step), that a ranged
  read returns the bytes the kernel delivered and fails the connection otherwise, that following
  the cursor of the paginated listing visits every entry once and in order, and that in host mode
  every handler stays inside the sandbox's home.
\<close>

section \<open>Targets\<close>

datatype target = Direct string | Scoped scoped_root string

fun tg_display :: "target \<Rightarrow> string" where
  "tg_display (Direct path) = path"
| "tg_display (Scoped root rel) = sr_display root rel"

text \<open>Calls of \<open>std::fs\<close> that name their object by path.\<close>

definition by_path_fd :: "string \<Rightarrow> ('w, fd) io \<Rightarrow> ('w osw, fd) io" where
  "by_path_fd p = sys_fd (ByPath p)"

definition by_path :: "string \<Rightarrow> ('w, 'a) io \<Rightarrow> ('w osw, 'a) io" where
  "by_path p = sys (ByPath p)"

fun tg_open_read :: "('w, 'z) kernel_scheme \<Rightarrow> target \<Rightarrow> ('w osw, fd) io" where
  "tg_open_read K (Direct path) =
     bindE (by_path_fd path (k_open K path (O_RDONLY OR O_CLOEXEC OR O_NONBLOCK) 438)) (\<lambda>f.
     bindE (fd_metadata K f) (\<lambda>md.
       if is_dir md then throwE (OsError EISDIR)
       else if \<not> is_file md then throwE not_regular
       else returnE f))"
| "tg_open_read K (Scoped root rel) = sr_open_read K root rel"

fun tg_open_write :: "('w, 'z) kernel_scheme \<Rightarrow> target \<Rightarrow> bool \<Rightarrow> nat option \<Rightarrow> ('w osw, fd) io" where
  "tg_open_write K (Direct path) create_parents offset =
     thenE (if create_parents
            then (case path_parent path of
                    None \<Rightarrow> returnE ()
                  | Some parent \<Rightarrow> if parent \<noteq> [] then by_path parent (k_create_dir_all K parent) else returnE ())
            else returnE ())
       (let fl = O_WRONLY OR O_CREAT OR O_CLOEXEC OR (if offset = None then O_TRUNC else 0) in
        by_path_fd path (k_open K path fl 438))"
| "tg_open_write K (Scoped root rel) create_parents offset = sr_open_write K root rel create_parents offset"

fun tg_metadata :: "('w, 'z) kernel_scheme \<Rightarrow> target \<Rightarrow> ('w osw, metadata) io" where
  "tg_metadata K (Direct path) = by_path path (k_lstat K path)"
| "tg_metadata K (Scoped root rel) = sr_metadata K root rel"

text \<open>
  The loop over \<open>fs::read_dir\<close> by path. An element is the entry's name with the outcome of
  \<open>entry.metadata()\<close>; an entry without metadata is left out.
\<close>

fun direct_entries :: "string \<Rightarrow> (string \<times> metadata result) result list \<Rightarrow> (string \<times> metadata) list result" where
  "direct_entries path [] = Inr []"
| "direct_entries path (Inl e # es) = Inl e"
| "direct_entries path (Inr (name, md) # es) =
     (case direct_entries path es of
        Inl e \<Rightarrow> Inl e
      | Inr rest \<Rightarrow> Inr ((case md of Inl _ \<Rightarrow> [] | Inr m \<Rightarrow> [(pb_push path name, m)]) @ rest))"

fun tg_list :: "('w, 'z) kernel_scheme \<Rightarrow> target \<Rightarrow> ('w osw, (string \<times> metadata) list) io" where
  "tg_list K (Direct path) =
     bindE (by_path path (k_read_dir K path)) (\<lambda>es. liftR (direct_entries path es))"
| "tg_list K (Scoped root rel) = sr_list K root rel"

text \<open>\<open>fuel\<close> bounds the recursion depth of a scoped recursive delete; \<open>None\<close> when it runs out.\<close>

fun tg_delete :: "nat \<Rightarrow> ('w, 'z) kernel_scheme \<Rightarrow> target \<Rightarrow> bool \<Rightarrow> ('w osw, unit option) io" where
  "tg_delete fuel K (Direct path) recursive =
     bindE (by_path path (k_lstat K path)) (\<lambda>md.
     bindE (if is_dir md
            then if recursive then by_path path (k_remove_dir_all K path) else by_path path (k_remove_dir K path)
            else by_path path (k_remove_file K path)) (\<lambda>_. returnE (Some ())))"
| "tg_delete fuel K (Scoped root rel) recursive = sr_delete fuel K root rel recursive"

fun tg_mkdir_all :: "('w, 'z) kernel_scheme \<Rightarrow> target \<Rightarrow> ('w osw, unit) io" where
  "tg_mkdir_all K (Direct path) = by_path path (k_create_dir_all K path)"
| "tg_mkdir_all K (Scoped root rel) = sr_mkdir_all K root rel"

section \<open>Handlers\<close>

text \<open>
  The handlers run on a connection whose world is the operating system. \<open>C\<close> is the JSON codec
  and \<open>K\<close> the kernel.
\<close>

definition on_req :: "(request \<Rightarrow> ('w conn, 'a) io) \<Rightarrow> ('w conn, 'a) io" where
  "on_req g c = g (c_req c) c"

definition require_path ::
  "codec \<Rightarrow> ('w, 'z) kernel_scheme \<Rightarrow> sandbox_entry option \<Rightarrow> ('w osw conn, target option) io" where
  "require_path C K sandbox = on_req (\<lambda>q.
     (case hm_get (params q) ''path'' of
        Some raw \<Rightarrow>
          if raw = [] then thenE (resp (rw_error C 400 (''missing '' @ squote ''path'' @ '' query parameter''))) (returnE None)
          else (case sandbox of
              None \<Rightarrow> returnE (Some (Direct raw))
            | Some sbx \<Rightarrow>
                catchE (os (scoped_open K (e_home sbx) (e_uid sbx)))
                  (\<lambda>root. returnE (Some (Scoped root (normalize_relative raw))))
                  (\<lambda>e. thenE (resp (rw_error C 500 (''cannot open sandbox home: '' @ error_text K e))) (returnE None)))
      | None \<Rightarrow> thenE (resp (rw_error C 400 (''missing '' @ squote ''path'' @ '' query parameter''))) (returnE None)))"

text \<open>\<open>path.display()\<close> and \<open>to_string_lossy\<close>.\<close>

abbreviation lossy :: "string \<Rightarrow> string" where "lossy \<equiv> from_utf8_lossy"

definition fs_error ::
  "codec \<Rightarrow> ('w, 'z) kernel_scheme \<Rightarrow> string \<Rightarrow> string \<Rightarrow> io_error \<Rightarrow> (response_writer, unit) io" where
  "fs_error C K action path e =
     (if raw_os_error e = Some ELOOP then
        rw_error C 400 (''cannot '' @ action @ '' '' @ lossy path @
          '': a path component is a symlink, which this API does not follow'')
      else if kind e = NotFound then rw_error C 404 (''no such path: '' @ lossy path)
      else rw_error C 400 (''cannot '' @ action @ '' '' @ lossy path @ '': '' @ error_text K e))"

text \<open>The copy loop of \<open>handle_read\<close>: what is left to send when it stops.\<close>

function read_loop :: "('w, 'z) kernel_scheme \<Rightarrow> fd \<Rightarrow> nat \<Rightarrow> nat \<Rightarrow> 'w osw conn \<Rightarrow> nat result \<times> 'w osw conn" where
  "read_loop K f buf_len remaining c =
     (if 0 < remaining then
        (case os (sys (ReadFd f (min buf_len remaining)) (k_read K f (min buf_len remaining))) c of
           (Inl e, c') \<Rightarrow> (Inl e, c')
         | (Inr bs, c') \<Rightarrow>
             if bs = [] then (Inr remaining, c')
             else (case resp (rw_raw bs) c' of
                 (Inl e, c'') \<Rightarrow> (Inl e, c'')
               | (Inr _, c'') \<Rightarrow> read_loop K f buf_len (remaining - length bs) c''))
      else (Inr remaining, c))"
  by pat_completeness auto
termination
  by (relation "measure (\<lambda>(_, _, _, remaining, _). remaining)") auto

declare read_loop.simps [simp del]

definition shrank :: io_error where
  "shrank = IoError UnexpectedEof
     ''file shrank during read; closing the connection to avoid a desynchronised response''"

definition param_u64 :: "request \<Rightarrow> string \<Rightarrow> nat option" where
  "param_u64 r key = Option.bind (hm_get (params r) key) parse_u64"

text \<open>The part of \<open>handle_read\<close> behind the open: the ranged transfer of one open file.\<close>

definition send_file :: "codec \<Rightarrow> ('w, 'z) kernel_scheme \<Rightarrow> string \<Rightarrow> fd \<Rightarrow> ('w osw conn, unit) io" where
  "send_file C K display f =
     bindE (os (fd_metadata K f)) (\<lambda>md.
       if is_dir md then resp (rw_error C 409 (''is a directory: '' @ lossy display))
       else on_req (\<lambda>q.
         (let offset = (case param_u64 q ''offset'' of Some n \<Rightarrow> n | None \<Rightarrow> 0);
              len = min (case param_u64 q ''length'' of Some n \<Rightarrow> n | None \<Rightarrow> u64_max)
                      (md_len md - offset)
          in thenE (if 0 < offset then os (sys (SeekFd f offset) (k_seek K f offset)) else returnE ())
             (thenE (resp (start_fixed 200 ''application/octet-stream'' len))
                (bindE (read_loop K f (min len (256 * 1024)) len) (\<lambda>remaining.
                   thenE (resp rw_flush)
                     (if 0 < remaining then throwE shrank else returnE ())))))))"

definition handle_read :: "codec \<Rightarrow> ('w, 'z) kernel_scheme \<Rightarrow> sandbox_entry option \<Rightarrow> ('w osw conn, unit) io" where
  "handle_read C K sandbox =
     bindE (require_path C K sandbox) (\<lambda>tgt. case tgt of None \<Rightarrow> returnE () | Some target \<Rightarrow>
       catchE (os (tg_open_read K target))
         (send_file C K (tg_display target))
         (\<lambda>e. if raw_os_error e = Some EISDIR
               then resp (rw_error C 409 (''is a directory: '' @ lossy (tg_display target)))
               else resp (fs_error C K ''open'' (tg_display target) e)))"

definition handle_write :: "codec \<Rightarrow> ('w, 'z) kernel_scheme \<Rightarrow> sandbox_entry option \<Rightarrow> ('w osw conn, unit) io" where
  "handle_write C K sandbox =
     bindE (require_path C K sandbox) (\<lambda>tgt. case tgt of None \<Rightarrow> returnE () | Some target \<Rightarrow> on_req (\<lambda>q.
     (let display = tg_display target;
          mkdir = bool_param (params q) ''mkdir'' True;
          mode = Option.bind (hm_get (params q) ''mode'') (from_str_radix 8 u32_max);
          offset = param_u64 q ''offset'';
          truncate_to = param_u64 q ''truncate_to''
      in catchE (os (tg_open_write K target mkdir offset))
        (\<lambda>f. catchE (case offset of
                       Some off \<Rightarrow> os (sys (SeekFd f off) (k_seek K f off))
                     | None \<Rightarrow> returnE ())
           (\<lambda>_. bindE (stream_body (\<lambda>chunk. sys (WriteFd f chunk) (k_write_all K f chunk))) (\<lambda>size.
              catchE (case truncate_to of
                        Some final_size \<Rightarrow> os (sys (SetLen f final_size) (k_set_len K f final_size))
                      | None \<Rightarrow> returnE ())
                (\<lambda>_. thenE (case mode of Some m \<Rightarrow> ignoreE (os (fchmod K f m)) | None \<Rightarrow> returnE ())
                   (resp (rw_json C 200 (JObject [(''path'', JString (lossy display)), (''size'', JNat size)]))))
                (\<lambda>e. resp (rw_error C 400 (''cannot truncate '' @ lossy display @ '' to '' @
                        show_nat (the truncate_to) @ '': '' @ error_text K e)))))
           (\<lambda>e. resp (rw_error C 400 (''cannot seek in '' @ lossy display @ '': '' @ error_text K e))))
        (\<lambda>e. resp (fs_error C K ''write'' display e)))))"

text \<open>\<open>Path::file_name\<close>.\<close>

definition path_file_name :: "string \<Rightarrow> string option" where
  "path_file_name p = (case path_components p of [] \<Rightarrow> None | cs \<Rightarrow> normal_name (last cs))"

definition name_of :: "string \<Rightarrow> string" where
  "name_of path = (case path_file_name path of Some n \<Rightarrow> lossy n | None \<Rightarrow> [])"

definition file_type :: "metadata \<Rightarrow> string" where
  "file_type md = (if is_dir md then ''dir'' else if is_symlink md then ''symlink'' else ''file'')"

text \<open>\<open>as_millis() as i64\<close> keeps the low 64 bits.\<close>

definition mtime_json :: "metadata \<Rightarrow> json" where
  "mtime_json md =
     (case md_mtime_ms md of
        Some t \<Rightarrow> if 0 \<le> t then JInt (sint (word_of_int t :: i64)) else JNull
      | None \<Rightarrow> JNull)"

definition entry_json :: "string \<Rightarrow> metadata \<Rightarrow> json" where
  "entry_json path md =
     JObject [(''name'', JString (name_of path)),
              (''path'', JString (lossy path)),
              (''type'', JString (file_type md)),
              (''size'', JNat (md_len md)),
              (''mtime_ms'', mtime_json md),
              (''mode'', JString (show_radix 8 (md_mode md mod 4096)))]"

text \<open>The page of a listing: items, whether more follow, and the cursor.\<close>

definition list_page :: "nat \<Rightarrow> string \<Rightarrow> (string \<times> metadata) list \<Rightarrow> (string \<times> json) list \<times> bool \<times> string option" where
  "list_page limit after entries =
     (let named = filter (\<lambda>(name, _). after < name) (map (\<lambda>(path, md). (name_of path, entry_json path md)) entries);
          sorted = sort_key fst named;
          truncated = limit < length sorted;
          page = take limit sorted;
          next = (if truncated then (if page = [] then None else Some (fst (last page))) else None)
      in (page, truncated, next))"

definition handle_list :: "codec \<Rightarrow> ('w, 'z) kernel_scheme \<Rightarrow> sandbox_entry option \<Rightarrow> ('w osw conn, unit) io" where
  "handle_list C K sandbox =
     bindE (require_path C K sandbox) (\<lambda>tgt. case tgt of None \<Rightarrow> returnE () | Some target \<Rightarrow> on_req (\<lambda>q.
     (let display = tg_display target;
          limit = min (case Option.bind (hm_get (params q) ''limit'') parse_usize of Some n \<Rightarrow> n | None \<Rightarrow> 10000) 50000;
          after = (case hm_get (params q) ''after'' of Some s \<Rightarrow> s | None \<Rightarrow> [])
      in catchE (os (tg_list K target))
        (\<lambda>entries. case list_page limit after entries of (page, truncated, next) \<Rightarrow>
           resp (rw_json C 200 (JObject [(''entries'', JArray (map snd page)),
             (''truncated'', JBool truncated), (''next'', json_opt JString next)])))
        (\<lambda>e. resp (fs_error C K ''list'' display e)))))"

definition handle_stat :: "codec \<Rightarrow> ('w, 'z) kernel_scheme \<Rightarrow> sandbox_entry option \<Rightarrow> ('w osw conn, unit) io" where
  "handle_stat C K sandbox =
     bindE (require_path C K sandbox) (\<lambda>tgt. case tgt of None \<Rightarrow> returnE () | Some target \<Rightarrow>
       catchE (os (tg_metadata K target))
         (\<lambda>md. resp (rw_json C 200 (entry_json (tg_display target) md)))
         (\<lambda>e. resp (fs_error C K ''stat'' (tg_display target) e)))"

definition handle_delete ::
  "nat \<Rightarrow> codec \<Rightarrow> ('w, 'z) kernel_scheme \<Rightarrow> sandbox_entry option \<Rightarrow> ('w osw conn, unit option) io" where
  "handle_delete fuel C K sandbox =
     bindE (require_path C K sandbox) (\<lambda>tgt. case tgt of None \<Rightarrow> returnE (Some ()) | Some target \<Rightarrow> on_req (\<lambda>q.
     (let recursive = bool_param (params q) ''recursive'' False in
      catchE (os (tg_delete fuel K target recursive))
        (\<lambda>r. case r of
               None \<Rightarrow> returnE None
             | Some _ \<Rightarrow> bindE (resp (rw_json C 200 (JObject [(''deleted'', JString (lossy (tg_display target)))])))
                           (\<lambda>_. returnE (Some ())))
        (\<lambda>e. bindE (resp (fs_error C K ''delete'' (tg_display target) e)) (\<lambda>_. returnE (Some ()))))))"

definition handle_mkdir :: "codec \<Rightarrow> ('w, 'z) kernel_scheme \<Rightarrow> sandbox_entry option \<Rightarrow> ('w osw conn, unit) io" where
  "handle_mkdir C K sandbox =
     bindE (require_path C K sandbox) (\<lambda>tgt. case tgt of None \<Rightarrow> returnE () | Some target \<Rightarrow>
       catchE (os (tg_mkdir_all K target))
         (\<lambda>_. resp (rw_json C 200 (JObject [(''created'', JString (lossy (tg_display target)))])))
         (\<lambda>e. resp (fs_error C K ''mkdir'' (tg_display target) e)))"

text \<open>
  The contract of \<open>read\<close>: it returns at most as many bytes as the buffer holds.
\<close>

definition reads_bounded :: "('w, 'z) kernel_scheme \<Rightarrow> bool" where
  "reads_bounded K \<longleftrightarrow> (\<forall>f n w bs w'. k_read K f n w = (Inr bs, w') \<longrightarrow> length bs \<le> n)"

lemma reads_boundedD: "reads_bounded K \<Longrightarrow> k_read K f n w = (Inr bs, w') \<Longrightarrow> length bs \<le> n"
  unfolding reads_bounded_def by blast

section \<open>One response per request\<close>

text \<open>A complete response with an explicit length.\<close>

definition fixed_response :: "bool \<Rightarrow> nat \<Rightarrow> string \<Rightarrow> string \<Rightarrow> string" where
  "fixed_response keep_alive status ct body =
     head_prefix status ct keep_alive @ ''Content-Length: '' @ show_nat (length body) @ CRLF @ CRLF @ body"

text \<open>
  \<open>answered\<close>: exactly one complete response was added to the output and is on the wire.
  \<open>silent\<close>: nothing was written.
\<close>

definition answered :: "response_writer \<Rightarrow> response_writer \<Rightarrow> bool" where
  "answered rw rw' \<longleftrightarrow> (\<exists>status ct body.
     sent (rw_writer rw') = rw_output rw @ fixed_response (rw_keep_alive rw) status ct body)"

definition answers :: "('w conn, 'a) io \<Rightarrow> bool" where
  "answers m \<longleftrightarrow> (\<forall>c x c'. m c = (Inr x, c') \<longrightarrow> answered (c_rw c) (c_rw c'))"

definition silent :: "('w conn, 'a) io \<Rightarrow> bool" where
  "silent m \<longleftrightarrow> (\<forall>c. c_rw (snd (m c)) = c_rw c)"

lemma answers_fixed: "answers (resp (rw_fixed status ct body))"
proof -
  have "answered rw rw'" if "rw_fixed status ct body rw = (Inr u, rw')" for rw rw' u
    unfolding answered_def fixed_response_def using rw_fixed_out [OF that] by (intro exI) assumption
  then show ?thesis by (auto simp: answers_def resp_def split: prod.splits)
qed

lemma answers_json: "answers (resp (rw_json C status j))" "answers (resp (rw_error C status msg))"
  by (simp_all add: rw_json_def rw_error_def answers_fixed)

lemma answers_fs_error: "answers (resp (fs_error C K action path e))"
  by (simp add: fs_error_def answers_json)

lemma silent_os: "silent (os m)"
  by (auto simp: silent_def os_def split: prod.splits)

lemma silent_osD: "os m c = (r, c') \<Longrightarrow> c_rw c' = c_rw c"
  using silent_os [of m] unfolding silent_def by (metis snd_conv)

lemma silent_returnE: "silent (returnE x)"
  by (simp add: silent_def returnE_def)

lemma silent_stream_body: "silent (stream_body f)"
  by (auto simp: silent_def stream_body_def Let_def split: prod.splits)

lemma silent_if: "silent m \<Longrightarrow> silent n \<Longrightarrow> silent (if b then m else n)"
  by simp

lemma silent_ignoreE: "silent m \<Longrightarrow> silent (ignoreE m)"
  by (simp add: silent_def ignoreE_def)

lemma silent_case_option: "silent m \<Longrightarrow> (\<And>y. silent (f y)) \<Longrightarrow> silent (case z of None \<Rightarrow> m | Some y \<Rightarrow> f y)"
  by (cases z) auto

lemmas silent_intros = silent_os silent_returnE silent_stream_body silent_if silent_ignoreE silent_case_option

lemma answers_bind_silent: "silent m \<Longrightarrow> (\<And>x. answers (f x)) \<Longrightarrow> answers (bindE m f)"
  unfolding answers_def silent_def by (auto simp: bindE_Inr) (metis snd_conv)

lemma answers_then_silent: "silent m \<Longrightarrow> answers n \<Longrightarrow> answers (thenE m n)"
  unfolding thenE_def by (rule answers_bind_silent)

lemma answers_catch_silent:
  "silent m \<Longrightarrow> (\<And>x. answers (f x)) \<Longrightarrow> (\<And>e. answers (h e)) \<Longrightarrow> answers (catchE m f h)"
  unfolding answers_def silent_def catchE_def
  by (auto split: prod.splits sum.splits) (metis snd_conv)+

lemma answers_bind_return: "answers m \<Longrightarrow> answers (bindE m (\<lambda>_. returnE y))"
  by (auto simp: answers_def bindE_Inr returnE_def)

lemma answers_on_req: "(\<And>q. answers (g q)) \<Longrightarrow> answers (on_req g)"
  unfolding answers_def on_req_def by blast

lemma answers_if: "answers m \<Longrightarrow> answers n \<Longrightarrow> answers (if b then m else n)"
  by simp

lemmas answers_intros = answers_json answers_fs_error answers_bind_silent answers_then_silent
  answers_catch_silent answers_bind_return

lemma require_path_answers:
  assumes "require_path C K sandbox c = (Inr tgt, c')"
  shows "case tgt of None \<Rightarrow> answered (c_rw c) (c_rw c') | Some _ \<Rightarrow> c_rw c' = c_rw c"
proof -
  have err: "answered (c_rw d) (c_rw c')" if "resp (rw_error C st msg) d = (Inr u, c')" for d st msg u
    using answers_json(2) that unfolding answers_def by blast
  show ?thesis
    using assms unfolding require_path_def on_req_def
    by (auto simp: thenE_def bindE_Inr catchE_def returnE_def
        split: option.splits if_splits prod.splits sum.splits dest!: err dest: silent_osD)
qed

lemma answers_require_path:
  assumes "\<And>t. answers (f t)"
  shows "answers (bindE (require_path C K sandbox) (\<lambda>tgt. case tgt of None \<Rightarrow> returnE y | Some t \<Rightarrow> f t))"
  unfolding answers_def
proof (intro allI impI)
  fix c x c'
  assume "bindE (require_path C K sandbox) (\<lambda>tgt. case tgt of None \<Rightarrow> returnE y | Some t \<Rightarrow> f t) c = (Inr x, c')"
  then obtain tgt d where t: "require_path C K sandbox c = (Inr tgt, d)"
    "(case tgt of None \<Rightarrow> returnE y | Some t \<Rightarrow> f t) d = (Inr x, c')" by (auto simp: bindE_Inr)
  with require_path_answers [OF t(1)] assms show "answered (c_rw c) (c_rw c')"
    unfolding answers_def by (cases tgt) (simp_all add: returnE_def, metis)
qed

lemma read_loop_out:
  "read_loop K f buf remaining c = (Inr left, c') \<Longrightarrow>
     reads_bounded K \<Longrightarrow>
     \<exists>data. rw_output (c_rw c') = rw_output (c_rw c) @ data \<and> length data + left = remaining \<and>
       same_flags (c_rw c) (c_rw c')"
proof (induction K f buf remaining c arbitrary: left c' rule: read_loop.induct)
  case (1 K f buf remaining c)
  show ?case
  proof (cases "0 < remaining")
    case False
    with 1 show ?thesis by (auto simp: read_loop.simps [of K f buf remaining c] same_flags_def)
  next
    case True
    let ?n = "min buf remaining"
    let ?rd = "os (sys (ReadFd f ?n) (k_read K f ?n))"
    obtain r c1 where rd: "?rd c = (r, c1)" by (cases "?rd c")
    have same: "c_rw c1 = c_rw c" using rd by (rule silent_osD)
    from 1(2) True rd obtain bs where bs: "r = Inr bs"
      by (cases r) (auto simp: read_loop.simps [of K f buf remaining c])
    have len: "length bs \<le> ?n"
      using rd bs 1(3) by (auto simp: os_def sys_def simp del: min.bounded_iff split: prod.splits intro: reads_boundedD)
    show ?thesis
    proof (cases "bs = []")
      case True
      with 1(2) \<open>0 < remaining\<close> rd bs same show ?thesis
        by (auto simp: read_loop.simps [of K f buf remaining c] same_flags_def)
    next
      case False
      obtain r2 c2 where wr: "resp (rw_raw bs) c1 = (r2, c2)" by (cases "resp (rw_raw bs) c1")
      with 1(2) True rd bs False obtain u where u: "r2 = Inr u"
        by (cases r2) (auto simp: read_loop.simps [of K f buf remaining c])
      have out: "rw_output (c_rw c2) = rw_output (c_rw c) @ bs" "same_flags (c_rw c) (c_rw c2)"
        using wr u same by (auto simp: resp_def rw_raw_def split: prod.splits dest!: on_writer_write)
      have "read_loop K f buf (remaining - length bs) c2 = (Inr left, c')"
        using 1(2) True rd bs False wr u by (simp add: read_loop.simps [of K f buf remaining c])
      from 1(1) [OF True rd [symmetric] bs False wr [symmetric] u this 1(3)] obtain data where
        "rw_output (c_rw c') = rw_output (c_rw c2) @ data" "length data + left = remaining - length bs"
        "same_flags (c_rw c2) (c_rw c')" by blast
      with out len show ?thesis by (intro exI [of _ "bs @ data"]) (auto simp: same_flags_def)
    qed
  qed
qed


lemma answers_send_file:
  assumes "reads_bounded K"
  shows "answers (send_file C K display f)"
proof -
  have copy: "answers (thenE (resp (start_fixed 200 ct len)) (bindE (read_loop K f buf len) (\<lambda>remaining.
      thenE (resp rw_flush) (if 0 < remaining then throwE shrank else returnE ()))))" for ct len buf
    unfolding answers_def
  proof (intro allI impI)
    fix c c' :: "'a osw conn" and x
    assume "thenE (resp (start_fixed 200 ct len)) (bindE (read_loop K f buf len) (\<lambda>remaining.
      thenE (resp rw_flush) (if 0 < remaining then throwE shrank else returnE ()))) c = (Inr x, c')"
    then obtain u c1 left c2 v where st: "resp (start_fixed 200 ct len) c = (Inr u, c1)"
      and rl: "read_loop K f buf len c1 = (Inr left, c2)" and fl: "resp rw_flush c2 = (Inr v, c')" and l0: "left = 0"
      by (auto simp: thenE_def bindE_Inr throwE_def returnE_def split: if_splits)
    from st have "rw_output (c_rw c1) = rw_output (c_rw c) @ head_prefix 200 ct (rw_keep_alive (c_rw c)) @
      ''Content-Length: '' @ show_nat len @ CRLF @ CRLF"
      by (auto simp: resp_def start_fixed_def split: prod.splits dest!: write_head_out)
    moreover from fl have "sent (rw_writer (c_rw c')) = rw_output (c_rw c2)"
      by (auto simp: resp_def rw_flush_def split: prod.splits dest!: on_writer_flush)
    moreover from read_loop_out [OF rl assms] obtain data where
      "rw_output (c_rw c2) = rw_output (c_rw c1) @ data" "length data = len" using l0 by auto
    ultimately show "answered (c_rw c) (c_rw c')"
      unfolding answered_def fixed_response_def by (intro exI [of _ 200] exI [of _ ct] exI [of _ data]) simp
  qed
  show ?thesis
    unfolding send_file_def Let_def
    by (intro answers_bind_silent silent_os answers_if answers_on_req answers_json answers_then_silent silent_if
        silent_returnE copy)
qed

lemma handle_delete_answers:
  assumes "handle_delete fuel C K sandbox c = (Inr (Some ()), c')"
  shows "answered (c_rw c) (c_rw c')"
proof -
  obtain tgt d where rp: "require_path C K sandbox c = (Inr tgt, d)"
    using assms by (auto simp: handle_delete_def bindE_Inr)
  show ?thesis
  proof (cases tgt)
    case None
    with assms rp require_path_answers [OF rp] show ?thesis
      by (auto simp: handle_delete_def bindE_run returnE_def)
  next
    case (Some t)
    let ?ok = "resp (rw_json C 200 (JObject [(''deleted'', JString (lossy (tg_display t)))]))"
    let ?b = "bool_param (params (c_req d)) ''recursive'' False"
    obtain r d1 where r: "os (tg_delete fuel K t ?b) d = (r, d1)" by (cases "os (tg_delete fuel K t ?b) d")
    have "handle_delete fuel C K sandbox c = catchE (os (tg_delete fuel K t ?b))
        (\<lambda>r. case r of None \<Rightarrow> returnE None | Some _ \<Rightarrow> bindE ?ok (\<lambda>_. returnE (Some ())))
        (\<lambda>e. bindE (resp (fs_error C K ''delete'' (tg_display t) e)) (\<lambda>_. returnE (Some ()))) d"
      using rp Some by (simp add: handle_delete_def bindE_run on_req_def)
    with assms r have "?ok d1 = (Inr (), c') \<or> (\<exists>e. resp (fs_error C K ''delete'' (tg_display t) e) d1 = (Inr (), c'))"
      by (auto simp: catchE_def bindE_Inr returnE_def split: sum.splits option.splits)
    then have "answered (c_rw d1) (c_rw c')"
      using answers_json(1) answers_fs_error unfolding answers_def by metis
    then show ?thesis
      using require_path_answers [OF rp] Some silent_osD [OF r] by simp
  qed
qed

text \<open>
  C38: a file handler that returns successfully has put exactly one response on the wire, and the
  length that response announces is the length of its body. In particular a download whose file
  shrank, and which therefore sent too little, never returns successfully: the connection is
  closed instead of falling out of step.
\<close>

theorem files_one_response:
  assumes "reads_bounded K"
  shows "answers (handle_read C K sandbox) \<and> answers (handle_write C K sandbox) \<and>
    answers (handle_list C K sandbox) \<and> answers (handle_stat C K sandbox) \<and>
    answers (handle_mkdir C K sandbox) \<and>
    (\<forall>c c'. handle_delete fuel C K sandbox c = (Inr (Some ()), c') \<longrightarrow> answered (c_rw c) (c_rw c'))"
proof (intro conjI)
  show "\<forall>c c'. handle_delete fuel C K sandbox c = (Inr (Some ()), c') \<longrightarrow> answered (c_rw c) (c_rw c')"
    using handle_delete_answers by blast
  show "answers (handle_read C K sandbox)"
    unfolding handle_read_def
    by (intro answers_require_path answers_catch_silent silent_os answers_send_file assms)
       (simp add: answers_json answers_fs_error)
  show "answers (handle_stat C K sandbox)" "answers (handle_mkdir C K sandbox)"
    unfolding handle_stat_def handle_mkdir_def
    by (intro answers_require_path answers_catch_silent silent_os answers_json answers_fs_error)+
  show "answers (handle_list C K sandbox)"
    unfolding handle_list_def Let_def
    by (intro answers_require_path answers_on_req answers_catch_silent silent_os answers_fs_error)
       (auto split: prod.split intro: answers_json)
  show "answers (handle_write C K sandbox)"
    unfolding handle_write_def Let_def
    by (intro answers_require_path answers_on_req answers_catch_silent answers_bind_silent
        answers_then_silent silent_intros answers_json answers_fs_error)
qed

section \<open>Ranged reads\<close>

text \<open>
  In the states \<open>I\<close> the kernel serves one file with fixed content through descriptor \<open>f\<close>: a read
  delivers some bytes from the current position, none only at the end; a seek sets the position
  (of the offsets an \<open>off_t\<close> can hold: the system refuses the others);
  the length reported is that of the content; and none of the three leaves \<open>I\<close>.
\<close>

definition off_max :: nat where "off_max = 2 ^ 63 - 1"

definition serves_file :: "('w, 'z) kernel_scheme \<Rightarrow> ('w \<Rightarrow> bool) \<Rightarrow> fd \<Rightarrow> string \<Rightarrow> ('w \<Rightarrow> nat) \<Rightarrow> bool" where
  "serves_file K I f content pos \<longleftrightarrow>
     (\<forall>n w. I w \<longrightarrow> (\<exists>bs w'. k_read K f n w = (Inr bs, w') \<and> I w' \<and> length bs \<le> n \<and>
        bs = take (length bs) (drop (pos w) content) \<and> pos w' = pos w + length bs \<and>
        (bs = [] \<longrightarrow> n = 0 \<or> length content \<le> pos w))) \<and>
     (\<forall>n w. I w \<longrightarrow> n \<le> off_max \<longrightarrow> (\<exists>w'. k_seek K f n w = (Inr (), w') \<and> I w' \<and> pos w' = n)) \<and>
     (\<forall>w. I w \<longrightarrow> (\<exists>md w'. k_fstat K f w = (Inr md, w') \<and> I w' \<and> is_file md \<and> md_len md = length content \<and> pos w' = pos w))"

lemma serves_file_read:
  assumes "serves_file K I f content pos" and "I w"
  obtains bs w' where "k_read K f n w = (Inr bs, w')" "I w'" "length bs \<le> n"
    "bs = take (length bs) (drop (pos w) content)" "pos w' = pos w + length bs"
    "bs = [] \<Longrightarrow> n = 0 \<or> length content \<le> pos w"
  using assms unfolding serves_file_def by blast

lemma take_chunk:
  assumes "bs = take (length bs) (drop p xs)" and "length bs \<le> n"
  shows "take n (drop p xs) = bs @ take (n - length bs) (drop (p + length bs) xs)"
proof -
  have "take n (drop p xs) = take (length bs) (drop p xs) @ take (n - length bs) (drop (length bs) (drop p xs))"
    using assms(2) by (metis add_diff_inverse_nat leD take_add)
  with assms(1) show ?thesis by (simp add: add.commute)
qed

lemma read_loop_serves:
  assumes K: "serves_file K I f content pos"
  shows "0 < buf \<or> remaining = 0 \<Longrightarrow> I (kst (c_os c)) \<Longrightarrow> room (rw_writer (c_rw c)) = None \<Longrightarrow>
    remaining \<le> length content - pos (kst (c_os c)) \<Longrightarrow>
    \<exists>c'. read_loop K f buf remaining c = (Inr 0, c') \<and> room (rw_writer (c_rw c')) = None \<and>
      rw_output (c_rw c') = rw_output (c_rw c) @ take remaining (drop (pos (kst (c_os c))) content)"
proof (induction remaining arbitrary: c rule: less_induct)
  case (less remaining)
  show ?case
  proof (cases "remaining = 0")
    case True
    with less.prems show ?thesis by (auto simp: read_loop.simps [of K f buf 0 c])
  next
    case False
    let ?n = "min buf remaining" and ?w = "kst (c_os c)"
    obtain bs w' where bs: "k_read K f ?n ?w = (Inr bs, w')" "length bs \<le> ?n"
      "bs = take (length bs) (drop (pos ?w) content)" "pos w' = pos ?w + length bs"
      "bs = [] \<Longrightarrow> ?n = 0 \<or> length content \<le> pos ?w" and I: "I w'"
      using serves_file_read [OF K less.prems(2), of ?n] by blast
    with False less.prems have ne: "bs \<noteq> []" by auto
    define c1 where "c1 = c\<lparr>c_os := (c_os c)\<lparr>kst := w', log := log (c_os c) @ [(ReadFd f ?n, None)]\<rparr>\<rparr>"
    have rd: "os (sys (ReadFd f ?n) (k_read K f ?n)) c = (Inr bs, c1)"
      using bs(1) by (simp add: os_def sys_def c1_def)
    obtain v where v: "bw_write_all bs (rw_writer (c_rw c)) = (Inr (), v)" "room v = None"
      using bw_write_all_open less.prems(3) by blast
    define c2 where "c2 = c1\<lparr>c_rw := (c_rw c)\<lparr>rw_writer := v\<rparr>\<rparr>"
    have wr: "resp (rw_raw bs) c1 = (Inr (), c2)"
      using v by (simp add: resp_def rw_raw_def on_writer_def c2_def c1_def)
    have "remaining - length bs < remaining" using ne False bs(2) by (cases bs) auto
    moreover have "remaining - length bs \<le> length content - pos (kst (c_os c2))"
      using less.prems(4) bs(4) by (simp add: c2_def c1_def)
    ultimately obtain c' where
      c': "read_loop K f buf (remaining - length bs) c2 = (Inr 0, c')" "room (rw_writer (c_rw c')) = None"
      "rw_output (c_rw c') = rw_output (c_rw c2) @ take (remaining - length bs) (drop (pos w') content)"
      using less.IH [of "remaining - length bs" c2] less.prems(1) v(2) I by (auto simp: c2_def c1_def)
    have "rw_output (c_rw c2) = rw_output (c_rw c) @ bs"
      using bw_write_all_ok [OF v(1)] by (simp add: c2_def)
    moreover have "take remaining (drop (pos ?w) content) = bs @ take (remaining - length bs) (drop (pos w') content)"
      using take_chunk [OF bs(3)] bs(2,4) by simp
    ultimately show ?thesis
      using c' rd wr ne False by (simp add: read_loop.simps [of K f buf remaining c])
  qed
qed

text \<open>The range a request asks for.\<close>

definition range_of :: "request \<Rightarrow> string \<Rightarrow> string" where
  "range_of q content =
     take (case param_u64 q ''length'' of Some n \<Rightarrow> n | None \<Rightarrow> length content)
       (drop (case param_u64 q ''offset'' of Some n \<Rightarrow> n | None \<Rightarrow> 0) content)"

lemma send_range:
  assumes K: "serves_file K I f content pos" and I: "I (kst (c_os c))"
    and len: "len \<le> length content - pos (kst (c_os c))"
    and wr: "room (rw_writer (c_rw c)) = None"
  shows "\<exists>c'. thenE (resp (start_fixed 200 ct len)) (bindE (read_loop K f (min len (256 * 1024)) len) (\<lambda>remaining.
      thenE (resp rw_flush) (if 0 < remaining then throwE shrank else returnE ()))) c = (Inr (), c') \<and>
    sent (rw_writer (c_rw c')) = rw_output (c_rw c) @
      fixed_response (rw_keep_alive (c_rw c)) 200 ct (take len (drop (pos (kst (c_os c))) content))"
proof -
  let ?data = "take len (drop (pos (kst (c_os c))) content)"
  obtain rw3 where rw3: "start_fixed 200 ct len (c_rw c) = (Inr (), rw3)" "room (rw_writer rw3) = None"
    using succeeds_write_head [of 200 ct "Some len"] wr unfolding start_fixed_def succeeds_def by auto
  define c3 where "c3 = c\<lparr>c_rw := rw3\<rparr>"
  have st3: "resp (start_fixed 200 ct len) c = (Inr (), c3)"
    using rw3(1) by (simp add: resp_def c3_def)
  have "0 < min len (256 * 1024) \<or> len = 0" by auto
  then obtain c4 where c4: "read_loop K f (min len (256 * 1024)) len c3 = (Inr 0, c4)"
    "room (rw_writer (c_rw c4)) = None" "rw_output (c_rw c4) = rw_output rw3 @ ?data"
    using read_loop_serves [OF K, of "min len (256 * 1024)" len c3] rw3(2) len I
    by (auto simp: c3_def)
  obtain rw5 where rw5: "rw_flush (c_rw c4) = (Inr (), rw5)"
    using succeedsD [OF succeeds_intros(3) c4(2)] unfolding rw_flush_def by auto
  have "rw_output rw3 = rw_output (c_rw c) @ head_prefix 200 ct (rw_keep_alive (c_rw c)) @
      ''Content-Length: '' @ show_nat len @ CRLF @ CRLF"
    using write_head_out [OF rw3(1) [unfolded start_fixed_def]] by simp
  moreover have "sent (rw_writer rw5) = rw_output rw3 @ ?data"
    using rw5 c4(3) by (auto simp: rw_flush_def dest!: on_writer_flush)
  moreover have "length ?data = len" using len by simp
  ultimately show ?thesis
    using st3 c4(1) rw5
    by (auto simp: bindE_run thenE_def resp_def [of rw_flush] returnE_def fixed_response_def)
qed

text \<open>
  A ranged download is exact. For a file whose content stays put, the transfer succeeds and
  the response carries precisely the bytes \<open>[offset, offset + length)\<close> of the content, cut off at
  its end, whatever pieces the kernel returns them in.
\<close>

theorem send_file_range:
  assumes K: "serves_file K I f content pos" and I: "I (kst (c_os c))" and max: "length content \<le> u64_max"
    and at: "\<forall>n. param_u64 (c_req c) ''offset'' = Some n \<longrightarrow> n \<le> off_max"
    and fresh: "pos (kst (c_os c)) = 0" and wr: "room (rw_writer (c_rw c)) = None"
  shows "\<exists>c'. send_file C K display f c = (Inr (), c') \<and>
    sent (rw_writer (c_rw c')) = rw_output (c_rw c) @
      fixed_response (rw_keep_alive (c_rw c)) 200 ''application/octet-stream'' (range_of (c_req c) content)"
proof -
  obtain md w1 where fs: "k_fstat K f (kst (c_os c)) = (Inr md, w1)" "is_file md" "md_len md = length content" "pos w1 = 0" "I w1"
    using K I fresh unfolding serves_file_def by metis
  define c1 where "c1 = c\<lparr>c_os := (c_os c)\<lparr>kst := w1, log := log (c_os c) @ [(Fstat f, None)]\<rparr>\<rparr>"
  have st: "os (fd_metadata K f) c = (Inr md, c1)"
    using fs by (simp add: os_def fd_metadata_def sys_def c1_def)
  define off where "off = (case param_u64 (c_req c) ''offset'' of Some n \<Rightarrow> n | None \<Rightarrow> 0)"
  define len where "len = min (case param_u64 (c_req c) ''length'' of Some n \<Rightarrow> n | None \<Rightarrow> u64_max) (length content - off)"
  have range: "range_of (c_req c) content = take len (drop off content)" "len \<le> length content - off"
    using max by (auto simp: range_of_def len_def off_def min_def split: option.splits)
  obtain c2 where c2: "(if 0 < off then os (sys (SeekFd f off) (k_seek K f off)) else returnE ()) c1 = (Inr (), c2)"
    "c_rw c2 = c_rw c" "pos (kst (c_os c2)) = off" "I (kst (c_os c2))"
  proof (cases "0 < off")
    case True
    then have "off \<le> off_max" using at by (auto simp: off_def split: option.splits)
    then obtain w2 where "k_seek K f off w1 = (Inr (), w2)" "pos w2 = off" "I w2"
      using K fs(5) unfolding serves_file_def by blast
    with True that show ?thesis by (auto simp: os_def sys_def c1_def)
  next
    case False
    then show ?thesis using that [of c1] fs(4,5) by (auto simp: returnE_def c1_def)
  qed
  from send_range [OF K, of c2 len] range c2(2,3,4) wr obtain c' where
    "thenE (resp (start_fixed 200 ''application/octet-stream'' len)) (bindE (read_loop K f (min len (256 * 1024)) len) (\<lambda>remaining.
      thenE (resp rw_flush) (if 0 < remaining then throwE shrank else returnE ()))) c2 = (Inr (), c')"
    "sent (rw_writer (c_rw c')) = rw_output (c_rw c) @
      fixed_response (rw_keep_alive (c_rw c)) 200 ''application/octet-stream'' (range_of (c_req c) content)"
    by fastforce
  moreover have "send_file C K display f c = thenE (if 0 < off then os (sys (SeekFd f off) (k_seek K f off)) else returnE ())
    (thenE (resp (start_fixed 200 ''application/octet-stream'' len)) (bindE (read_loop K f (min len (256 * 1024)) len) (\<lambda>remaining.
      thenE (resp rw_flush) (if 0 < remaining then throwE shrank else returnE ())))) c1"
    using st fs(2,3) by (simp add: send_file_def on_req_def bindE_run Let_def len_def off_def c1_def)
  ultimately show ?thesis using c2(1) by (auto simp: thenE_def bindE_run)
qed

section \<open>Pages of a listing\<close>

definition named_entries :: "(string \<times> metadata) list \<Rightarrow> (string \<times> json) list" where
  "named_entries entries = map (\<lambda>(path, md). (name_of path, entry_json path md)) entries"

text \<open>A client that follows the cursor until the listing is complete.\<close>

fun pages :: "nat \<Rightarrow> nat \<Rightarrow> string \<Rightarrow> (string \<times> metadata) list \<Rightarrow> (string \<times> json) list option" where
  "pages 0 limit after entries = None"
| "pages (Suc fuel) limit after entries =
     (case list_page limit after entries of
        (page, truncated, next) \<Rightarrow>
          (case next of
             None \<Rightarrow> if truncated then None else Some page
           | Some cursor \<Rightarrow> map_option ((@) page) (pages fuel limit cursor entries)))"

definition listing :: "string \<Rightarrow> (string \<times> metadata) list \<Rightarrow> (string \<times> json) list" where
  "listing after entries = filter (\<lambda>e. after < fst e) (sort_key fst (named_entries entries))"

lemma list_page_listing:
  "list_page limit after entries =
     (let S = listing after entries in
      (take limit S, limit < length S,
       if limit < length S \<and> 0 < limit then Some (fst (last (take limit S))) else None))"
proof -
  have "sort_key fst (filter (\<lambda>(name, _). after < name) (map (\<lambda>(path, md). (name_of path, entry_json path md)) entries))
      = listing after entries"
    by (simp add: listing_def named_entries_def filter_sort case_prod_beta')
  then show ?thesis unfolding list_page_def Let_def by auto
qed

lemma listing_strict:
  assumes "distinct (map fst (named_entries entries))"
  shows "sorted_wrt (<) (map fst (listing after entries))"
proof -
  have "distinct (map fst (sort_key fst (named_entries entries)))"
    using assms by (simp add: distinct_map)
  then have "sorted_wrt (<) (map fst (sort_key fst (named_entries entries)))"
    by (simp add: strict_sorted_iff)
  then show ?thesis
    unfolding listing_def by (simp add: sorted_wrt_map sorted_wrt_filter)
qed

lemma filter_after_take:
  fixes S :: "('k :: linorder \<times> 'v) list"
  assumes "sorted_wrt (<) (map fst S)" and "0 < n" and "n < length S"
  shows "filter (\<lambda>e. fst (last (take n S)) < fst e) S = drop n S"
proof -
  from assms have "take n S \<noteq> []" by auto
  then obtain A x where A: "take n S = A @ [x]" by (metis append_butlast_last_id)
  then have S: "S = A @ [x] @ drop n S" by (metis append_take_drop_id append_assoc)
  have "sorted_wrt (<) (map fst (A @ [x] @ drop n S))" using assms(1) S by simp
  then have "filter (\<lambda>e. fst x < fst e) (A @ [x]) = []" "filter (\<lambda>e. fst x < fst e) (drop n S) = drop n S"
    by (auto simp: sorted_wrt_append filter_empty_conv filter_id_conv dest: order.strict_trans)
  with A S show ?thesis by (metis append_Nil append_assoc filter_append last_snoc)
qed

lemma listing_cursor:
  assumes "distinct (map fst (named_entries entries))" and "0 < n" and "n < length (listing after entries)"
  shows "listing (fst (last (take n (listing after entries)))) entries = drop n (listing after entries)"
proof -
  let ?S = "listing after entries" and ?c = "fst (last (take n (listing after entries)))"
  have "last (take n ?S) \<in> set ?S"
    using assms(2,3) by (metis in_set_takeD last_in_set length_greater_0_conv length_take less_imp_le min.absorb2
        take_eq_Nil not_less_iff_gr_or_eq less_nat_zero_code)
  then have "after < ?c" by (auto simp: listing_def)
  then have "listing ?c entries = filter (\<lambda>e. ?c < fst e) ?S"
    unfolding listing_def filter_filter by (intro filter_cong) auto
  then show ?thesis using filter_after_take [OF listing_strict [OF assms(1)] assms(2,3)] by simp
qed

text \<open>
  Pagination is complete. With any positive page size, following the cursor over a directory
  with distinct names returns every entry behind the starting point exactly once, in order of
  name, after at most as many pages as there are entries.
\<close>

theorem list_pages_complete:
  assumes "distinct (map fst (named_entries entries))" and "0 < limit"
  shows "length (listing after entries) < fuel \<Longrightarrow> pages fuel limit after entries = Some (listing after entries)"
proof (induction fuel arbitrary: after)
  case (Suc fuel)
  let ?S = "listing after entries"
  show ?case
  proof (cases "limit < length ?S")
    case False
    then show ?thesis by (simp add: list_page_listing Let_def)
  next
    case True
    with Suc assms listing_cursor [OF assms True]
    have "pages fuel limit (fst (last (take limit ?S))) entries = Some (drop limit ?S)" by simp
    with True assms(2) show ?thesis by (simp add: list_page_listing Let_def)
  qed
qed simp

section \<open>Host-mode handlers stay inside the home\<close>

abbreviation calls :: "'w osw conn \<Rightarrow> (fs_call \<times> fd option) list" where
  "calls c \<equiv> log (c_os c)"

lemma safe_os: "safe S m Q \<Longrightarrow> safe_on calls S (os m) Q"
  unfolding safe_on_def os_def by (auto split: prod.splits) (metis fst_conv snd_conv)

lemma safe_resp: "safe_on calls S (resp m) (\<lambda>_ _. True)"
  by (auto simp: safe_on_def resp_def split: prod.splits intro!: exI [of _ "[]"])

lemma safe_on_req: "(\<And>q. safe_on calls S (g q) Q) \<Longrightarrow> safe_on calls S (on_req g) Q"
  by (auto simp: safe_on_def on_req_def)

lemma safe_stream_loop:
  assumes "stream_loop f remaining consumed r w = (res, consumed', r', w')"
    and "\<And>T bs. S \<subseteq> T \<Longrightarrow> safe T (f bs) (\<lambda>_ _. True)"
  shows "\<exists>new. log w' = log w @ new \<and> disciplined S new"
  using assms
proof (induction f remaining consumed r w arbitrary: S res consumed' r' w' rule: stream_loop.induct)
  case (1 f remaining consumed r w)
  show ?case
  proof (cases "\<exists>bs r1. 0 < remaining \<and> rd_read (min (64 * 1024) remaining) r = (Inr bs, r1) \<and> bs \<noteq> []")
    case False
    with 1(2) have "w' = w"
      by (auto simp: stream_loop.simps [of f remaining consumed r w] split: if_splits prod.splits sum.splits)
    then show ?thesis by (intro exI [of _ "[]"]) simp
  next
    case True
    then obtain bs r1 where bs: "0 < remaining" "rd_read (min (64 * 1024) remaining) r = (Inr bs, r1)" "bs \<noteq> []"
      by blast
    obtain x w1 where x: "f bs w = (x, w1)" by (cases "f bs w")
    obtain n1 where n1: "log w1 = log w @ n1" "disciplined S n1"
      using safeD [OF 1(3) [OF order_refl] x] by metis
    show ?thesis
    proof (cases x)
      case (Inl e)
      with 1(2) bs x n1 show ?thesis by (auto simp: stream_loop.simps [of f remaining consumed r w])
    next
      case (Inr u)
      have "stream_loop f (remaining - length bs) (consumed + length bs) r1 w1 = (res, consumed', r', w')"
        using 1(2) bs x Inr by (simp add: stream_loop.simps [of f remaining consumed r w])
      moreover have "safe T (f b) (\<lambda>_ _. True)" if "known S n1 \<subseteq> T" for T b
        using that 1(3) known_mono [of S n1] by blast
      ultimately obtain n2 where "log w' = log w1 @ n2" "disciplined (known S n1) n2"
        using 1(1) [OF bs(1) bs(2) [symmetric] refl bs(3) x [symmetric] Inr] by blast
      with n1 show ?thesis by (intro exI [of _ "n1 @ n2"]) (simp add: disciplined_append)
    qed
  qed
qed

lemma safe_stream_body:
  assumes "\<And>T bs. S \<subseteq> T \<Longrightarrow> safe T (f bs) (\<lambda>_ _. True)"
  shows "safe_on calls S (stream_body f) (\<lambda>_ _. True)"
proof -
  have "\<exists>new. calls (snd (stream_body f c)) = calls c @ new \<and> disciplined S new" for c
  proof -
    obtain res n r w where e: "stream_loop f (content_length (c_req c) - body_consumed (c_req c)) (body_consumed (c_req c))
        (c_rd c) (c_os c) = (res, n, r, w)" by (metis prod_cases4)
    with safe_stream_loop [OF e assms] show ?thesis by (auto simp: stream_body_def Let_def)
  qed
  then show ?thesis by (simp add: safe_on_def)
qed


text \<open>
  What a host-mode handler may do to the file system: open the home by its path, and from then
  on disciplined calls on what that open returned.
\<close>

definition confined_to :: "string \<Rightarrow> ('w osw conn, 'a) io \<Rightarrow> bool" where
  "confined_to home m \<longleftrightarrow> (\<forall>c. \<exists>new. calls (snd (m c)) = calls c @ new \<and>
     (new = [] \<or> new = [(ByPath home, None)] \<or>
      (\<exists>d rest. new = (ByPath home, Some d) # rest \<and> disciplined {d} rest)))"

lemma resp_calls: "calls (snd (resp m c)) = calls c"
  by (simp add: resp_def split: prod.split)

lemma require_path_calls:
  assumes "require_path C K (Some sbx) c = (r, c1)"
  obtains (early) "calls c1 = calls c" "\<And>t. r \<noteq> Inr (Some t)"
  | (refused) "calls c1 = calls c @ [(ByPath (e_home sbx), None)]" "\<And>t. r \<noteq> Inr (Some t)"
  | (opened) root rel where "r = Inr (Some (Scoped root rel))"
      "calls c1 = calls c @ [(ByPath (e_home sbx), Some (sr_dir root))]"
  using assms unfolding require_path_def on_req_def
  by (auto simp: thenE_def bindE_def catchE_def returnE_def throwE_def resp_def os_def scoped_open_def c_path_def
      liftR_def sys_fd_def split: option.splits if_splits prod.splits sum.splits)
     (metis scoped_root.select_convs(2))

lemma confined_require_path:
  assumes "\<And>root rel. safe_on calls {sr_dir root} (f (Scoped root rel)) (\<lambda>_ _. True)"
  shows "confined_to (e_home sbx) (bindE (require_path C K (Some sbx)) (\<lambda>tgt. case tgt of None \<Rightarrow> returnE y | Some t \<Rightarrow> f t))"
  unfolding confined_to_def
proof
  fix c
  let ?m = "bindE (require_path C K (Some sbx)) (\<lambda>tgt. case tgt of None \<Rightarrow> returnE y | Some t \<Rightarrow> f t)"
  obtain r c1 where r: "require_path C K (Some sbx) c = (r, c1)" by (cases "require_path C K (Some sbx) c")
  have stop: "snd (?m c) = c1" if "\<And>t. r \<noteq> Inr (Some t)"
    using r that by (cases r) (auto simp: bindE_run returnE_def split: option.splits)
  show "\<exists>new. calls (snd (?m c)) = calls c @ new \<and> (new = [] \<or> new = [(ByPath (e_home sbx), None)] \<or>
      (\<exists>d rest. new = (ByPath (e_home sbx), Some d) # rest \<and> disciplined {d} rest))"
    using r
  proof (cases rule: require_path_calls)
    case early
    with stop show ?thesis by (intro exI [of _ "[]"]) simp
  next
    case refused
    with stop show ?thesis by (intro exI [of _ "[(ByPath (e_home sbx), None)]"]) simp
  next
    case (opened root rel)
    then have m: "?m c = f (Scoped root rel) c1" using r by (simp add: bindE_run)
    obtain rest where "calls (snd (f (Scoped root rel) c1)) = calls c1 @ rest" "disciplined {sr_dir root} rest"
      using assms [of root rel] unfolding safe_on_def by blast
    with m opened(2) show ?thesis
      by (intro exI [of _ "(ByPath (e_home sbx), Some (sr_dir root)) # rest"]) simp
  qed
qed

lemma safe_calls_bind:
  "safe_on calls S m (\<lambda>_ _. True) \<Longrightarrow> (\<And>x T. S \<subseteq> T \<Longrightarrow> safe_on calls T (f x) (\<lambda>_ _. True)) \<Longrightarrow>
   safe_on calls S (bindE m f) (\<lambda>_ _. True)"
  by (rule safe_bindE) auto

lemma safe_fd_io:
  "f \<in> S \<Longrightarrow> safe_on calls S (os (sys (ReadFd f n) m1)) (\<lambda>_ _. True)"
  "f \<in> S \<Longrightarrow> safe_on calls S (os (sys (SeekFd f n) m2)) (\<lambda>_ _. True)"
  "f \<in> S \<Longrightarrow> safe_on calls S (os (sys (SetLen f n) m3)) (\<lambda>_ _. True)"
  "f \<in> S \<Longrightarrow> safe_on calls S (os (fchmod K f n)) (\<lambda>_ _. True)"
  "f \<in> S \<Longrightarrow> safe_on calls S (os (fd_metadata K f)) (\<lambda>_ _. True)"
  unfolding fchmod_def by (auto intro!: safe_os safe_sys safe_fd_calls)

lemma safe_read_loop:
  "f \<in> S \<Longrightarrow> safe_on calls S (read_loop K f buf remaining) (\<lambda>_ _. True)"
proof (induction remaining arbitrary: S rule: less_induct)
  case (less remaining)
  let ?rd = "os (sys (ReadFd f (min buf remaining)) (k_read K f (min buf remaining)))"
  have eq: "read_loop K f buf remaining =
    (if 0 < remaining then bindE ?rd (\<lambda>bs. if bs = [] then returnE remaining
       else bindE (resp (rw_raw bs)) (\<lambda>_. read_loop K f buf (remaining - length bs)))
     else returnE remaining)"
    by (rule ext, subst read_loop.simps) (auto simp: bindE_def returnE_def split: prod.split sum.split)
  have "safe_on calls T (read_loop K f buf (remaining - length bs)) (\<lambda>_ _. True)"
    if "S \<subseteq> T" "bs \<noteq> []" "0 < remaining" for T and bs :: string
    using that less by (cases bs) (auto intro!: less.IH)
  with less.prems show ?case
    unfolding eq by (auto intro!: safe_returnE safe_calls_bind safe_fd_io safe_resp)
qed

lemma safe_send_file: "f \<in> S \<Longrightarrow> safe_on calls S (send_file C K display f) (\<lambda>_ _. True)"
  unfolding send_file_def Let_def thenE_def
  by (intro safe_calls_bind safe_if safe_fd_io safe_resp safe_on_req safe_read_loop safe_returnE safe_throwE) auto

lemma safe_fs_error: "safe_on calls S (resp (fs_error C K action path e)) (\<lambda>_ _. True)"
  by (rule safe_resp)

lemma handlers_confined:
  assumes K: "readdir_plain K"
  shows "confined_to (e_home sbx) (handle_read C K (Some sbx))" "confined_to (e_home sbx) (handle_write C K (Some sbx))"
    "confined_to (e_home sbx) (handle_list C K (Some sbx))" "confined_to (e_home sbx) (handle_stat C K (Some sbx))"
    "confined_to (e_home sbx) (handle_delete fuel C K (Some sbx))" "confined_to (e_home sbx) (handle_mkdir C K (Some sbx))"
proof -
  show "confined_to (e_home sbx) (handle_read C K (Some sbx))"
    unfolding handle_read_def
    by (rule confined_require_path, unfold tg_open_read.simps)
       (auto intro!: safe_catchE [OF safe_os [OF safe_open_read]] safe_send_file safe_resp)
  show "confined_to (e_home sbx) (handle_stat C K (Some sbx))"
    unfolding handle_stat_def
    by (rule confined_require_path, unfold tg_metadata.simps)
       (auto intro!: safe_catchE [OF safe_os [OF safe_metadata]] safe_resp)
  show "confined_to (e_home sbx) (handle_mkdir C K (Some sbx))"
    unfolding handle_mkdir_def
    by (rule confined_require_path, unfold tg_mkdir_all.simps)
       (auto intro!: safe_catchE [OF safe_os [OF safe_mkdir_all]] safe_resp)
  show "confined_to (e_home sbx) (handle_list C K (Some sbx))"
    unfolding handle_list_def
    by (rule confined_require_path, unfold tg_list.simps Let_def)
       (auto intro!: safe_on_req safe_catchE [OF safe_os [OF safe_list]] safe_resp K split: prod.split)
  show "confined_to (e_home sbx) (handle_delete fuel C K (Some sbx))"
    unfolding handle_delete_def
    by (rule confined_require_path, unfold tg_delete.simps Let_def)
       (auto intro!: safe_on_req safe_catchE [OF safe_os [OF safe_delete]] safe_calls_bind safe_resp safe_returnE K
         split: option.split)
  have w: "safe_on calls S (stream_body (\<lambda>chunk. sys (WriteFd f chunk) (g f chunk))) (\<lambda>_ _. True)" if "f \<in> S" for f g S
    using that by (auto intro!: safe_stream_body safe_sys)
  show "confined_to (e_home sbx) (handle_write C K (Some sbx))"
    unfolding handle_write_def
    by (rule confined_require_path, unfold tg_open_write.simps Let_def thenE_def,
        intro safe_on_req safe_catchE [OF safe_os [OF safe_open_write]])
       (auto intro!: safe_catchE [where Q = "\<lambda>_ _. True"] safe_calls_bind safe_resp safe_returnE safe_fd_io
         safe_ignoreE [OF safe_fd_io(4)] w split: option.split)
qed

text \<open>
  C4: host-mode file endpoints are confined. Whatever the request says and however the kernel
  answers, a handler opens the sandbox's home by path and then only makes disciplined calls from
  that descriptor: one plain name at a time, no symbolic link followed.
\<close>

theorem files_confined:
  assumes "readdir_plain K"
  shows "confined_to (e_home sbx) (handle_read C K (Some sbx)) \<and>
    confined_to (e_home sbx) (handle_write C K (Some sbx)) \<and>
    confined_to (e_home sbx) (handle_list C K (Some sbx)) \<and>
    confined_to (e_home sbx) (handle_stat C K (Some sbx)) \<and>
    confined_to (e_home sbx) (handle_delete fuel C K (Some sbx)) \<and>
    confined_to (e_home sbx) (handle_mkdir C K (Some sbx))"
  using handlers_confined [OF assms] by simp

definition file_kernel :: "string \<Rightarrow> nat kernel" where
  "file_kernel content = demo_kernel\<lparr>
     k_read := (\<lambda>f n w. (Inr (take n (drop w content)), w + length (take n (drop w content)))),
     k_seek := (\<lambda>f n w. (Inr (), n)),
     k_fstat := (\<lambda>f w. (Inr \<lparr>md_kind = RegularFile, md_len = length content, md_uid = 0, md_mode = 384, md_mtime_ms = None\<rparr>, w))\<rparr>"

lemma file_kernel_serves: "serves_file (file_kernel content) (\<lambda>_. True) f content id"
  by (auto simp: serves_file_def file_kernel_def min_def)

lemma file_kernel_reads: "reads_bounded (file_kernel content)"
  by (auto simp: reads_bounded_def file_kernel_def)

lemma file_kernel_readdir: "readdir_plain (file_kernel content)"
  using demo_kernel_readdir by (simp add: readdir_plain_def file_kernel_def)

definition demo_conn :: "(string \<times> string) list \<Rightarrow> nat osw conn" where
  "demo_conn ps = \<lparr>c_req = \<lparr>rq_method = ''GET'', rq_path = ''/v1/files'', params = ps, raw_query = [], headers = [],
      content_length = 0, body_consumed = 0, rq_keep_alive = True\<rparr>, c_rd = [], c_rw = rw_new open_writer True,
     c_os = \<lparr>kst = 0, log = []\<rparr>\<rparr>"

abbreviation demo_md :: metadata where
  "demo_md \<equiv> \<lparr>md_kind = RegularFile, md_len = 3, md_uid = 0, md_mode = 384, md_mtime_ms = None\<rparr>"

abbreviation demo_entry :: sandbox_entry where
  "demo_entry \<equiv> \<lparr>e_id = ''ab'', e_uid = 20000, e_home = ''/h'', e_created_at_ms = 0, e_env = [], e_max_procs = 1,
     e_max_mem_mb = 1, e_token = ''t'', e_confinement = UidOnly, e_last_activity_ms = 0, e_idle_timeout_ms = 0\<rparr>"

theorem files_confined_witness:
  "confined_to ''/h'' (handle_delete 2 demo_codec demo_kernel (Some demo_entry))"
  using files_confined [OF demo_kernel_readdir, of demo_entry demo_codec 2] by simp

theorem send_file_range_witness:
  "\<exists>c'. send_file demo_codec (file_kernel ''hello'') ''/h/f'' 5 (demo_conn [(''offset'', ''1''), (''length'', ''3'')]) = (Inr (), c') \<and>
    sent (rw_writer (c_rw c')) = fixed_response True 200 ''application/octet-stream'' ''ell''"
proof -
  let ?c = "demo_conn [(''offset'', ''1''), (''length'', ''3'')]"
  have r: "range_of (c_req ?c) ''hello'' = ''ell''"
    by (simp add: range_of_def demo_conn_def param_u64_def hm_get_def parse_u64_def from_str_radix_def to_digit_def str_eval u64_max_def)
  have "id (kst (c_os ?c)) = 0" "room (rw_writer (c_rw ?c)) = None" "rw_output (c_rw ?c) = []" "rw_keep_alive (c_rw ?c)"
    by (simp_all add: demo_conn_def rw_new_def open_writer_def wr_output_def)
  moreover have "\<forall>n. param_u64 (c_req ?c) ''offset'' = Some n \<longrightarrow> n \<le> off_max"
    by (simp add: demo_conn_def param_u64_def hm_get_def parse_u64_def from_str_radix_def to_digit_def str_eval u64_max_def off_max_def)
  ultimately show ?thesis
    using send_file_range [OF file_kernel_serves, of "''hello''" ?c demo_codec "''/h/f''" 5] r by (simp add: u64_max_def)
qed

theorem files_one_response_witness:
  "\<exists>c'. handle_stat demo_codec demo_kernel None (demo_conn [(''path'', ''/f'')]) = (Inr (), c') \<and>
     answered (c_rw (demo_conn [(''path'', ''/f'')])) (c_rw c')"
proof -
  let ?c = "demo_conn [(''path'', ''/f'')]"
  have rb: "reads_bounded demo_kernel" by (simp add: reads_bounded_def demo_kernel_def returnE_def)
  have "\<exists>x rw'. rw_json demo_codec 200 (entry_json ''/f'' md) (c_rw ?c) = (Inr x, rw')" for md
    by (rule succeedsD [OF succeeds_rw(2)]) (simp add: demo_conn_def rw_new_def open_writer_def)
  then obtain rw' where "rw_json demo_codec 200 (entry_json ''/f'' demo_md) (c_rw ?c) = (Inr (), rw')"
    by force
  then have "\<exists>c'. handle_stat demo_codec demo_kernel None ?c = (Inr (), c')"
    by (simp add: handle_stat_def require_path_def on_req_def bindE_def returnE_def catchE_def by_path_def hm_get_def
        demo_conn_def os_def sys_def demo_kernel_def resp_def split: prod.split)
  then show ?thesis
    using files_one_response [OF rb, of demo_codec None 0] unfolding answers_def by blast
qed

text \<open>With \<open>limit=0\<close> a page is truncated and has no cursor to go on from.\<close>

lemma list_page_empty_limit: "list_page 0 [] [(''/h/a'', demo_md)] = ([], True, None)"
  by (simp add: list_page_def Let_def name_of_def path_file_name_def path_components_def str_eval from_utf8_lossy_ascii_Cons is_ascii_def byte_def)

theorem list_pages_complete_witness:
  "map_option (map fst) (pages 3 1 [] [(''/h/b'', demo_md), (''/h/a'', demo_md)]) = Some [''a'', ''b'']"
proof -
  let ?es = "[(''/h/b'', demo_md), (''/h/a'', demo_md)]"
  have n: "name_of ''/h/b'' = ''b''" "name_of ''/h/a'' = ''a''"
    by (simp_all add: name_of_def path_file_name_def path_components_def from_utf8_lossy_id is_utf8_ascii str_eval)
  then have l: "map fst (listing [] ?es) = [''a'', ''b'']"
    by (simp add: listing_def named_entries_def)
  have "distinct (map fst (named_entries ?es))" by (simp add: named_entries_def n)
  moreover from l have "length (listing [] ?es) = 2" by (metis length_map length_Cons list.size(3) numeral_2_eq_2)
  ultimately show ?thesis
    using list_pages_complete [of ?es 1 "[]" 3] l by simp
qed

end
