(* ===== verification/Proxy.thy ===== *)
theory Proxy
  imports Exec Files
begin

text \<open>
  The port proxy, \<open>src/proxy.rs\<close>: it connects to a server inside a sandbox (a unix socket in the
  sandbox's home) or, in dedicated mode, to a local TCP port, replays the request head and then
  moves bytes both ways.

  The two directions of the tunnel run in two threads on different sockets; here the client-to-backend
  direction is written first (\<open>Proxy_Tunnel\<close> has the interleaving). What the backend will answer is the list \<open>down\<close> of what the coming reads on
  it find, as for the client's connection. \<open>BufReader\<close> may have read ahead: \<open>ahead\<close> is how many bytes
  of the arrived chunk are in its buffer.
\<close>

record 'w px_kernel = "'w ex_kernel" +
  k_connect_unix :: "fd \<Rightarrow> ('w, fd) io"
  k_connect_tcp :: "nat \<Rightarrow> ('w, fd) io"
  k_peer_uid :: "fd \<Rightarrow> ('w, nat) io"
  k_clone_backend :: "fd \<Rightarrow> ('w, fd) io"
  k_clone_client :: "('w, unit) io"
  k_sock_write :: "fd \<Rightarrow> string \<Rightarrow> ('w, unit) io"
  k_shutdown :: "fd \<Rightarrow> ('w, unit) io"

datatype backend = Tcp fd | Unix fd

fun backend_fd :: "backend \<Rightarrow> fd" where
  "backend_fd (Tcp f) = f"
| "backend_fd (Unix f) = f"

definition split_target :: "string list \<Rightarrow> (nat \<times> string) option" where
  "split_target segments =
     (case segments of
        [] \<Rightarrow> None
      | port # rest \<Rightarrow>
          (case parse_u16 port of
             None \<Rightarrow> None
           | Some p \<Rightarrow>
               if 0 < p then Some (p, if rest = [] then ''/'' else ''/'' @ join ''/'' rest) else None))"

text \<open>The walk from the home to the directory of sockets.\<close>

fun open_chain :: "('w, 'z) kernel_scheme \<Rightarrow> fd \<Rightarrow> fd option \<Rightarrow> string list \<Rightarrow> ('w osw, fd option) io" where
  "open_chain K root dir [] = returnE dir"
| "open_chain K root dir (name # ns) =
     bindE (open_dir_at K (case dir of Some d \<Rightarrow> d | None \<Rightarrow> root) name) (\<lambda>d. open_chain K root (Some d) ns)"

definition socket_name :: "nat \<Rightarrow> string" where
  "socket_name port = show_nat port @ ''.sock''"

definition open_sandbox_socket :: "('w, 'z) kernel_scheme \<Rightarrow> sandbox_entry \<Rightarrow> nat \<Rightarrow> ('w osw, fd) io" where
  "open_sandbox_socket K e port =
     bindE (scoped_open K (e_home e) (e_uid e)) (\<lambda>root.
     bindE (open_chain K (sr_dir root) None (components_of PROXY_SUBDIR)) (\<lambda>d. case d of
       None \<Rightarrow> throwE (IoError InvalidInput ''empty proxy subdir'')
     | Some dir \<Rightarrow>
         bindE (open_path_at K dir (socket_name port)) (\<lambda>socket.
         bindE (fd_metadata K socket) (\<lambda>md.
           if is_symlink md then throwE (IoError InvalidInput ''socket path is a symlink'')
           else if md_kind md \<noteq> UnixSocket then throwE (IoError InvalidInput ''not a unix socket'')
           else if md_uid md \<noteq> e_uid e then
             throwE (IoError PermissionDenied ''socket is not owned by this sandbox'')
           else returnE socket))))"

definition check_peer_uid :: "('w, 'z) px_kernel_scheme \<Rightarrow> fd \<Rightarrow> nat \<Rightarrow> ('w osw, unit) io" where
  "check_peer_uid K stream expected =
     bindE (raw_os (k_peer_uid K stream)) (\<lambda>uid.
       if uid \<noteq> expected then
         throwE (IoError PermissionDenied (''peer runs as uid '' @ show_nat uid @ '', expected the sandbox'' @
           [CHR 0x27] @ ''s uid '' @ show_nat expected))
       else returnE ())"

definition connect_backend ::
  "('w, 'z) px_kernel_scheme \<Rightarrow> sandbox_entry option \<Rightarrow> nat \<Rightarrow> ('w osw, backend) io" where
  "connect_backend K sandbox port =
     (case sandbox of
        Some e \<Rightarrow>
          bindE (open_sandbox_socket K e port) (\<lambda>socket.
          bindE (sys_fd (ConnectFd socket) (k_connect_unix K socket)) (\<lambda>stream.
          thenE (check_peer_uid K stream (e_uid e)) (returnE (Unix stream))))
      | None \<Rightarrow> bindE (raw_os (k_connect_tcp K port)) (\<lambda>s. returnE (Tcp s)))"

definition is_auth_header :: "string \<Rightarrow> bool" where
  "is_auth_header name \<longleftrightarrow> name = ''x-sandbox-token'' \<or> name = ''authorization''"

definition header_line :: "string \<times> string \<Rightarrow> string" where
  "header_line h = fst h @ '': '' @ snd h @ CRLF"

definition build_head :: "request \<Rightarrow> string \<Rightarrow> string" where
  "build_head q forward_path =
     (let target = if raw_query q = [] then forward_path else forward_path @ ''?'' @ raw_query q in
      rq_method q @ '' '' @ target @ '' HTTP/1.1'' @ CRLF @
      concat (map header_line (filter (\<lambda>h. \<not> is_auth_header (fst h)) (headers q))) @ CRLF)"

text \<open>\<open>io::copy\<close> from the client to the backend, and from the backend to the client's raw socket.\<close>

definition backend_write :: "('w, 'z) px_kernel_scheme \<Rightarrow> fd \<Rightarrow> string \<Rightarrow> ('w osw, unit) io" where
  "backend_write K b data = sys (WriteFd b data) (k_sock_write K b data)"

fun pump_up :: "('w, 'z) px_kernel_scheme \<Rightarrow> fd \<Rightarrow> reader \<Rightarrow> ('w osw, unit) io" where
  "pump_up K b [] = returnE ()"
| "pump_up K b (RdErr e # es) = (if kind e = Interrupted then pump_up K b es else returnE ())"
| "pump_up K b (Chunk bs # es) =
     (if bs = [] then returnE ()
      else catchE (backend_write K b bs) (\<lambda>_. pump_up K b es) (\<lambda>_. returnE ()))"

fun copy_down :: "reader \<Rightarrow> (writer, unit) io" where
  "copy_down [] = returnE ()"
| "copy_down (RdErr e # es) = (if kind e = Interrupted then copy_down es else returnE ())"
| "copy_down (Chunk bs # es) =
     (if bs = [] then returnE ()
      else catchE (sock_write_all bs) (\<lambda>_. copy_down es) (\<lambda>_. returnE ()))"

definition leftover :: "nat \<Rightarrow> reader \<Rightarrow> string" where
  "leftover ahead r = (case r of Chunk bs # _ \<Rightarrow> take ahead bs | _ \<Rightarrow> [])"

definition consume :: "nat \<Rightarrow> reader \<Rightarrow> reader" where
  "consume ahead r =
     (case r of
        Chunk bs # es \<Rightarrow> if length bs \<le> ahead then es else Chunk (drop ahead bs) # es
      | _ \<Rightarrow> r)"

definition tunnel ::
  "('w, 'z) px_kernel_scheme \<Rightarrow> nat \<Rightarrow> reader \<Rightarrow> string \<Rightarrow> fd \<Rightarrow> ('w osw conn, unit) io" where
  "tunnel K ahead down head b c =
     (thenE (os (backend_write K b head))
     (thenE (os (backend_write K b (leftover ahead (c_rd c))))
     (thenE (\<lambda>c. (Inr (), c\<lparr>c_rd := consume ahead (c_rd c)\<rparr>))
     (thenE (\<lambda>c. os (pump_up K b (c_rd c)) (c\<lparr>c_rd := []\<rparr>))
     (thenE (os (ignoreE (raw_os (k_shutdown K b))))
     (thenE (resp (on_writer (copy_down down)))
        (os (ignoreE (raw_os (k_shutdown K b))))))))) c)"

definition handle_proxy ::
  "codec \<Rightarrow> ('w, 'z) px_kernel_scheme \<Rightarrow> nat \<Rightarrow> reader \<Rightarrow> sandbox_entry option \<Rightarrow> string list \<Rightarrow> ('w osw conn, unit) io" where
  "handle_proxy C K ahead down sandbox segments =
     (case split_target segments of
        None \<Rightarrow> resp (rw_error C 404 ''proxy target must be /proxy/<port>/<path>, with port in 1-65535'')
      | Some (port, forward_path) \<Rightarrow>
          catchE (os (connect_backend K sandbox port))
            (\<lambda>backend. on_req (\<lambda>q. (let head = build_head q forward_path in
               bindE (os (raw_os (k_clone_backend K (backend_fd backend)))) (\<lambda>_.
               thenE (os (raw_os (k_clone_client K)))
              (thenE (resp (hijack (Inr ())))
              (thenE (os (raw_os (k_clone_client K)))
                 (tunnel K ahead down head (backend_fd backend))))))))
            (\<lambda>e. resp (rw_error C 502 (''cannot reach port '' @ show_nat port @ '' in sandbox: '' @ error_text K e))))"

section \<open>The forwarded head\<close>

definition hline :: "string \<times> string \<Rightarrow> string" where
  "hline h = fst h @ '': '' @ snd h"

lemma token_not: "is_token_byte c \<Longrightarrow> c \<noteq> CHR '':'' \<and> c \<noteq> CR \<and> c \<noteq> LF \<and> \<not> is_blank c \<and> is_ascii c"
  by (auto simp: is_token_byte_def ascii_defs is_blank_def ctl_defs byte_def)

lemma value_not: "\<not> bad_value_byte c \<Longrightarrow> c \<noteq> CR \<and> c \<noteq> LF"
  by (auto simp: bad_value_byte_def ctl_defs byte_def)

lemma target_not: "\<not> bad_target_byte c \<Longrightarrow> c \<noteq> CR \<and> c \<noteq> LF \<and> c \<noteq> CHR '' ''"
  by (auto simp: bad_target_byte_def ctl_defs byte_def)

lemma space_value_ok: "\<not> bad_value_byte (CHR '' '')"
  by (simp add: bad_value_byte_def byte_def)

lemma trim_space: "trim_matches is_blank (CHR '' '' # v) = trim_matches is_blank v"
  by (simp add: is_blank_def)

lemma hline_chars:
  assumes "header_wf h" and "c \<in> set (hline h)"
  shows "c \<noteq> CR \<and> c \<noteq> LF \<and> is_ascii c"
proof -
  have "c \<in> set (fst h) \<or> c \<in> set (snd h) \<or> c = CHR '':'' \<or> c = CHR '' ''" using assms(2) by (auto simp: hline_def)
  moreover have "is_token_byte c" if "c \<in> set (fst h)" using assms(1) that by (simp add: header_wf_def list_all_iff)
  moreover have "\<not> bad_value_byte c \<and> is_ascii c" if "c \<in> set (snd h)" using assms(1) that by (simp add: header_wf_def list_all_iff list_ex_iff)
  moreover have "is_ascii (CHR '':'')" "is_ascii (CHR '' '')" by (simp_all add: is_ascii_def byte_def)
  ultimately show ?thesis using token_not [of c] value_not [of c] by (auto simp: CR_def LF_def)
qed

lemma parse_hline:
  assumes "header_wf h" and "hm_get hs (fst h) = None"
  shows "parse_header_line (hline h) hs = Inr (hs @ [h])"
proof -
  obtain k v where h: "h = (k, v)" by (cases h)
  from assms(1) h have k: "k \<noteq> []" "\<And>c. c \<in> set k \<Longrightarrow> is_token_byte c" "to_ascii_lowercase k = k"
    and v: "\<not> list_ex bad_value_byte v" "trim_matches is_blank v = v"
    by (auto simp: header_wf_def list_all_iff)
  have "CHR '':'' \<notin> set k" using k(2) token_not by blast
  then have sp: "split_once (CHR '':'') (hline h) = Some (k, CHR '' '' # v)"
    using split_once_append [of "CHR '':''" k "CHR '' '' # v"] h by (simp add: hline_def)
  have "\<not> is_blank (hd (hline h))" using k token_not [of "hd k"] h by (cases k) (auto simp: hline_def)
  moreover have "\<not> is_blank (last k)" using k(1,2) token_not by (metis last_in_set)
  moreover have "list_all is_token_byte k" using k(2) by (simp add: list_all_iff)
  ultimately show ?thesis
    using sp k v assms(2) h
    by (simp add: parse_header_line_def space_value_ok trim_space Let_def hm_get_def hm_insert_def update_absent)
qed

lemma parse_hlines:
  assumes "list_all header_wf hs" and "distinct (map fst (acc @ hs))" and "n + length hs \<le> MAX_HEADERS"
  shows "parse_headers (map hline hs) n acc = Inr (acc @ hs)"
  using assms
proof (induction hs arbitrary: n acc)
  case (Cons h hs)
  have "hm_get acc (fst h) = None" using Cons.prems(2) by (simp add: hm_get_def map_of_eq_None_iff)
  with Cons.prems(1) have "parse_header_line (hline h) acc = Inr (acc @ [h])" by (simp add: parse_hline)
  moreover have "hline h \<noteq> []" by (simp add: hline_def)
  moreover have "parse_headers (map hline hs) (Suc n) (acc @ [h]) = Inr ((acc @ [h]) @ hs)"
    using Cons.prems by (intro Cons.IH) auto
  ultimately show ?case using Cons.prems(3) by simp
qed simp

lemma join_crlf_lines:
  "concat (map (\<lambda>l. l @ CRLF) ls) @ CRLF = (if ls = [] then CRLF else join CRLF ls @ CRLF @ CRLF)"
  by (induction CRLF ls rule: join.induct) auto

lemma build_head_lines:
  "build_head q fp = join CRLF ((rq_method q @ '' '' @ (if raw_query q = [] then fp else fp @ ''?'' @ raw_query q) @ '' HTTP/1.1'') #
     map hline (filter (\<lambda>h. \<not> is_auth_header (fst h)) (headers q))) @ CRLF @ CRLF"
proof -
  have hl: "header_line = (\<lambda>h. hline h @ CRLF)" by (rule ext) (simp add: header_line_def hline_def)
  have "l @ CRLF @ concat (map header_line hs) @ CRLF = join CRLF (l # map hline hs) @ CRLF @ CRLF" for l and hs :: "(string \<times> string) list"
    using join_crlf_lines [of "l # map hline hs"] by (simp add: hl o_def)
  from this [of "rq_method q @ '' '' @ (if raw_query q = [] then fp else fp @ ''?'' @ raw_query q) @ '' HTTP/1.1''"]
  show ?thesis unfolding build_head_def Let_def by (simp only: append_assoc)
qed

lemma last_join: "ls \<noteq> [] \<Longrightarrow> last ls \<noteq> [] \<Longrightarrow> join CRLF ls \<noteq> [] \<and> last (join CRLF ls) = last (last ls)"
  by (induction CRLF ls rule: join.induct) (auto simp: CRLF_def)

lemma set_join: "set (join sep ls) \<subseteq> \<Union> (set ` set ls) \<union> set sep"
  by (induction sep ls rule: join.induct) auto

text \<open>The lines of a head that ends with a blank line.\<close>

lemma head_lines:
  assumes "ls \<noteq> []" and "last ls \<noteq> []" and "\<And>l c. l \<in> set ls \<Longrightarrow> c \<in> set l \<Longrightarrow> c \<noteq> CR \<and> c \<noteq> LF"
  shows "split_crlf (trim_end_matches (CRLF @ CRLF) (join CRLF ls @ CRLF @ CRLF)) = ls"
proof -
  have "last (join CRLF ls) \<noteq> LF"
    using last_join [OF assms(1,2)] assms(3) [of "last ls" "last (last ls)"] assms(1,2) by simp
  moreover have "join CRLF ls \<noteq> []" using last_join [OF assms(1,2)] by simp
  ultimately have "\<not> suffix (CRLF @ CRLF) (join CRLF ls)"
    by (auto simp: suffix_def CRLF_def)
  then have "trim_end_matches (CRLF @ CRLF) (join CRLF ls @ CRLF @ CRLF) = join CRLF ls"
    using trim_end_matches_step [of "CRLF @ CRLF" "join CRLF ls"] trim_end_matches_stop by (simp add: CRLF_def)
  with assms(1,3) show ?thesis by (simp add: split_crlf_join) (metis split_crlf_join)
qed

lemma head_chars:
  assumes "\<And>c. c \<in> set l1 \<Longrightarrow> c \<noteq> CR \<and> c \<noteq> LF \<and> is_ascii c" and "list_all header_wf hs"
    and "l \<in> set (l1 # map hline hs)" and "c \<in> set l"
  shows "c \<noteq> CR \<and> c \<noteq> LF \<and> is_ascii c"
proof (cases "l = l1")
  case False
  with assms(3) obtain h where "h \<in> set hs" "l = hline h" by auto
  with assms(2,4) show ?thesis by (auto simp: list_all_iff intro!: hline_chars)
qed (use assms(1,4) in blast)

lemma head_ascii:
  assumes "\<And>l c. l \<in> set ls \<Longrightarrow> c \<in> set l \<Longrightarrow> is_ascii c"
  shows "list_all is_ascii (join CRLF ls @ CRLF @ CRLF)"
proof -
  have crlf: "is_ascii c" if "c \<in> set CRLF" for c using that by (auto simp: CRLF_def ctl_defs is_ascii_def byte_def)
  have "is_ascii c" if "c \<in> set (join CRLF ls)" for c
    using that set_join [of CRLF ls] assms crlf by blast
  with crlf show ?thesis by (auto simp: list_all_iff)
qed

lemma request_line:
  assumes "CHR '' '' \<notin> set m" and "CHR '' '' \<notin> set url"
  shows "split_char (CHR '' '') (m @ '' '' @ url @ '' HTTP/1.1'') = [m, url, ''HTTP/1.1'']"
  using split_char_append [OF assms(1), of "url @ '' HTTP/1.1''"] split_char_append [OF assms(2), of "''HTTP/1.1''"] by simp

text \<open>The target of the forwarded request: its bytes, and how it is taken apart again.\<close>

definition forward_url :: "request \<Rightarrow> string \<Rightarrow> string" where
  "forward_url q fp = (if raw_query q = [] then fp else fp @ ''?'' @ raw_query q)"

lemma parse_forward_url:
  assumes "CHR ''?'' \<notin> set fp"
  shows "parse_url (forward_url q fp) = (fp, parse_query (raw_query q), raw_query q)"
proof -
  have "split_once (CHR ''?'') fp = None" using assms by (rule split_once_None [THEN iffD2])
  moreover have "split_once (CHR ''?'') (fp @ ''?'' @ raw_query q) = Some (fp, raw_query q)"
    using split_once_append [OF assms, of "raw_query q"] by simp
  ultimately show ?thesis by (simp add: forward_url_def parse_url_def parse_query_def)
qed

lemma forward_path_chars:
  assumes wf: "request_wf q" and t: "split_target segs = Some (port, fp)"
    and segs: "set (concat segs) \<subseteq> set (rq_path q)"
  shows "prefix ''/'' fp" "CHR ''?'' \<notin> set fp" "c \<in> set fp \<Longrightarrow> \<not> bad_target_byte c \<and> is_ascii c"
proof -
  have pc: "d \<in> set (rq_path q) \<Longrightarrow> \<not> bad_target_byte d \<and> is_ascii d \<and> d \<noteq> CHR ''?''" for d
    using wf by (auto simp: request_wf_def target_wf_def list_all_iff list_ex_iff)
  have slash: "\<not> bad_target_byte (CHR ''/'')" "is_ascii (CHR ''/'')" by (simp_all add: bad_target_byte_def is_ascii_def byte_def)
  have "set fp \<subseteq> insert (CHR ''/'') (\<Union> (set ` set segs))"
    using t set_join [of "''/''" "tl segs"] by (auto simp: split_target_def split: list.splits option.splits if_splits)
  then have "d = CHR ''/'' \<or> d \<in> set (rq_path q)" if "d \<in> set fp" for d using that segs by auto
  with pc slash show "CHR ''?'' \<notin> set fp" "c \<in> set fp \<Longrightarrow> \<not> bad_target_byte c \<and> is_ascii c" by blast+
  show "prefix ''/'' fp" using t by (auto simp: split_target_def split: list.splits option.splits if_splits)
qed

lemma forward_url_chars:
  assumes "request_wf q" and "\<And>c. c \<in> set fp \<Longrightarrow> \<not> bad_target_byte c \<and> is_ascii c" and "c \<in> set (forward_url q fp)"
  shows "\<not> bad_target_byte c \<and> is_ascii c"
proof -
  have "c \<in> set fp \<or> c = CHR ''?'' \<or> c \<in> set (raw_query q)" using assms(3) by (auto simp: forward_url_def split: if_splits)
  moreover have "\<not> bad_target_byte (CHR ''?'')" "is_ascii (CHR ''?'')" by (simp_all add: bad_target_byte_def is_ascii_def byte_def)
  moreover have "\<not> bad_target_byte c \<and> is_ascii c" if "c \<in> set (raw_query q)"
    using assms(1) that by (simp add: request_wf_def target_wf_def list_all_iff list_ex_iff)
  ultimately show ?thesis using assms(2) by blast
qed

lemma method_chars: "is_ascii_uppercase c \<Longrightarrow> c \<noteq> CR \<and> c \<noteq> LF \<and> c \<noteq> CHR '' '' \<and> is_ascii c"
  by (auto simp: ascii_defs ctl_defs byte_def)

lemma hm_get_filter: "P k \<Longrightarrow> hm_get (filter (\<lambda>h. P (fst h)) hs) k = hm_get hs k"
  by (induction hs) (auto simp: hm_get_def)

abbreviation kept :: "request \<Rightarrow> (string \<times> string) list" where
  "kept q \<equiv> filter (\<lambda>h. \<not> is_auth_header (fst h)) (headers q)"

lemma kept_framing:
  assumes wf: "request_wf q"
  shows "parse_headers (map hline (kept q)) 0 [] = Inr (kept q)" "list_all header_wf (kept q)"
    "parse_content_length (kept q) = Inr (content_length q)"
    "\<not> (hm_contains_key (kept q) ''content-length'' \<and> hm_contains_key (kept q) ''transfer-encoding'')"
proof -
  have hw: "list_all header_wf (kept q)" "distinct (map fst (kept q))" "length (kept q) \<le> MAX_HEADERS"
    using wf le_trans [OF length_filter_le [of "\<lambda>h. \<not> is_auth_header (fst h)" "headers q"]]
    by (auto simp: request_wf_def headers_wf_def list_all_iff hm_ok_def distinct_map_filter)
  then show "parse_headers (map hline (kept q)) 0 [] = Inr (kept q)" "list_all header_wf (kept q)"
    using parse_hlines [of "kept q" "[]" 0] by simp_all
  have get: "hm_get (kept q) k = hm_get (headers q) k" if "\<not> is_auth_header k" for k using that by (rule hm_get_filter)
  show "parse_content_length (kept q) = Inr (content_length q)"
    using wf get [of "''content-length''"]
    by (auto simp: request_wf_def length_wf_def parse_content_length_def parse_u64_def from_str_radix_decimal is_auth_header_def
        split: option.splits)
  show "\<not> (hm_contains_key (kept q) ''content-length'' \<and> hm_contains_key (kept q) ''transfer-encoding'')"
    using wf get [of "''content-length''"] get [of "''transfer-encoding''"]
    by (auto simp: request_wf_def hm_contains_key_def is_auth_header_def)
qed

text \<open>The request line as forwarded, and a head built from lines free of line breaks.\<close>

lemma forward_line:
  assumes wf: "request_wf q" and u: "\<forall>c \<in> set url. \<not> bad_target_byte c \<and> is_ascii c"
  shows "split_char (CHR '' '') (rq_method q @ '' '' @ url @ '' HTTP/1.1'') = [rq_method q, url, ''HTTP/1.1'']"
    and "c \<in> set (rq_method q @ '' '' @ url @ '' HTTP/1.1'') \<Longrightarrow> c \<noteq> CR \<and> c \<noteq> LF \<and> is_ascii c"
    and "list_all is_ascii_alphabetic (rq_method q)" "to_ascii_uppercase (rq_method q) = rq_method q"
proof -
  note url = bspec [OF u]
  have m: "\<And>c. c \<in> set (rq_method q) \<Longrightarrow> is_ascii_uppercase c" using wf by (simp add: request_wf_def list_all_iff)
  show "split_char (CHR '' '') (rq_method q @ '' '' @ url @ '' HTTP/1.1'') = [rq_method q, url, ''HTTP/1.1'']"
    using method_chars [OF m] url target_not by (intro request_line) blast+
  have v: "c \<noteq> CR \<and> c \<noteq> LF \<and> is_ascii c" if "c \<in> set '' HTTP/1.1''" for c
    using that by (auto simp: ctl_defs is_ascii_def byte_def)
  assume "c \<in> set (rq_method q @ '' '' @ url @ '' HTTP/1.1'')"
  then have "c \<in> set (rq_method q) \<or> c \<in> set url \<or> c \<in> set '' HTTP/1.1''" by auto
  then show "c \<noteq> CR \<and> c \<noteq> LF \<and> is_ascii c"
    using v [of c] url [of c] target_not [of c] method_chars [OF m, of c] by blast
next
  show "list_all is_ascii_alphabetic (rq_method q)" "to_ascii_uppercase (rq_method q) = rq_method q"
    using wf to_ascii_uppercase_id [of "rq_method q"] by (auto simp: request_wf_def list_all_iff ascii_defs)
qed

lemma head_reads_back:
  assumes ls: "ls \<noteq> []" "last ls \<noteq> []" and c: "\<forall>l \<in> set ls. \<forall>c \<in> set l. c \<noteq> CR \<and> c \<noteq> LF \<and> is_ascii c"
  shows "split_crlf (trim_end_matches (CRLF @ CRLF) (join CRLF ls @ CRLF @ CRLF)) = ls"
    and "list_all is_ascii (join CRLF ls @ CRLF @ CRLF)"
    and "\<not> list_ex (\<lambda>b. 128 \<le> byte b) (join CRLF ls @ CRLF @ CRLF)"
proof -
  show "split_crlf (trim_end_matches (CRLF @ CRLF) (join CRLF ls @ CRLF @ CRLF)) = ls"
    using c by (intro head_lines ls) blast
  show a: "list_all is_ascii (join CRLF ls @ CRLF @ CRLF)" using c by (intro head_ascii) blast
  then show "\<not> list_ex (\<lambda>b. 128 \<le> byte b) (join CRLF ls @ CRLF @ CRLF)"
    unfolding list_all_iff list_ex_iff is_ascii_def by (meson not_less)
qed

text \<open>
  C22: the head the proxy sends parses to the request it came from. For a well-formed request and a
  target out of its own path, the forwarded head is accepted by the parser of \<open>http.rs\<close> and gives
  the same method, query, body length and headers without the two credential headers, under the
  stripped path: neither a header value nor the path can start a new line or a second request.
\<close>

theorem build_head_roundtrip:
  assumes wf: "request_wf q" and t: "split_target segs = Some (port, fp)"
    and segs: "set (concat segs) \<subseteq> set (rq_path q)"
  shows "parse_head (build_head q fp) = Inr
    \<lparr>rq_method = rq_method q, rq_path = fp, params = parse_query (raw_query q), raw_query = raw_query q,
     headers = filter (\<lambda>h. \<not> is_auth_header (fst h)) (headers q), content_length = content_length q, body_consumed = 0,
     rq_keep_alive = parse_keep_alive (filter (\<lambda>h. \<not> is_auth_header (fst h)) (headers q)) ''HTTP/1.1''\<rparr>"
proof -
  note fp = forward_path_chars [OF wf t segs]
  let ?url = "forward_url q fp"
  have uc: "\<forall>c \<in> set ?url. \<not> bad_target_byte c \<and> is_ascii c"
    using forward_url_chars [OF wf fp(3)] by blast
  note line = forward_line [OF wf uc]
  let ?ls = "(rq_method q @ '' '' @ ?url @ '' HTTP/1.1'') # map hline (kept q)"
  have bh: "build_head q fp = join CRLF ?ls @ CRLF @ CRLF" by (simp only: build_head_lines forward_url_def)
  have ne: "?ls \<noteq> []" "last ?ls \<noteq> []" by (simp_all add: last_map hline_def)
  have chars: "\<forall>l \<in> set ?ls. \<forall>c \<in> set l. c \<noteq> CR \<and> c \<noteq> LF \<and> is_ascii c"
    using head_chars [OF line(2) kept_framing(2) [OF wf]] by blast
  note head = head_reads_back [OF ne chars, folded bh]
  have pu: "prefix ''/'' ?url" "\<not> list_ex bad_target_byte ?url"
    using fp(1) uc by (auto simp: forward_url_def list_ex_iff prefix_def)
  have m: "rq_method q \<noteq> []" using wf by (simp add: request_wf_def)
  show ?thesis
    unfolding parse_head_def Let_def head(1) list.sel line(1) list.case
    using head(3) is_utf8_ascii [OF head(2)] m line(3,4) pu kept_framing [OF wf] parse_forward_url [OF fp(2)] by simp
qed

theorem build_head_roundtrip_witness:
  "\<exists>q. parse_head (''get /v1/proxy/80/a?x=1 HTTP/1.1'' @ CRLF @ ''Host: h'' @ CRLF @ ''X-Sandbox-Token: t'' @ CRLF @ CRLF) = Inr q \<and>
     parse_head (build_head q ''/a'') = Inr
       \<lparr>rq_method = ''GET'', rq_path = ''/a'', params = [(''x'', ''1'')], raw_query = ''x=1'', headers = [(''host'', ''h'')],
        content_length = 0, body_consumed = 0, rq_keep_alive = True\<rparr>"
proof -
  let ?h = "''get /v1/proxy/80/a?x=1 HTTP/1.1'' @ CRLF @ ''Host: h'' @ CRLF @ ''X-Sandbox-Token: t'' @ CRLF @ CRLF"
  let ?q = "\<lparr>rq_method = ''GET'', rq_path = ''/v1/proxy/80/a'', params = [(''x'', ''1'')], raw_query = ''x=1'',
     headers = [(''host'', ''h''), (''x-sandbox-token'', ''t'')], content_length = 0, body_consumed = 0, rq_keep_alive = True\<rparr>"
  have "urldecode ''x'' = ''x''" "urldecode ''1'' = ''1''"
    by (simp_all add: urldecode_def from_utf8_lossy_id is_utf8_ascii is_ascii_def byte_def)
  note eval = http_eval this hm_insert_def hm_get_def Let_def
  have q: "parse_head ?h = Inr ?q" by (simp add: eval)
  have t: "split_target [''80'', ''a''] = Some (80, ''/a'')"
    by (simp add: split_target_def parse_u16_def from_str_radix_def to_digit_def str_eval)
  have s: "set (concat [''80'', ''a'']) \<subseteq> set (rq_path ?q)" by simp
  have "parse_query ''x=1'' = [(''x'', ''1'')]" by (simp add: eval)
  with build_head_roundtrip [OF parse_head_request_wf [OF q] t s] q
  show ?thesis by (simp add: is_auth_header_def parse_keep_alive_def hm_get_def)
qed

section \<open>The proxy stays inside the sandbox\<close>

lemma safe_raw_os: "safe S (raw_os m) (\<lambda>_ _. True)"
  by (auto simp: safe_on_def raw_os_def split: prod.split intro!: exI [of _ "[]"])

lemma safe_open_chain:
  "root \<in> S \<Longrightarrow> (\<And>d. dir = Some d \<Longrightarrow> d \<in> S) \<Longrightarrow> list_all plain_name ns \<Longrightarrow>
   safe S (open_chain K root dir ns) (\<lambda>r T. \<forall>d. r = Some d \<longrightarrow> d \<in> T)"
proof (induction ns arbitrary: S dir)
  case (Cons n ns)
  have "safe T (open_chain K root (Some d) ns) (\<lambda>r T. \<forall>d. r = Some d \<longrightarrow> d \<in> T)" if "S \<subseteq> T" "d \<in> T" for d T
    using that Cons.prems(1,3) by (intro Cons.IH) auto
  with Cons.prems show ?case
    by (auto split: option.split intro!: safe_bindE [where Q = "\<lambda>f T. f \<in> T"] safe_open_dir_at)
qed (simp add: safe_returnE)

lemma socket_name_plain: "plain_name (socket_name port)"
proof -
  have "c \<in> set (show_nat port) \<Longrightarrow> is_ascii_digit c" for c using show_nat_digits [of port] by (simp add: list_all_iff)
  moreover have "\<not> is_ascii_digit (CHR ''/'')" by (simp add: ascii_defs byte_def)
  ultimately have "CHR ''/'' \<notin> set (show_nat port)" by blast
  moreover have "length (socket_name port) \<noteq> length ''.''" "length (socket_name port) \<noteq> length ''..''" by (simp_all add: socket_name_def)
  ultimately show ?thesis by (auto simp: plain_name_def socket_name_def)
qed

text \<open>What follows the opening of the home, once the connections of the walk are known.\<close>

definition after_home :: "('w, 'z) px_kernel_scheme \<Rightarrow> sandbox_entry \<Rightarrow> nat \<Rightarrow> scoped_root \<Rightarrow> ('w osw, backend) io" where
  "after_home K e port root =
     bindE (open_chain K (sr_dir root) None (components_of PROXY_SUBDIR)) (\<lambda>d.
     bindE (case d of
       None \<Rightarrow> throwE (IoError InvalidInput ''empty proxy subdir'')
     | Some dir \<Rightarrow>
         bindE (open_path_at K dir (socket_name port)) (\<lambda>socket.
         bindE (fd_metadata K socket) (\<lambda>md.
           if is_symlink md then throwE (IoError InvalidInput ''socket path is a symlink'')
           else if md_kind md \<noteq> UnixSocket then throwE (IoError InvalidInput ''not a unix socket'')
           else if md_uid md \<noteq> e_uid e then
             throwE (IoError PermissionDenied ''socket is not owned by this sandbox'')
           else returnE socket))) (\<lambda>socket.
     bindE (sys_fd (ConnectFd socket) (k_connect_unix K socket)) (\<lambda>stream.
       thenE (check_peer_uid K stream (e_uid e)) (returnE (Unix stream)))))"

lemma connect_backend_home:
  "connect_backend K (Some e) port = bindE (scoped_open K (e_home e) (e_uid e)) (after_home K e port)"
  by (simp add: connect_backend_def open_sandbox_socket_def after_home_def [abs_def] bindE_assoc)

lemma safe_after_home:
  "sr_dir root \<in> S \<Longrightarrow> safe S (after_home K e port root) (\<lambda>b T. backend_fd b \<in> T)"
  unfolding after_home_def
proof (rule safe_bindE [OF safe_open_chain])
  let ?sock = "\<lambda>d. case d of
       None \<Rightarrow> throwE (IoError InvalidInput ''empty proxy subdir'')
     | Some dir \<Rightarrow>
         bindE (open_path_at K dir (socket_name port)) (\<lambda>socket.
         bindE (fd_metadata K socket) (\<lambda>md.
           if is_symlink md then throwE (IoError InvalidInput ''socket path is a symlink'')
           else if md_kind md \<noteq> UnixSocket then throwE (IoError InvalidInput ''not a unix socket'')
           else if md_uid md \<noteq> e_uid e then
             throwE (IoError PermissionDenied ''socket is not owned by this sandbox'')
           else returnE socket))"
  fix d and T :: "fd set"
  assume "\<forall>x. d = Some x \<longrightarrow> x \<in> T"
  then have "safe T (?sock d) (\<lambda>f T. f \<in> T)"
    by (auto split: option.split intro!: safe_throwE safe_returnE safe_bindE [where Q = "\<lambda>f T. f \<in> T"]
        safe_open_path_at socket_name_plain safe_bindE [OF safe_fd_calls(2)] dest: subsetD)
  then show "safe T (bindE (?sock d) (\<lambda>socket. bindE (sys_fd (ConnectFd socket) (k_connect_unix K socket)) (\<lambda>stream.
       thenE (check_peer_uid K stream (e_uid e)) (returnE (Unix stream))))) (\<lambda>b T. backend_fd b \<in> T)"
    unfolding check_peer_uid_def thenE_def
    by (rule safe_bindE) (auto intro!: safe_bindE [where Q = "\<lambda>f T. f \<in> T"] safe_sys_fd safe_bindE [OF safe_bindE [OF safe_raw_os], where Q = "\<lambda>_ _. True"]
        safe_throwE safe_returnE)
qed (use components_of_plain in auto)

lemma safe_backend_write: "b \<in> S \<Longrightarrow> safe S (backend_write K b d) (\<lambda>_ _. True)"
  unfolding backend_write_def by (rule safe_sys) auto

lemma safe_pump_up: "b \<in> S \<Longrightarrow> safe S (pump_up K b r) (\<lambda>_ _. True)"
  by (induction K b r arbitrary: S rule: pump_up.induct)
     (auto intro!: safe_returnE safe_catchE [OF safe_backend_write])

lemma safe_set_rd: "safe_on calls S (\<lambda>c. (Inr x, c\<lparr>c_rd := f c\<rparr>)) (\<lambda>_ _. True)"
  by (auto simp: safe_on_def intro!: exI [of _ "[]"])

lemma safe_pump_conn:
  assumes "b \<in> S"
  shows "safe_on calls S (\<lambda>c. os (pump_up K b (c_rd c)) (c\<lparr>c_rd := []\<rparr>)) (\<lambda>_ _. True)"
proof -
  have "\<exists>new. calls (snd (os (pump_up K b r) c)) = calls c @ new \<and> disciplined S new" for r c
    using safe_os [OF safe_pump_up [OF assms, of K r]] unfolding safe_on_def by blast
  from this [of _ "_\<lparr>c_rd := []\<rparr>"] show ?thesis by (fastforce simp: safe_on_def)
qed

lemma safe_self: "(\<And>x. safe_on lg S (m x) Q) \<Longrightarrow> safe_on lg S (\<lambda>c. m c c) Q"
  by (simp add: safe_on_def)

lemma safe_tunnel:
  assumes "b \<in> S"
  shows "safe_on calls S (tunnel K ahead down head b) (\<lambda>_ _. True)"
proof -
  have "safe_on calls S
     (thenE (os (backend_write K b head))
     (thenE (os (backend_write K b (leftover ahead (c_rd c))))
     (thenE (\<lambda>c. (Inr (), c\<lparr>c_rd := consume ahead (c_rd c)\<rparr>))
     (thenE (\<lambda>c. os (pump_up K b (c_rd c)) (c\<lparr>c_rd := []\<rparr>))
     (thenE (os (ignoreE (raw_os (k_shutdown K b))))
     (thenE (resp (on_writer (copy_down down)))
        (os (ignoreE (raw_os (k_shutdown K b)))))))))) (\<lambda>_ _. True)" for c :: "'a osw conn"
    unfolding thenE_def
    by (intro safe_calls_bind safe_os [OF safe_backend_write] safe_set_rd safe_pump_conn safe_resp
        safe_os [OF safe_ignoreE [OF safe_raw_os]]; (use assms in \<open>blast | simp\<close>)?)
  from safe_self [OF this] show ?thesis unfolding tunnel_def [abs_def] .
qed

lemma scoped_open_calls:
  assumes "scoped_open K home uid s = (r, t)"
  shows "case r of Inl _ \<Rightarrow> log t = log s \<or> log t = log s @ [(ByPath home, None)]
    | Inr root \<Rightarrow> log t = log s @ [(ByPath home, Some (sr_dir root))]"
  using assms by (auto simp: scoped_open_def c_path_def liftR_def bindE_def returnE_def sys_fd_def
      split: if_splits prod.splits sum.splits)

lemma confined_home:
  assumes g: "\<And>root. safe {sr_dir root} (g root) Q"
    and f: "\<And>x T. Q x T \<Longrightarrow> safe_on calls T (f x) (\<lambda>_ _. True)"
  shows "confined_to home (catchE (os (bindE (scoped_open K home uid) g)) f (\<lambda>e. resp (h e)))"
  unfolding confined_to_def
proof
  fix c :: "'a osw conn"
  let ?m = "catchE (os (bindE (scoped_open K home uid) g)) f (\<lambda>e. resp (h e))"
  obtain r s1 where r: "scoped_open K home uid (c_os c) = (r, s1)" by (cases "scoped_open K home uid (c_os c)")
  show "\<exists>new. calls (snd (?m c)) = calls c @ new \<and> (new = [] \<or> new = [(ByPath home, None)] \<or>
      (\<exists>d rest. new = (ByPath home, Some d) # rest \<and> disciplined {d} rest))"
  proof (cases r)
    case (Inl e)
    with r have "calls (snd (?m c)) = log s1" by (simp add: catchE_def os_def bindE_run resp_calls)
    with scoped_open_calls [OF r] Inl show ?thesis by auto
  next
    case (Inr root)
    let ?n = "catchE (os (g root)) f (\<lambda>e. resp (h e))"
    have "?m c = ?n (c\<lparr>c_os := s1\<rparr>)"
      using r Inr by (simp add: catchE_def os_def bindE_run split: prod.split)
    moreover have "safe_on calls {sr_dir root} ?n (\<lambda>_ _. True)"
      by (rule safe_catchE [OF safe_os [OF g]]) (auto intro: f safe_resp)
    then obtain rest where "calls (snd (?n (c\<lparr>c_os := s1\<rparr>))) = log s1 @ rest" "disciplined {sr_dir root} rest"
      unfolding safe_on_def by (auto dest: spec [of _ "c\<lparr>c_os := s1\<rparr>"])
    ultimately show ?thesis
      using scoped_open_calls [OF r] Inr by (intro exI [of _ "(ByPath home, Some (sr_dir root)) # rest"]) simp
  qed
qed

lemma proxy_calls_confined:
  "confined_to (e_home e) (handle_proxy C K ahead down (Some e) segments)"
proof (cases "split_target segments")
  case None
  then show ?thesis by (auto simp: confined_to_def handle_proxy_def resp_calls)
next
  case (Some pf)
  then obtain port fp where "split_target segments = Some (port, fp)" by (cases pf) auto
  then show ?thesis
    unfolding handle_proxy_def Let_def thenE_def
    by (simp add: connect_backend_home del: fun_upd_apply)
       (rule confined_home [OF safe_after_home], auto intro!: safe_on_req safe_calls_bind safe_os [OF safe_raw_os] safe_resp safe_tunnel dest: subsetD)
qed

text \<open>
  Which calls a stretch of the proxy makes: \<open>looks\<close> only opens and inspects, \<open>quiet\<close> may also
  connect. Neither writes, creates, removes or changes anything.
\<close>

fun looks :: "fs_call \<times> fd option \<Rightarrow> bool" where
  "looks (ByPath p, r) = True"
| "looks (Openat d n fl m, r) = True"
| "looks (Fstat d, r) = True"
| "looks (c, r) = False"

fun quiet :: "fs_call \<times> fd option \<Rightarrow> bool" where
  "quiet (ConnectFd d, r) = True"
| "quiet x = looks x"

definition adds :: "(fs_call \<times> fd option \<Rightarrow> bool) \<Rightarrow> 'w osw \<Rightarrow> 'w osw \<Rightarrow> bool" where
  "adds P s t \<longleftrightarrow> (\<exists>new. log t = log s @ new \<and> list_all P new)"

interpretation ad: frame_relation "adds P" for P
proof
  show "adds P s s" for s by (auto simp: adds_def)
  show "adds P s u" if "adds P s t" "adds P t u" for s t u
    using that unfolding adds_def by (metis append.assoc list_all_append)
qed

lemma adds_sys: "P (c, None) \<Longrightarrow> keeps (adds P) (sys c m)"
  by (auto simp: keeps_def adds_def sys_def split: prod.split)

lemma adds_sys_fd: "(\<And>r. P (c, r)) \<Longrightarrow> keeps (adds P) (sys_fd c m)"
  by (auto simp: keeps_def adds_def sys_fd_def split: prod.split)

lemma adds_raw_os: "keeps (adds P) (raw_os m)"
  by (auto simp: keeps_def adds_def raw_os_def split: prod.split)

lemma looks_quiet: "looks x \<Longrightarrow> quiet x"
  by (cases x rule: looks.cases) auto

lemma adds_looks_quiet: "adds looks s t \<Longrightarrow> adds quiet s t"
  unfolding adds_def by (metis looks_quiet list.pred_mono_strong)

lemma adds_walk:
  "keeps (adds looks) (scoped_open K home uid)" "keeps (adds looks) (open_dir_at K d n)" "keeps (adds looks) (open_path_at K d n)"
  "keeps (adds looks) (fd_metadata K f)"
  unfolding scoped_open_def open_dir_at_def open_path_at_def open_at_def fd_metadata_def
  by (intro ad.keeps_intros adds_sys adds_sys_fd; simp)+

lemma adds_open_chain: "keeps (adds looks) (open_chain K root dir ns)"
  by (induction ns arbitrary: dir) (auto intro!: ad.keeps_intros adds_walk)

lemma adds_open_socket: "keeps (adds looks) (open_sandbox_socket K e port)"
  unfolding open_sandbox_socket_def
  by (auto split: option.split intro!: ad.keeps_intros adds_walk adds_open_chain)

lemma keeps_adds_quiet: "keeps (adds looks) m \<Longrightarrow> keeps (adds quiet) m"
  by (simp add: keeps_def adds_looks_quiet)

lemma adds_connect: "keeps (adds quiet) (connect_backend K (Some e) port)"
  unfolding connect_backend_def check_peer_uid_def
  by (auto intro!: ad.keeps_intros keeps_adds_quiet [OF adds_open_socket] adds_sys_fd adds_raw_os)

lemma keeps_adds: "keeps (adds P) m \<Longrightarrow> m s = (r, t) \<Longrightarrow> \<exists>new. log t = log s @ new \<and> list_all P new"
  by (auto simp: keeps_def adds_def dest: spec [of _ s])

text \<open>A connection that succeeds: what the log shows.\<close>

lemma connect_backend_log:
  assumes "connect_backend K (Some e) port s = (Inr b, t)"
  obtains pre dir socket stream where "b = Unix stream" "list_all looks pre"
    "log t = log s @ pre @ [(Openat dir (socket_name port) (O_PATH OR BASE_FLAGS) 0, Some socket), (Fstat socket, None),
       (ConnectFd socket, Some stream)]"
proof -
  from assms obtain root s0 dir s1 socket s2 md s3 stream s4 where
    h: "scoped_open K (e_home e) (e_uid e) s = (Inr root, s0)" and
    w: "open_chain K (sr_dir root) None (components_of PROXY_SUBDIR) s0 = (Inr (Some dir), s1)" and
    o: "open_path_at K dir (socket_name port) s1 = (Inr socket, s2)" and
    m: "fd_metadata K socket s2 = (Inr md, s3)" and
    cn: "sys_fd (ConnectFd socket) (k_connect_unix K socket) s3 = (Inr stream, s4)" and
    p: "raw_os (k_peer_uid K stream) s4 = (Inr (e_uid e), t)" and b: "b = Unix stream"
    by (auto simp: connect_backend_def open_sandbox_socket_def check_peer_uid_def thenE_def bindE_Inr throwE_def returnE_def
        split: option.splits if_splits)
  from keeps_adds [OF adds_walk(1) h] keeps_adds [OF adds_open_chain w]
  obtain n1 n2 where "log s1 = log s @ n1 @ n2" "list_all looks (n1 @ n2)" by auto
  with open_at_Inr [OF o [unfolded open_path_at_def]] m cn p b show ?thesis
    by (intro that [of stream "n1 @ n2" dir socket]) (simp_all add: fd_metadata_Inr sys_fd_Inr raw_os_Inr)
qed

text \<open>What reads on a connection can find, errors in between or not.\<close>

fun arriving :: "reader \<Rightarrow> string" where
  "arriving [] = []"
| "arriving (RdErr e # es) = arriving es"
| "arriving (Chunk bs # es) = bs @ arriving es"

text \<open>The stretch only writes, to \<open>b\<close> and in order, some beginning of \<open>data\<close>.\<close>

definition sends :: "fd \<Rightarrow> string \<Rightarrow> (fs_call \<times> fd option) list \<Rightarrow> (fs_call \<times> fd option) list \<Rightarrow> bool" where
  "sends b data l l' \<longleftrightarrow> (\<exists>ds. l' = l @ map (\<lambda>d. (WriteFd b d, None)) ds \<and> prefix (concat ds) data)"

lemma sends_none: "sends b data l l"
  by (auto simp: sends_def intro!: exI [of _ "[]"])

lemma sends_one: "backend_write K b d s = (r, t) \<Longrightarrow> log t = log s @ [(WriteFd b d, None)]"
  by (auto simp: backend_write_def sys_def split: prod.splits)

lemma sends_first: "sends b data (l @ [(WriteFd b d, None)]) l' \<Longrightarrow> sends b (d @ data) l l'"
  unfolding sends_def by clarify (rule_tac x = "d # ds" in exI, simp)

lemma sends_pump: "pump_up K b r s = (x, t) \<Longrightarrow> sends b (arriving r) (log s) (log t)"
proof (induction K b r arbitrary: s rule: pump_up.induct)
  case (3 K b bs es)
  show ?case
  proof (cases "bs = []")
    case False
    obtain y u where w: "backend_write K b bs s = (y, u)" by fastforce
    with 3 False have "sends b (arriving es) (log u) (log t)"
      by (cases y) (auto simp: catchE_def returnE_def intro: sends_none)
    with sends_one [OF w] show ?thesis by (simp add: sends_first)
  qed (use 3 in \<open>auto simp: returnE_def intro: sends_none\<close>)
qed (auto simp: returnE_def split: if_splits intro: sends_none)

lemma arriving_split: "leftover n r @ arriving (consume n r) = arriving r"
  by (cases r rule: arriving.cases) (auto simp: leftover_def consume_def)

lemma sends_tunnel:
  "sends b (head @ arriving (c_rd c)) (calls c) (calls (snd (tunnel K ahead down head b c)))"
proof -
  obtain r1 s1 where w1: "backend_write K b head (c_os c) = (r1, s1)" by fastforce
  obtain r2 s2 where w2: "backend_write K b (leftover ahead (c_rd c)) s1 = (r2, s2)" by fastforce
  obtain r3 s3 where w3: "pump_up K b (consume ahead (c_rd c)) s2 = (r3, s3)" by fastforce
  note first = sends_first [of b _ "log (c_os c)" head, folded sends_one [OF w1]]
  note second = sends_first [of b _ "log s1" "leftover ahead (c_rd c)", folded sends_one [OF w2]]
  show ?thesis
  proof (cases r1)
    case (Inl e1)
    with w1 show ?thesis by (simp add: tunnel_def thenE_def bindE_def os_def first sends_none)
  next
    case 1: (Inr u1)
    show ?thesis
    proof (cases r2)
      case (Inl e2)
      then have "calls (snd (tunnel K ahead down head b c)) = log s2"
        using w1 w2 1 by (simp add: tunnel_def thenE_def bindE_def os_def)
      moreover have "sends b (leftover ahead (c_rd c) @ arriving (consume ahead (c_rd c))) (log s1) (log s2)"
        by (rule second) (rule sends_none)
      ultimately show ?thesis using first by (simp add: arriving_split)
    next
      case 2: (Inr u2)
      have sh: "log (snd (ignoreE (raw_os m) s)) = log s" for m :: "('a, unit) io" and s
        by (simp add: ignoreE_def raw_os_def split: prod.split)
      have "calls (snd (tunnel K ahead down head b c)) = log s3"
        using w1 w2 w3 1 2
        by (cases r3) (auto simp: tunnel_def thenE_def bindE_def os_def resp_def ignoreE_def raw_os_def split: prod.split sum.split)
      moreover have "sends b (leftover ahead (c_rd c) @ arriving (consume ahead (c_rd c))) (log s1) (log s3)"
        by (rule second) (rule sends_pump [OF w3])
      ultimately show ?thesis using first by (simp add: arriving_split)
    qed
  qed
qed

lemma sends_tunnel_from:
  "c_rd d = r \<Longrightarrow> calls d = l \<Longrightarrow> sends b (head @ arriving r) l (calls (snd (tunnel K ahead down head b d)))"
  using sends_tunnel by blast

lemma proxy_sends:
  assumes cn: "connect_backend K sandbox port (c_os c) = (Inr b, s)" and t: "split_target segs = Some (port, fp)"
  shows "sends (backend_fd b) (build_head (c_req c) fp @ arriving (c_rd c)) (log s)
     (calls (snd (handle_proxy C K ahead down sandbox segs c)))"
  using t cn
  by (auto simp: handle_proxy_def catchE_def thenE_def bindE_def os_def resp_def on_req_def raw_os_def
      split: prod.split sum.split intro!: sends_none sends_tunnel_from)

text \<open>The calls of one proxy request in host mode, from the first look-up to the last byte sent.\<close>

lemma proxy_calls:
  "\<exists>new. calls (snd (handle_proxy C K ahead down (Some e) segments c)) = calls c @ new \<and>
     (list_all quiet new \<or>
      (\<exists>port fp pre dir socket stream ds.
         split_target segments = Some (port, fp) \<and>
         new = pre @ [(Openat dir (socket_name port) (O_PATH OR BASE_FLAGS) 0, Some socket), (Fstat socket, None),
                 (ConnectFd socket, Some stream)] @ map (\<lambda>d. (WriteFd stream d, None)) ds \<and>
         list_all looks pre \<and> prefix (concat ds) (build_head (c_req c) fp @ arriving (c_rd c))))"
proof (cases "split_target segments")
  let ?t = "snd (handle_proxy C K ahead down (Some e) segments c)"
  case None
  then have "calls ?t = calls c @ []" by (simp add: handle_proxy_def resp_calls)
  then show ?thesis by (intro exI [of _ "[]"]) simp
next
  let ?t = "snd (handle_proxy C K ahead down (Some e) segments c)"
  case (Some pf)
  obtain port fp where t: "split_target segments = Some (port, fp)" using Some by (cases pf) auto
  obtain r s where cn: "connect_backend K (Some e) port (c_os c) = (r, s)" by fastforce
  show ?thesis
  proof (cases r)
    case (Inl err)
    with t cn have "calls ?t = log s" by (simp add: handle_proxy_def catchE_def os_def resp_calls)
    with keeps_adds [OF adds_connect cn] show ?thesis by auto
  next
    case (Inr b)
    with cn have cb: "connect_backend K (Some e) port (c_os c) = (Inr b, s)" by simp
    from connect_backend_log [OF this] obtain pre dir socket stream where
      "b = Unix stream" "list_all looks pre"
      "log s = calls c @ pre @ [(Openat dir (socket_name port) (O_PATH OR BASE_FLAGS) 0, Some socket), (Fstat socket, None),
         (ConnectFd socket, Some stream)]" by metis
    moreover from proxy_sends [OF cb t, of C ahead down] obtain ds where
      "calls ?t = log s @ map (\<lambda>d. (WriteFd (backend_fd b) d, None)) ds"
      "prefix (concat ds) (build_head (c_req c) fp @ arriving (c_rd c))" unfolding sends_def by blast
    ultimately show ?thesis using t by simp blast
  qed
qed

text \<open>
  C7: in host mode the proxy reaches nothing but the sandbox's own sockets. Whatever the request
  names and whatever the sandbox has put into its home, the proxy opens the home by its path, then walks
  with one plain name at a time and no link followed, and connects only to a descriptor found that way.
  It writes to nothing but the connection it made: either it writes nothing at all, or it looks up the socket
  of the port the request names, inspects that descriptor, connects through it, and every call after that sends
  to the descriptor that \<open>connect\<close> returned, in order, some beginning of the rebuilt head and
  what arrives on the client's connection.
\<close>

theorem proxy_confined:
  "confined_to (e_home e) (handle_proxy C K ahead down (Some e) segments) \<and>
   (\<exists>new. calls (snd (handle_proxy C K ahead down (Some e) segments c)) = calls c @ new \<and>
     (list_all quiet new \<or>
      (\<exists>port fp pre dir socket stream ds.
         split_target segments = Some (port, fp) \<and>
         new = pre @ [(Openat dir (socket_name port) (O_PATH OR BASE_FLAGS) 0, Some socket), (Fstat socket, None),
                 (ConnectFd socket, Some stream)] @ map (\<lambda>d. (WriteFd stream d, None)) ds \<and>
         list_all looks pre \<and> prefix (concat ds) (build_head (c_req c) fp @ arriving (c_rd c)))))"
  by (intro conjI proxy_calls_confined proxy_calls)

section \<open>Whom the proxy talks to, and what it carries\<close>

text \<open>
  C28: a host-mode backend connection ends at the sandbox. When the proxy gets a connection, the last
  file it opened is \<open><port>.sock\<close>, opened without following a link; \<open>fstat\<close> of that descriptor showed a unix
  socket owned by the sandbox's uid, the connection was made through the same descriptor with no
  call in between, and the process at the other end runs under the sandbox's uid.
\<close>

theorem connect_backend_owner:
  assumes "connect_backend K (Some e) port s = (Inr b, t)"
  shows "\<exists>pre dir fl socket stream md k1 k2 k3.
    b = Unix stream \<and>
    log t = pre @ [(Openat dir (socket_name port) fl 0, Some socket), (Fstat socket, None), (ConnectFd socket, Some stream)] \<and>
    fl AND O_NOFOLLOW \<noteq> 0 \<and>
    k_fstat K socket k1 = (Inr md, k2) \<and> md_kind md = UnixSocket \<and> md_uid md = e_uid e \<and>
    k_connect_unix K socket k2 = (Inr stream, k3) \<and> k_peer_uid K stream k3 = (Inr (e_uid e), kst t)"
proof -
  from assms obtain s0 dir s1 socket s2 md s3 stream s4 where
    o: "open_path_at K dir (socket_name port) s1 = (Inr socket, s2)" and
    m: "fd_metadata K socket s2 = (Inr md, s3)" "md_kind md = UnixSocket" "md_uid md = e_uid e" and
    cn: "sys_fd (ConnectFd socket) (k_connect_unix K socket) s3 = (Inr stream, s4)" and
    p: "raw_os (k_peer_uid K stream) s4 = (Inr (e_uid e), t)" and b: "b = Unix stream"
    by (auto simp: connect_backend_def open_sandbox_socket_def check_peer_uid_def thenE_def bindE_Inr throwE_def returnE_def
        split: option.splits if_splits)
  have "(O_PATH OR BASE_FLAGS) AND O_NOFOLLOW \<noteq> 0" by (simp add: open_flags BASE_FLAGS_def)
  with open_at_Inr [OF o [unfolded open_path_at_def]] m cn p b show ?thesis
    by (intro exI [of _ "log s1"] exI [of _ dir] exI [of _ "O_PATH OR BASE_FLAGS"] exI [of _ socket] exI [of _ stream]
        exI [of _ md] exI [of _ "kst s2"] exI [of _ "kst s3"] exI [of _ "kst s4"])
       (simp add: fd_metadata_Inr sys_fd_Inr raw_os_Inr)
qed

text \<open>A backend that stays up: the descriptor can be duplicated and takes every write.\<close>

definition backend_alive :: "('w, 'z) px_kernel_scheme \<Rightarrow> fd \<Rightarrow> bool" where
  "backend_alive K b \<longleftrightarrow> (\<forall>w. (\<exists>f w'. k_clone_backend K b w = (Inr f, w')) \<and> (\<exists>w'. k_clone_client K w = (Inr (), w')) \<and>
     (\<forall>d. \<exists>w'. k_sock_write K b d w = (Inr (), w')))"

abbreviation writes :: "fd \<Rightarrow> string list \<Rightarrow> (fs_call \<times> fd option) list" where
  "writes b ds \<equiv> map (\<lambda>d. (WriteFd b d, None)) ds"

lemma raw_os_alive:
  assumes "backend_alive K b"
  shows "\<exists>f t. raw_os (k_clone_backend K b) s = (Inr f, t) \<and> log t = log s"
    and "\<exists>t. raw_os (k_clone_client K) s = (Inr (), t) \<and> log t = log s"
    and "\<exists>t. backend_write K b d s = (Inr (), t) \<and> log t = log s @ writes b [d]"
  using assms unfolding backend_alive_def raw_os_def backend_write_def sys_def
  by (auto split: prod.split) (metis Pair_inject sum.inject(2) old.unit.exhaust)+

lemma pump_up_all:
  assumes "backend_alive K b"
  shows "rd_clean r \<Longrightarrow> \<exists>t ws. pump_up K b r s = (Inr (), t) \<and> log t = log s @ writes b ws \<and> concat ws = rd_bytes r"
proof (induction r arbitrary: s rule: rd_clean.induct)
  case 1
  then show ?case by (auto simp: returnE_def intro!: exI [of _ "[]"])
next
  case (3 bs es)
  obtain t where t: "backend_write K b bs s = (Inr (), t)" "log t = log s @ writes b [bs]"
    using raw_os_alive(3) [OF assms] by blast
  from 3 obtain u ws where "pump_up K b es t = (Inr (), u)" "log u = log t @ writes b ws" "concat ws = rd_bytes es"
    by fastforce
  with t 3(2) show ?case by (intro exI [of _ u] exI [of _ "bs # ws"]) (simp add: catchE_def)
qed simp

lemma copy_down_all: "rd_clean r \<Longrightarrow> room w = None \<Longrightarrow>
   copy_down r w = (Inr (), w\<lparr>sent := sent w @ rd_bytes r\<rparr>)"
  by (induction r arbitrary: w rule: rd_clean.induct) (auto simp: returnE_def catchE_def sock_write_all_def)

lemma leftover_consume:
  "rd_clean r \<Longrightarrow> leftover n r @ rd_bytes (consume n r) = rd_bytes r \<and> rd_clean (consume n r)"
  by (cases r rule: rd_clean.cases) (auto simp: leftover_def consume_def)

lemma ignore_raw: "\<exists>t. ignoreE (raw_os m) s = (Inr (), t) \<and> log t = log s"
  by (auto simp: ignoreE_def raw_os_def split: prod.split)

lemma tunnel_forwards:
  assumes alive: "backend_alive K b" and "rd_clean (c_rd c)" "rd_clean down" "room (rw_writer (c_rw c)) = None"
  shows "\<exists>c' ws. tunnel K ahead down head b c = (Inr (), c') \<and> calls c' = calls c @ writes b ws \<and>
    concat ws = head @ rd_bytes (c_rd c) \<and>
    c_rw c' = (c_rw c)\<lparr>rw_writer := (rw_writer (c_rw c))\<lparr>sent := sent (rw_writer (c_rw c)) @ rd_bytes down\<rparr>\<rparr>"
proof -
  let ?l = "leftover ahead (c_rd c)" and ?r = "consume ahead (c_rd c)"
  obtain s1 where s1: "backend_write K b head (c_os c) = (Inr (), s1)" "log s1 = calls c @ writes b [head]"
    using raw_os_alive(3) [OF alive] by blast
  obtain s2 where s2: "backend_write K b ?l s1 = (Inr (), s2)" "log s2 = log s1 @ writes b [?l]"
    using raw_os_alive(3) [OF alive] by blast
  note lc = leftover_consume [OF assms(2), of ahead]
  then obtain s3 ws where s3: "pump_up K b ?r s2 = (Inr (), s3)" "log s3 = log s2 @ writes b ws" "concat ws = rd_bytes ?r"
    using pump_up_all [OF alive] by blast
  obtain s4 where s4: "ignoreE (raw_os (k_shutdown K b)) s3 = (Inr (), s4)" "log s4 = log s3" using ignore_raw by blast
  obtain s5 where s5: "ignoreE (raw_os (k_shutdown K b)) s4 = (Inr (), s5)" "log s5 = log s4" using ignore_raw by blast
  show ?thesis
    using s1 s2 s3 s4 s5 lc copy_down_all [OF assms(3,4)]
    by (intro exI [of _ "c\<lparr>c_os := s5, c_rd := [], c_rw := (c_rw c)\<lparr>rw_writer := (rw_writer (c_rw c))\<lparr>sent := sent (rw_writer (c_rw c)) @ rd_bytes down\<rparr>\<rparr>\<rparr>"]
        exI [of _ "head # ?l # ws"])
       (auto simp: tunnel_def thenE_def bindE_def os_def resp_def on_writer_def)
qed

text \<open>
  The tunnel carries every byte. On a connection to a live backend the proxy sends the rebuilt
  head followed by exactly what the client sends after its own head, whatever part of that was already
  buffered, and the client receives exactly what the backend sends; then the proxy returns.
\<close>

theorem proxy_forwards:
  assumes t: "split_target segs = Some (port, fp)" and cn: "connect_backend K sandbox port (c_os c) = (Inr b, s)"
    and alive: "backend_alive K (backend_fd b)" and rd: "rd_clean (c_rd c)" "rd_clean down" and rm: "room (rw_writer (c_rw c)) = None"
  shows "\<exists>c' ws. handle_proxy C K ahead down sandbox segs c = (Inr (), c') \<and>
    calls c' = log s @ map (\<lambda>d. (WriteFd (backend_fd b) d, None)) ws \<and>
    concat ws = build_head (c_req c) fp @ rd_bytes (c_rd c) \<and>
    sent (rw_writer (c_rw c')) = wr_output (rw_writer (c_rw c)) @ rd_bytes down \<and> hijacked (c_rw c')"
proof -
  let ?b = "backend_fd b"
  obtain f s1 where s1: "raw_os (k_clone_backend K ?b) s = (Inr f, s1)" "log s1 = log s" using raw_os_alive(1) [OF alive] by blast
  obtain s2 where s2: "raw_os (k_clone_client K) s1 = (Inr (), s2)" "log s2 = log s1" using raw_os_alive(2) [OF alive] by blast
  obtain s3 where s3: "raw_os (k_clone_client K) s2 = (Inr (), s3)" "log s3 = log s2" using raw_os_alive(2) [OF alive] by blast
  let ?w = "rw_writer (c_rw c)"
  let ?rw = "(c_rw c)\<lparr>rw_writer := ?w\<lparr>sent := sent ?w @ buffered ?w, buffered := []\<rparr>, started := True, hijacked := True\<rparr>"
  let ?c = "c\<lparr>c_rw := ?rw, c_os := s3\<rparr>"
  have hj: "hijack (Inr ()) (c_rw c) = (Inr (), ?rw)"
    using rm by (simp add: hijack_def thenE_def bindE_def on_writer_def bw_flush_def flush_buf_def sock_write_all_def)
  have eq: "handle_proxy C K ahead down sandbox segs c = tunnel K ahead down (build_head (c_req c) fp) ?b ?c"
    using t cn s1 s2 s3 hj by (simp add: handle_proxy_def catchE_def thenE_def bindE_def os_def resp_def on_req_def)
  show ?thesis
    using tunnel_forwards [OF alive, of ?c down ahead "build_head (c_req c) fp"] rd rm s1 s2 s3
    by (auto simp: eq wr_output_def)
qed


section \<open>Witnesses\<close>

text \<open>A machine whose sandbox listens on every socket: descriptors are counted up.\<close>

definition demo_px :: "nat px_kernel" where
  "demo_px = ex_kernel.extend
     (demo_ex\<lparr>k_fstat := \<lambda>f. returnE \<lparr>md_kind = UnixSocket, md_len = 0, md_uid = 20000, md_mode = 384, md_mtime_ms = None\<rparr>\<rparr>)
     (px_kernel.fields (\<lambda>f w. (Inr w, Suc w)) (\<lambda>p w. (Inr w, Suc w)) (\<lambda>f. returnE 20000) (\<lambda>f w. (Inr w, Suc w)) (returnE ())
        (\<lambda>f d. returnE ()) (\<lambda>f. returnE ()))"

lemma demo_px_simps:
  "k_connect_unix demo_px = (\<lambda>f w. (Inr w, Suc w))" "k_connect_tcp demo_px = (\<lambda>p w. (Inr w, Suc w))"
  "k_peer_uid demo_px = (\<lambda>f. returnE 20000)" "k_clone_backend demo_px = (\<lambda>f w. (Inr w, Suc w))"
  "k_clone_client demo_px = returnE ()" "k_sock_write demo_px = (\<lambda>f d. returnE ())" "k_shutdown demo_px = (\<lambda>f. returnE ())"
  "k_fstat demo_px = (\<lambda>f. returnE \<lparr>md_kind = UnixSocket, md_len = 0, md_uid = 20000, md_mode = 384, md_mtime_ms = None\<rparr>)"
  "k_openat demo_px = (\<lambda>d n fl m w. (Inr w, Suc w))" "k_open demo_px = (\<lambda>p fl m w. (Inr w, Suc w))"
  by (simp_all add: demo_px_def demo_ex_def demo_sb_def ex_kernel.defs px_kernel.defs sb_kernel.defs ll_kernel.defs kernel.defs demo_ll_def demo_kernel_def)

lemma demo_alive: "backend_alive demo_px b"
  by (simp add: backend_alive_def demo_px_simps returnE_def)

lemma demo_connect:
  "\<exists>t. connect_backend demo_px (Some demo_entry) 80 \<lparr>kst = 4, log = []\<rparr> = (Inr (Unix 8), t)"
  "\<exists>t. connect_backend demo_px None 80 \<lparr>kst = 4, log = []\<rparr> = (Inr (Tcp 4), t) \<and> log t = []"
  by (simp_all add: connect_backend_def open_sandbox_socket_def check_peer_uid_def scoped_open_def raw_os_def PROXY_SUBDIR_def
      socket_name_def str_eval demo_px_simps demo_simps)

theorem connect_backend_owner_witness:
  "\<exists>t stream pre dir fl socket. connect_backend demo_px (Some demo_entry) 80 \<lparr>kst = 4, log = []\<rparr> = (Inr (Unix stream), t) \<and>
     log t = pre @ [(Openat dir (socket_name 80) fl 0, Some socket), (Fstat socket, None), (ConnectFd socket, Some stream)]"
proof -
  obtain t where t: "connect_backend demo_px (Some demo_entry) 80 \<lparr>kst = 4, log = []\<rparr> = (Inr (Unix 8), t)"
    using demo_connect(1) by blast
  from connect_backend_owner [OF this] t show ?thesis by blast
qed

theorem proxy_forwards_witness:
  "\<exists>c' ws. handle_proxy demo_codec demo_px 2 [Chunk ''HTTP/1.1 200 OK''] None [''80'', ''a'']
       ((demo_conn [])\<lparr>c_rd := [Chunk ''body'', Chunk ''!''], c_os := \<lparr>kst = 4, log = []\<rparr>\<rparr>) = (Inr (), c') \<and>
     calls c' = map (\<lambda>d. (WriteFd 4 d, None)) ws \<and> concat ws = build_head (c_req (demo_conn [])) ''/a'' @ ''body!'' \<and> sent (rw_writer (c_rw c')) = ''HTTP/1.1 200 OK''"
proof -
  let ?c = "(demo_conn [])\<lparr>c_rd := [Chunk ''body'', Chunk ''!''], c_os := \<lparr>kst = 4, log = []\<rparr>\<rparr>"
  have t: "split_target [''80'', ''a''] = Some (80, ''/a'')"
    by (simp add: split_target_def parse_u16_def from_str_radix_def to_digit_def str_eval)
  obtain s where s: "connect_backend demo_px None 80 \<lparr>kst = 4, log = []\<rparr> = (Inr (Tcp 4), s)" "log s = []"
    using demo_connect(2) by blast
  then have "connect_backend demo_px None 80 (c_os ?c) = (Inr (Tcp 4), s)" by simp
  from proxy_forwards [OF t this demo_alive, of "[Chunk ''HTTP/1.1 200 OK'']" demo_codec 2]
  show ?thesis using s(2) by (auto simp: demo_conn_def rw_new_def open_writer_def wr_output_def)
qed

end
