(* ===== verification/Exec_Life.thy ===== *)
theory Exec_Life
  imports Exec
begin

text \<open>
  Commands under concurrency: the machine in which the spawning handlers, the waiters, the killers
  and the orphan reaper of \<open>src/exec.rs\<close> interleave, each step being one of the atomic sections
  defined in \<open>Exec\<close>. The invariant shows that signals reach the process they are meant for and that
  the reaper never collects a command, for every command whose pid the operating system did not hand out again before
  the server had untracked it; the last theorem shows what happens in that window.
\<close>

section \<open>The life of a command\<close>

text \<open>
  The threads that meet on a command: the handler that spawns it, its waiter, the handlers and
  watchers that kill it, and the orphan reaper. What the operating system knows and the server does not
  is kept beside the server's state: which process holds a pid (\<open>lf_tab\<close>; processes are numbered
  in the order they appear), the process behind each handle, how far each waiter is, and the
  signals that the log of calls shows as sent to a pid or a process group, each with the process that held the
  pid at that moment (a signal through a pidfd cannot miss).
\<close>

datatype waiter = Waiting | Reaped | Untracked

record 'w life =
  lf_world :: "'w world"
  lf_tab :: "nat \<Rightarrow> nat option"
  lf_next :: nat
  lf_proc :: "nat list"
  lf_waiter :: "waiter list"
  lf_signals :: "(nat \<times> nat option) list"
  lf_early :: "nat list"

text \<open>The pids and process groups addressed by the calls of \<open>kill\<close> in a log, and the calls made from one log to the next.\<close>

definition signalled :: "(fs_call \<times> fd option) list \<Rightarrow> nat list" where
  "signalled es = concat (map (\<lambda>(c, _). case c of KillPid p sig \<Rightarrow> [nat \<bar>p\<bar>] | _ \<Rightarrow> []) es)"

definition new_calls :: "'w world \<Rightarrow> 'w world \<Rightarrow> (fs_call \<times> fd option) list" where
  "new_calls w w' = drop (length (log (w_os w))) (log (w_os w'))"

abbreviation pid_of :: "'w life \<Rightarrow> nat \<Rightarrow> nat" where
  "pid_of s i \<equiv> ph_pid (w_handles (lf_world s) ! i)"

text \<open>
  One step of one thread. A new process gets a pid that nobody holds; a successful wait frees the
  pid; until then a process keeps it, alive or not, and a wait fails only if the process is not there.
  Everything outside the server may change in
  between, except that the pids of the server's own unwaited children stay with them. Nothing else is assumed of the
  order in which the operating system reuses pids; \<open>lf_early\<close> remembers the pids it handed out between
  the wait that freed them and the \<open>untrack_owned\<close> that follows.
\<close>

abbreviation after_spawn :: "'w life \<Rightarrow> nat \<Rightarrow> 'w world \<Rightarrow> 'w life" where
  "after_spawn s pid w' \<equiv> s\<lparr>lf_world := w', lf_tab := (lf_tab s)(pid \<mapsto> lf_next s), lf_next := Suc (lf_next s),
     lf_proc := lf_proc s @ [lf_next s], lf_waiter := lf_waiter s @ [Waiting],
     lf_early := (if pid \<in> set (w_owned (lf_world s)) then pid # lf_early s else lf_early s)\<rparr>"

inductive life_step :: "('w, 'z) ex_kernel_scheme \<Rightarrow> 'w life \<Rightarrow> 'w life \<Rightarrow> bool"
  for K :: "('w, 'z) ex_kernel_scheme" where
  lf_spawn: "spawn K spec (lf_world s) = (Inr (Inr (pid, i)), w') \<Longrightarrow> lf_tab s pid = None \<Longrightarrow>
     life_step K s (after_spawn s pid w')"
| lf_reap: "i < length (lf_waiter s) \<Longrightarrow> lf_waiter s ! i = Waiting \<Longrightarrow>
     reap_child K i (lf_world s) = (Inr (Some status), w') \<Longrightarrow>
     life_step K s (s\<lparr>lf_world := w', lf_tab := (lf_tab s)(pid_of s i := None),
       lf_waiter := (lf_waiter s)[i := Reaped]\<rparr>)"
| lf_lost: "i < length (lf_waiter s) \<Longrightarrow> lf_waiter s ! i = Waiting \<Longrightarrow>
     reap_child K i (lf_world s) = (Inr None, w') \<Longrightarrow> lf_tab s (pid_of s i) \<noteq> Some (lf_proc s ! i) \<Longrightarrow>
     life_step K s (s\<lparr>lf_world := w', lf_waiter := (lf_waiter s)[i := Reaped]\<rparr>)"
| lf_untrack: "i < length (lf_waiter s) \<Longrightarrow> lf_waiter s ! i = Reaped \<Longrightarrow>
     untrack_owned (pid_of s i) (lf_world s) = (Inr u, w') \<Longrightarrow>
     life_step K s (s\<lparr>lf_world := w', lf_waiter := (lf_waiter s)[i := Untracked]\<rparr>)"
| lf_kill: "i < length (lf_waiter s) \<Longrightarrow> kill_tree K SIGKILL timeout i (lf_world s) = (Inr b, w') \<Longrightarrow>
     life_step K s (s\<lparr>lf_world := w', lf_signals := lf_signals s @
       map (\<lambda>p. (i, lf_tab s p)) (signalled (new_calls (lf_world s) w'))\<rparr>)"
| lf_orphan: "reaper_iter K (lf_world s) = (Inr (Some pid), w') \<Longrightarrow>
     life_step K s (s\<lparr>lf_world := w', lf_tab := (lf_tab s)(pid := None)\<rparr>)"
| lf_other: "w_handles w' = w_handles (lf_world s) \<Longrightarrow> w_owned w' = w_owned (lf_world s) \<Longrightarrow>
     (\<And>p c. c \<in> set (lf_proc s) \<Longrightarrow> tab p = Some c \<longleftrightarrow> lf_tab s p = Some c) \<Longrightarrow>
     (\<And>p c. tab p = Some c \<Longrightarrow> c < n) \<Longrightarrow> lf_next s \<le> n \<Longrightarrow>
     life_step K s (s\<lparr>lf_world := w', lf_tab := tab, lf_next := n\<rparr>)"

definition life_init :: "'w life \<Rightarrow> bool" where
  "life_init s \<longleftrightarrow> w_handles (lf_world s) = [] \<and> w_owned (lf_world s) = [] \<and>
     (\<forall>p c. lf_tab s p = Some c \<longrightarrow> c < lf_next s) \<and> lf_proc s = [] \<and> lf_waiter s = [] \<and> lf_signals s = [] \<and> lf_early s = []"

text \<open>
  The invariant. Each handle says \<open>running\<close> exactly as long as its waiter waits, and its process holds no other
  pid, and none once it was waited for. A handle whose pid was never handed out early: while its waiter waits its
  process holds the pid; until the waiter has untracked it the pid is owned; no two such handles that are still tracked share a pid.
\<close>

abbreviation undisturbed :: "'w life \<Rightarrow> nat \<Rightarrow> bool" where
  "undisturbed s i \<equiv> pid_of s i \<notin> set (lf_early s)"

definition cmd_ok :: "'w life \<Rightarrow> nat \<Rightarrow> bool" where
  "cmd_ok s i \<longleftrightarrow>
     (ph_running (w_handles (lf_world s) ! i) \<longleftrightarrow> lf_waiter s ! i = Waiting) \<and>
     (undisturbed s i \<and> lf_waiter s ! i = Waiting \<longrightarrow> lf_tab s (pid_of s i) = Some (lf_proc s ! i)) \<and>
     (undisturbed s i \<and> lf_waiter s ! i \<noteq> Untracked \<longrightarrow> pid_of s i \<in> set (w_owned (lf_world s))) \<and>
     (\<forall>p. lf_tab s p = Some (lf_proc s ! i) \<longrightarrow> p = pid_of s i \<and> lf_waiter s ! i = Waiting)"

definition tables_ok :: "'w life \<Rightarrow> bool" where
  "tables_ok s \<longleftrightarrow>
     length (w_handles (lf_world s)) = length (lf_waiter s) \<and> length (lf_proc s) = length (lf_waiter s) \<and>
     distinct (lf_proc s) \<and> distinct (w_owned (lf_world s)) \<and>
     (\<forall>c \<in> set (lf_proc s). c < lf_next s) \<and> (\<forall>p c. lf_tab s p = Some c \<longrightarrow> c < lf_next s)"

definition tracked_apart :: "'w life \<Rightarrow> bool" where
  "tracked_apart s \<longleftrightarrow> (\<forall>i < length (lf_waiter s). \<forall>j < length (lf_waiter s).
     undisturbed s i \<and> lf_waiter s ! i \<noteq> Untracked \<and> lf_waiter s ! j \<noteq> Untracked \<and> pid_of s i = pid_of s j \<longrightarrow> i = j)"

definition signals_ok :: "'w life \<Rightarrow> bool" where
  "signals_ok s \<longleftrightarrow> (\<forall>i t. (i, t) \<in> set (lf_signals s) \<longrightarrow> i < length (lf_proc s) \<and> (undisturbed s i \<longrightarrow> t = Some (lf_proc s ! i)))"

definition life_inv :: "'w life \<Rightarrow> bool" where
  "life_inv s \<longleftrightarrow> tables_ok s \<and> (\<forall>i < length (lf_waiter s). cmd_ok s i) \<and> tracked_apart s \<and> signals_ok s"

lemma reap_child_Inr:
  assumes "reap_child K i w = (Inr st, w')"
  shows "\<exists>s. w' = w\<lparr>w_os := s, w_handles := (w_handles w)[i := (w_handles w ! i)\<lparr>ph_running := False\<rparr>]\<rparr>"
proof -
  obtain r s where r: "raw_os (k_wait K (ph_pid (w_handles w ! i))) (w_os w) = (r, s)" by fastforce
  with assms show ?thesis
    by (cases r) (auto simp: reap_child_def bindE_def catchE_def on_os_def thenE_def set_handle_def returnE_def)
qed

lemma sys_kill_log: "sys_kill K p signal s = (r, s') \<Longrightarrow> log s' = log s @ [(KillPid p signal, None)]"
  by (auto simp: sys_kill_def sys_def split: prod.splits)

lemma signal_leader_log:
  "signal_leader K signal h s = (r, s') \<Longrightarrow> \<exists>new. log s' = log s @ new \<and> set (signalled new) \<subseteq> {ph_pid h}"
  by (cases "ph_pidfd h")
     (auto simp: signal_leader_def catchE_def returnE_def signalled_def raw_os_def dest!: sys_kill_log split: prod.splits sum.splits)

lemma kill_tree_Inr:
  assumes "kill_tree K signal timeout i w = (Inr b, w')"
  shows "\<exists>s t. w' = w\<lparr>w_handles := (w_handles w)[i := (w_handles w ! i)\<lparr>ph_timed_out := t\<rparr>], w_os := s\<rparr> \<and>
    set (signalled (new_calls w w')) \<subseteq> (if ph_running (w_handles w ! i) then {ph_pid (w_handles w ! i)} else {})"
proof (cases "ph_running (w_handles w ! i)")
  case False
  then have "w' = w" using assms by (simp add: kill_tree_def)
  with False show ?thesis
    by (intro exI [of _ "w_os w"] exI [of _ "ph_timed_out (w_handles w ! i)"]) (simp add: new_calls_def signalled_def)
next
  case True
  let ?h = "w_handles w ! i"
  obtain x s where s: "sys_kill K (- int (ph_pid ?h)) signal (w_os w) = (x, s)" by fastforce
  obtain y s' where y: "signal_leader K signal ?h s = (Inr y, s')" using signal_leader_ok by blast
  obtain new where "log s' = log s @ new" "set (signalled new) \<subseteq> {ph_pid ?h}" using signal_leader_log [OF y] by blast
  with sys_kill_log [OF s] have "set (signalled (drop (length (log (w_os w))) (log s'))) \<subseteq> {ph_pid ?h}"
    by (simp add: signalled_def)
  moreover from assms True s y
  have "w' = (if timeout then w\<lparr>w_handles := (w_handles w)[i := ?h\<lparr>ph_timed_out := True\<rparr>]\<rparr> else w)\<lparr>w_os := s'\<rparr>"
    by (auto simp: kill_tree_def Let_def thenE_def bindE_def ignoreE_def on_os_def returnE_def set_handle_def)
  moreover have "w\<lparr>w_handles := (w_handles w)[i := ?h\<lparr>ph_timed_out := ph_timed_out ?h\<rparr>], w_os := s'\<rparr> = w\<lparr>w_os := s'\<rparr>" by simp
  ultimately have "set (signalled (new_calls w w')) \<subseteq> {ph_pid ?h}"
    "\<exists>t. w' = w\<lparr>w_handles := (w_handles w)[i := ?h\<lparr>ph_timed_out := t\<rparr>], w_os := s'\<rparr>"
    by (simp add: new_calls_def, cases timeout) (metis+)
  with True show ?thesis by auto
qed

lemma reaper_iter_Some:
  assumes "reaper_iter K w = (Inr (Some pid), w')"
  shows "\<exists>s. w' = w\<lparr>w_os := s\<rparr> \<and> pid \<notin> set (w_owned w)"
  using assms
  by (auto simp: reaper_iter_def catchE_def on_os_def returnE_def split: prod.splits sum.splits if_splits)

text \<open>Each step keeps the invariant.\<close>

lemma life_invD:
  assumes "life_inv s"
  shows "tables_ok s" "i < length (lf_waiter s) \<Longrightarrow> cmd_ok s i" "tracked_apart s" "signals_ok s"
  using assms by (simp_all add: life_inv_def)

text \<open>The state after a successful spawn, in which the new command is the last one.\<close>

lemma spawn_shape:
  assumes inv: "life_inv s" and sp: "spawn K spec (lf_world s) = (Inr (Inr (pid, i)), w')"
  obtains h where "ph_pid h = pid" "ph_running h" "w_handles w' = w_handles (lf_world s) @ [h]"
    "w_owned w' = List.insert pid (w_owned (lf_world s))" "length (w_handles (lf_world s)) = length (lf_waiter s)"
    "length (lf_proc s) = length (lf_waiter s)"
proof -
  from spawn_Inr(3) [OF sp] obtain h u where h: "ph_pid h = pid" "ph_running h" and
    w': "w' = (lf_world s)\<lparr>w_owned := List.insert pid (w_owned (lf_world s)), w_os := u, w_handles := w_handles (lf_world s) @ [h]\<rparr>"
    by blast
  have "length (w_handles (lf_world s)) = length (lf_waiter s)" "length (lf_proc s) = length (lf_waiter s)"
    using life_invD(1) [OF inv] by (simp_all add: tables_ok_def)
  then show thesis using that [OF h] by (simp add: w')
qed

lemma spawn_tables_ok:
  assumes inv: "life_inv s" and sp: "spawn K spec (lf_world s) = (Inr (Inr (pid, i)), w')"
  shows "tables_ok (after_spawn s pid w')"
proof -
  note T = life_invD(1) [OF inv, unfolded tables_ok_def]
  obtain h where w': "w_handles w' = w_handles (lf_world s) @ [h]" "w_owned w' = List.insert pid (w_owned (lf_world s))"
    using spawn_shape [OF inv sp] by blast
  have "distinct (lf_proc s @ [lf_next s])" "\<forall>c \<in> set (lf_proc s @ [lf_next s]). c < Suc (lf_next s)"
    "\<forall>p c. ((lf_tab s)(pid \<mapsto> lf_next s)) p = Some c \<longrightarrow> c < Suc (lf_next s)"
    using T by (auto simp: less_Suc_eq)
  then show ?thesis using T by (simp add: tables_ok_def w')
qed

text \<open>A command that was there before and is undisturbed by the new pid does not have it, unless it is untracked.\<close>

lemma old_pid:
  assumes inv: "life_inv s" and free: "lf_tab s pid = None" and j: "j < length (lf_waiter s)"
    and und: "pid_of s j \<notin> set (if pid \<in> set (w_owned (lf_world s)) then pid # lf_early s else lf_early s)"
  shows "lf_waiter s ! j \<noteq> Untracked \<Longrightarrow> pid_of s j \<noteq> pid"
  using life_invD(2) [OF inv j] und by (auto simp: cmd_ok_def split: if_splits)

lemma spawn_cmd_ok:
  assumes inv: "life_inv s" and sp: "spawn K spec (lf_world s) = (Inr (Inr (pid, i)), w')"
    and free: "lf_tab s pid = None" and j: "j < length (lf_waiter (after_spawn s pid w'))"
  shows "cmd_ok (after_spawn s pid w') j"
proof -
  note T = life_invD(1) [OF inv, unfolded tables_ok_def]
  obtain h where h: "ph_pid h = pid" "ph_running h" and w': "w_handles w' = w_handles (lf_world s) @ [h]"
    "w_owned w' = List.insert pid (w_owned (lf_world s))" and len: "length (w_handles (lf_world s)) = length (lf_waiter s)"
    "length (lf_proc s) = length (lf_waiter s)"
    by (rule spawn_shape [OF inv sp])
  show ?thesis
  proof (cases "j = length (lf_waiter s)")
    case True
    have "lf_tab s p \<noteq> Some (lf_next s)" for p using T by (metis less_irrefl)
    then show ?thesis unfolding True cmd_ok_def by (simp add: nth_append w' len h)
  next
    case False
    with j have j: "j < length (lf_waiter s)" by simp
    have "lf_proc s ! j < lf_next s" using T j len by simp
    then have "((lf_tab s)(pid \<mapsto> lf_next s)) p = Some (lf_proc s ! j) \<longleftrightarrow> lf_tab s p = Some (lf_proc s ! j)" for p
      using free by auto
    then show ?thesis
      using life_invD(2) [OF inv j] old_pid [OF inv free j] unfolding cmd_ok_def by (auto simp: nth_append w' len j split: if_splits)
  qed
qed

lemma spawn_tracked_apart:
  assumes inv: "life_inv s" and sp: "spawn K spec (lf_world s) = (Inr (Inr (pid, i)), w')" and free: "lf_tab s pid = None"
  shows "tracked_apart (after_spawn s pid w')" (is "tracked_apart ?t")
  unfolding tracked_apart_def
proof (intro allI impI)
  fix a b
  let ?n = "length (lf_waiter s)"
  assume ab: "a < length (lf_waiter ?t)" "b < length (lf_waiter ?t)"
    and u: "undisturbed ?t a \<and> lf_waiter ?t ! a \<noteq> Untracked \<and> lf_waiter ?t ! b \<noteq> Untracked \<and> pid_of ?t a = pid_of ?t b"
  obtain h where h: "ph_pid h = pid" and w': "w_handles w' = w_handles (lf_world s) @ [h]"
    and len: "length (w_handles (lf_world s)) = ?n"
    using spawn_shape [OF inv sp] .
  have own: "ph_pid (w_handles (lf_world s) ! j) \<noteq> pid" if "j < ?n" "lf_waiter s ! j \<noteq> Untracked" "undisturbed ?t j" for j
    using old_pid [OF inv free that(1)] that by (simp add: nth_append w' len)
  show "a = b"
  proof (cases "a < ?n \<and> b < ?n")
    case True
    with u life_invD(3) [OF inv] len show ?thesis by (auto simp: tracked_apart_def nth_append w' split: if_splits)
  next
    case False
    with ab u own [of a] own [of b] len h show ?thesis by (auto simp: less_Suc_eq nth_append w')
  qed
qed

lemma life_inv_spawn:
  assumes inv: "life_inv s" and sp: "spawn K spec (lf_world s) = (Inr (Inr (pid, i)), w')" and free: "lf_tab s pid = None"
  shows "life_inv (after_spawn s pid w')"
proof -
  obtain h where w': "w_handles w' = w_handles (lf_world s) @ [h]" and len: "length (w_handles (lf_world s)) = length (lf_waiter s)"
    "length (lf_proc s) = length (lf_waiter s)"
    using spawn_shape [OF inv sp] .
  have "signals_ok (after_spawn s pid w')"
    using life_invD(4) [OF inv] by (fastforce simp: signals_ok_def nth_append w' len split: if_splits intro: less_SucI)
  with spawn_tables_ok [OF inv sp] spawn_cmd_ok [OF inv sp free] spawn_tracked_apart [OF inv sp free]
  show ?thesis by (simp add: life_inv_def)
qed

text \<open>
  The waiter of \<open>i\<close> is done, with \<open>tab\<close> as the table of pids: it lost at most the pid of \<open>i\<close>, and the process of \<open>i\<close>
  holds none. This is a wait that succeeded, or one that found nothing.
\<close>

lemma tracked_apartD:
  "tracked_apart s \<Longrightarrow> i < length (lf_waiter s) \<Longrightarrow> j < length (lf_waiter s) \<Longrightarrow> undisturbed s i \<Longrightarrow>
   lf_waiter s ! i \<noteq> Untracked \<Longrightarrow> lf_waiter s ! j \<noteq> Untracked \<Longrightarrow> pid_of s i = pid_of s j \<Longrightarrow> i = j"
  by (simp add: tracked_apart_def)

lemma life_inv_waited:
  assumes inv: "life_inv s" and i: "i < length (lf_waiter s)" "lf_waiter s ! i = Waiting"
    and r: "reap_child K i (lf_world s) = (Inr st, w')"
    and tab: "\<And>p c. tab p = Some c \<Longrightarrow> lf_tab s p = Some c" "\<And>p. p \<noteq> pid_of s i \<Longrightarrow> tab p = lf_tab s p"
    "\<And>p. tab p \<noteq> Some (lf_proc s ! i)"
  shows "life_inv (s\<lparr>lf_world := w', lf_tab := tab, lf_waiter := (lf_waiter s)[i := Reaped]\<rparr>)" (is "life_inv ?t")
proof -
  note T = life_invD(1) [OF inv, unfolded tables_ok_def]
  from reap_child_Inr [OF r] have own: "w_owned w' = w_owned (lf_world s)" and
    hs: "w_handles w' = (w_handles (lf_world s))[i := (w_handles (lf_world s) ! i)\<lparr>ph_running := False\<rparr>]" by auto
  have pid: "ph_pid (w_handles w' ! j) = pid_of s j" for j
    using T i by (simp add: hs nth_list_update)
  have "c < lf_next s" if "tab p = Some c" for p c using T tab(1) [OF that] by metis
  then have "tables_ok ?t" using T by (simp add: tables_ok_def own hs)
  moreover have "cmd_ok ?t j" if "j < length (lf_waiter ?t)" for j
  proof (cases "j = i")
    case True
    have "pid_of s i \<in> set (w_owned (lf_world s))" if "undisturbed s i"
      using life_invD(2) [OF inv i(1)] i that by (simp add: cmd_ok_def)
    then show ?thesis using True i T tab(3) by (simp add: cmd_ok_def pid own) (simp add: hs)
  next
    case False
    have j: "j < length (lf_waiter s)" using that by simp
    note c = life_invD(2) [OF inv j, unfolded cmd_ok_def]
    have "pid_of s j \<noteq> pid_of s i" if "undisturbed s j" "lf_waiter s ! j = Waiting"
      using tracked_apartD [OF life_invD(3) [OF inv] j i(1) that(1)] that(2) i(2) False by auto
    then have "undisturbed s j \<and> lf_waiter s ! j = Waiting \<longrightarrow> tab (pid_of s j) = Some (lf_proc s ! j)"
      using c tab(2) by simp
    moreover have "ph_running (w_handles w' ! j) = ph_running (w_handles (lf_world s) ! j)" using False by (simp add: hs)
    moreover have "\<forall>p. tab p = Some (lf_proc s ! j) \<longrightarrow> p = pid_of s j \<and> lf_waiter s ! j = Waiting" using c tab(1) by blast
    ultimately show ?thesis using c False by (simp add: cmd_ok_def pid own)
  qed
  moreover have "tracked_apart ?t"
    unfolding tracked_apart_def
  proof (intro allI impI)
    fix a b
    assume "a < length (lf_waiter ?t)" "b < length (lf_waiter ?t)"
      "undisturbed ?t a \<and> lf_waiter ?t ! a \<noteq> Untracked \<and> lf_waiter ?t ! b \<noteq> Untracked \<and> pid_of ?t a = pid_of ?t b"
    then show "a = b"
      using i by - (rule tracked_apartD [OF life_invD(3) [OF inv]]; auto simp: pid nth_list_update split: if_splits)
  qed
  moreover have "signals_ok ?t" using life_invD(4) [OF inv] by (simp add: signals_ok_def pid)
  ultimately show ?thesis by (simp add: life_inv_def)
qed

lemma life_inv_reap:
  assumes inv: "life_inv s" and i: "i < length (lf_waiter s)" "lf_waiter s ! i = Waiting"
    and r: "reap_child K i (lf_world s) = (Inr st, w')"
  shows "life_inv (s\<lparr>lf_world := w', lf_tab := (lf_tab s)(pid_of s i := None), lf_waiter := (lf_waiter s)[i := Reaped]\<rparr>)"
  using life_invD(2) [OF inv i(1)] by (intro life_inv_waited [OF inv i r]) (auto simp: cmd_ok_def split: if_splits)

lemma life_inv_lost:
  assumes inv: "life_inv s" and i: "i < length (lf_waiter s)" "lf_waiter s ! i = Waiting"
    and r: "reap_child K i (lf_world s) = (Inr st, w')" and gone: "lf_tab s (pid_of s i) \<noteq> Some (lf_proc s ! i)"
  shows "life_inv (s\<lparr>lf_world := w', lf_waiter := (lf_waiter s)[i := Reaped]\<rparr>)"
proof -
  have "lf_tab s p \<noteq> Some (lf_proc s ! i)" for p
    using life_invD(2) [OF inv i(1)] gone by (auto simp: cmd_ok_def)
  then have "life_inv (s\<lparr>lf_world := w', lf_tab := lf_tab s, lf_waiter := (lf_waiter s)[i := Reaped]\<rparr>)"
    by (intro life_inv_waited [OF inv i r]) simp_all
  then show ?thesis by simp
qed

lemma life_inv_untrack:
  assumes inv: "life_inv s" and i: "i < length (lf_waiter s)" "lf_waiter s ! i = Reaped"
    and u: "untrack_owned (pid_of s i) (lf_world s) = (Inr x, w')"
  shows "life_inv (s\<lparr>lf_world := w', lf_waiter := (lf_waiter s)[i := Untracked]\<rparr>)" (is "life_inv ?t")
proof -
  from u have hs: "w_handles w' = w_handles (lf_world s)" and own: "w_owned w' = remove1 (pid_of s i) (w_owned (lf_world s))"
    by (auto simp: untrack_owned_def)
  note T = life_invD(1) [OF inv, unfolded tables_ok_def]
  have "tables_ok ?t" using T by (simp add: tables_ok_def hs own)
  moreover have "cmd_ok ?t j" if "j < length (lf_waiter ?t)" for j
  proof (cases "j = i")
    case True
    show ?thesis using life_invD(2) [OF inv i(1), unfolded cmd_ok_def] i unfolding True cmd_ok_def by (simp add: hs)
  next
    case False
    have j: "j < length (lf_waiter s)" using that by simp
    note c = life_invD(2) [OF inv j, unfolded cmd_ok_def]
    have "pid_of s j \<noteq> pid_of s i" if "undisturbed s j" "lf_waiter s ! j \<noteq> Untracked"
      using tracked_apartD [OF life_invD(3) [OF inv] j i(1) that] i(2) False by auto
    then have "undisturbed s j \<and> lf_waiter s ! j \<noteq> Untracked \<longrightarrow> pid_of s j \<in> set (w_owned w')"
      using c by (auto simp: own in_set_remove1)
    with c show ?thesis using False unfolding cmd_ok_def by (simp add: hs)
  qed
  moreover have "tracked_apart ?t"
    unfolding tracked_apart_def
  proof (intro allI impI)
    fix a b
    assume "a < length (lf_waiter ?t)" "b < length (lf_waiter ?t)"
      "undisturbed ?t a \<and> lf_waiter ?t ! a \<noteq> Untracked \<and> lf_waiter ?t ! b \<noteq> Untracked \<and> pid_of ?t a = pid_of ?t b"
    then show "a = b"
      using i by - (rule tracked_apartD [OF life_invD(3) [OF inv]]; auto simp: hs nth_list_update split: if_splits)
  qed
  moreover have "signals_ok ?t" using life_invD(4) [OF inv] by (simp add: signals_ok_def hs)
  ultimately show ?thesis by (simp add: life_inv_def)
qed

text \<open>A change that leaves the pids, the flags and the owned set alone, and the pids of own processes.\<close>

lemma life_inv_frame:
  assumes inv: "life_inv s" and len: "length (w_handles w') = length (w_handles (lf_world s))" and own: "w_owned w' = w_owned (lf_world s)"
    and h: "\<And>j. j < length (lf_waiter s) \<Longrightarrow> ph_pid (w_handles w' ! j) = pid_of s j \<and>
      ph_running (w_handles w' ! j) = ph_running (w_handles (lf_world s) ! j)"
    and tab: "\<And>p c. c \<in> set (lf_proc s) \<Longrightarrow> tab p = Some c \<longleftrightarrow> lf_tab s p = Some c"
    and n: "\<And>p c. tab p = Some c \<Longrightarrow> c < n" "lf_next s \<le> n"
  shows "life_inv (s\<lparr>lf_world := w', lf_tab := tab, lf_next := n\<rparr>)" (is "life_inv ?t")
proof -
  note T = life_invD(1) [OF inv, unfolded tables_ok_def]
  have "tables_ok ?t" using T len own n by (auto simp: tables_ok_def intro: less_le_trans)
  moreover have "cmd_ok ?t j" if "j < length (lf_waiter ?t)" for j
    using that life_invD(2) [OF inv, of j] h [of j] own tab [of "lf_proc s ! j"] T by (auto simp: cmd_ok_def)
  moreover have "tracked_apart ?t" using life_invD(3) [OF inv] h by (auto simp: tracked_apart_def)
  moreover have "signals_ok ?t" using life_invD(4) [OF inv] h T by (simp add: signals_ok_def)
  ultimately show ?thesis by (simp add: life_inv_def)
qed

lemma life_inv_orphan:
  assumes inv: "life_inv s" and r: "reaper_iter K (lf_world s) = (Inr (Some pid), w')"
  shows "life_inv (s\<lparr>lf_world := w', lf_tab := (lf_tab s)(pid := None)\<rparr>)" (is "life_inv ?t")
proof -
  from reaper_iter_Some [OF r] obtain u where w': "w' = (lf_world s)\<lparr>w_os := u\<rparr>" and p: "pid \<notin> set (w_owned (lf_world s))" by blast
  have "tables_ok ?t" using life_invD(1) [OF inv] by (simp add: tables_ok_def w')
  moreover have "cmd_ok ?t j" if "j < length (lf_waiter ?t)" for j
  proof -
    have c: "cmd_ok s j" using life_invD(2) [OF inv] that by simp
    then have "undisturbed s j \<Longrightarrow> lf_waiter s ! j = Waiting \<Longrightarrow> pid_of s j \<noteq> pid" using p by (auto simp: cmd_ok_def)
    with c show ?thesis by (simp add: cmd_ok_def w')
  qed
  moreover have "tracked_apart ?t" using life_invD(3) [OF inv] by (simp add: tracked_apart_def w')
  moreover have "signals_ok ?t" using life_invD(4) [OF inv] by (simp add: signals_ok_def w')
  ultimately show ?thesis by (simp add: life_inv_def)
qed

lemma life_inv_flag:
  assumes inv: "life_inv s" and i: "i < length (lf_waiter s)" 
    and w': "w' = (lf_world s)\<lparr>w_handles := (w_handles (lf_world s))[i := (w_handles (lf_world s) ! i)\<lparr>ph_timed_out := f\<rparr>], w_os := u\<rparr>"
  shows "life_inv (s\<lparr>lf_world := w', lf_tab := lf_tab s, lf_next := lf_next s\<rparr>)"
proof (rule life_inv_frame [OF inv])
  note T = life_invD(1) [OF inv, unfolded tables_ok_def]
  show "length (w_handles w') = length (w_handles (lf_world s))" by (simp add: w')
  show "w_owned w' = w_owned (lf_world s)" by (simp add: w')
  show "ph_pid (w_handles w' ! j) = pid_of s j \<and> ph_running (w_handles w' ! j) = ph_running (w_handles (lf_world s) ! j)" if "j < length (lf_waiter s)" for j
    by (cases "i = j"; cases "i < length (w_handles (lf_world s))") (simp_all add: w' list_update_beyond)
  show "c < lf_next s" if "lf_tab s p = Some c" for p c using T that by blast
qed simp_all

lemma signals_ok_sent:
  assumes inv: "life_inv s" and i: "i < length (lf_waiter s)"
    and sig: "set xs \<subseteq> (if ph_running (w_handles (lf_world s) ! i) then {pid_of s i} else {})"
  shows "signals_ok (s\<lparr>lf_signals := lf_signals s @ map (\<lambda>p. (i, lf_tab s p)) xs\<rparr>)"
proof -
  have held: "lf_tab s p = Some (lf_proc s ! i)" if p: "p \<in> set xs" and u: "undisturbed s i" for p
  proof -
    have "ph_running (w_handles (lf_world s) ! i) \<and> p = pid_of s i" using sig p by (auto split: if_splits)
    with life_invD(2) [OF inv i] u show ?thesis by (simp add: cmd_ok_def)
  qed
  have len: "length (lf_proc s) = length (lf_waiter s)" using life_invD(1) [OF inv] by (simp add: tables_ok_def)
  show ?thesis
    unfolding signals_ok_def
  proof (intro allI impI)
    fix k t
    assume "(k, t) \<in> set (lf_signals (s\<lparr>lf_signals := lf_signals s @ map (\<lambda>p. (i, lf_tab s p)) xs\<rparr>))"
    then consider (old) "(k, t) \<in> set (lf_signals s)" | (new) p where "k = i" "p \<in> set xs" "t = lf_tab s p" by auto
    then show "k < length (lf_proc (s\<lparr>lf_signals := lf_signals s @ map (\<lambda>p. (i, lf_tab s p)) xs\<rparr>)) \<and>
        (undisturbed (s\<lparr>lf_signals := lf_signals s @ map (\<lambda>p. (i, lf_tab s p)) xs\<rparr>) k \<longrightarrow>
          t = Some (lf_proc (s\<lparr>lf_signals := lf_signals s @ map (\<lambda>p. (i, lf_tab s p)) xs\<rparr>) ! k))"
      by cases (use life_invD(4) [OF inv] held i len in \<open>auto simp: signals_ok_def\<close>)
  qed
qed

lemma life_inv_kill:
  assumes inv: "life_inv s" and i: "i < length (lf_waiter s)" and k: "kill_tree K SIGKILL timeout i (lf_world s) = (Inr b, w')"
  shows "life_inv (s\<lparr>lf_world := w', lf_signals := lf_signals s @
       map (\<lambda>p. (i, lf_tab s p)) (signalled (new_calls (lf_world s) w'))\<rparr>)" (is "life_inv ?t")
proof -
  let ?h = "w_handles (lf_world s) ! i"
  obtain u f where w': "w' = (lf_world s)\<lparr>w_handles := (w_handles (lf_world s))[i := ?h\<lparr>ph_timed_out := f\<rparr>], w_os := u\<rparr>"
    and sig: "set (signalled (new_calls (lf_world s) w')) \<subseteq> (if ph_running ?h then {pid_of s i} else {})"
    using kill_tree_Inr [OF k] by (elim exE conjE)
  have pid: "ph_pid (w_handles w' ! j) = pid_of s j" for j
    by (cases "i = j"; cases "i < length (w_handles (lf_world s))") (simp_all add: w' list_update_beyond)
  note fl = life_inv_flag [OF inv i w']
  have "tables_ok ?t" using life_invD(1) [OF fl] by (simp add: tables_ok_def)
  moreover have "cmd_ok ?t j" if "j < length (lf_waiter ?t)" for j
    using life_invD(2) [OF fl, of j] that by (simp add: cmd_ok_def)
  moreover have "tracked_apart ?t" using life_invD(3) [OF fl] by (simp add: tracked_apart_def)
  moreover have "signals_ok ?t" using signals_ok_sent [OF inv i sig] by (simp add: signals_ok_def pid)
  ultimately show ?thesis by (simp add: life_inv_def)
qed

interpretation life: inductive_invariant life_init "life_step K" life_inv
proof unfold_locales
  fix s t :: "'a life"
  show "life_inv s" if "life_init s"
    using that by (auto simp: life_init_def life_inv_def tables_ok_def tracked_apart_def signals_ok_def)
  assume inv: "life_inv s" and "life_step K s t"
  from this(2) show "life_inv t"
  proof cases
    case (lf_spawn spec pid i w')
    show ?thesis unfolding lf_spawn(1) by (rule life_inv_spawn [OF inv lf_spawn(2,3)])
  next
    case (lf_reap i status w')
    with inv show ?thesis by (auto intro: life_inv_reap)
  next
    case (lf_lost i w')
    show ?thesis unfolding lf_lost(1) by (rule life_inv_lost [OF inv lf_lost(2,3,4,5)])
  next
    case (lf_untrack i u w')
    with inv show ?thesis by (auto intro: life_inv_untrack)
  next
    case (lf_kill i timeout b w')
    with life_inv_kill [OF inv lf_kill(2,3)] show ?thesis by simp
  next
    case (lf_orphan pid w')
    with inv show ?thesis by (auto intro: life_inv_orphan)
  next
    case (lf_other w' tab n)
    with inv show ?thesis by (auto intro!: life_inv_frame)
  qed
qed

text \<open>
  C12: a signal never reaches a stranger, and an exit status is never stolen. In every
  interleaving of spawns, waiters, kills, timeouts and the orphan reaper, and however the operating system reuses
  pids, each handle says \<open>running\<close> exactly until its waiter has collected its process. And every command whose pid
  was never handed out again before the server had untracked it is safe: each signal its handle sends to a
  pid or a process group found the pid held by the process the handle was made for, and until its waiter has collected
  it the process keeps its pid and is known as owned, so that the reaper leaves it alone. The exception is that
  window only, between \<open>child.wait()\<close> and \<open>untrack_owned\<close>, and only for commands with that pid.
\<close>

theorem signals_hit_own:
  assumes "reach life_init (life_step K) s"
  shows "(\<forall>i t. (i, t) \<in> set (lf_signals s) \<longrightarrow>
       ph_pid (w_handles (lf_world s) ! i) \<notin> set (lf_early s) \<longrightarrow> t = Some (lf_proc s ! i)) \<and>
    (\<forall>i. i < length (lf_waiter s) \<longrightarrow>
       (ph_running (w_handles (lf_world s) ! i) \<longleftrightarrow> lf_waiter s ! i = Waiting) \<and>
       (ph_pid (w_handles (lf_world s) ! i) \<notin> set (lf_early s) \<and> lf_waiter s ! i = Waiting \<longrightarrow>
          lf_tab s (ph_pid (w_handles (lf_world s) ! i)) = Some (lf_proc s ! i) \<and>
          ph_pid (w_handles (lf_world s) ! i) \<in> set (w_owned (lf_world s)) \<and>
          (\<forall>pid w'. reaper_iter K (lf_world s) = (Inr (Some pid), w') \<longrightarrow> pid \<noteq> ph_pid (w_handles (lf_world s) ! i))))"
  using life.reach_inv [OF assms] by (auto simp: life_inv_def signals_ok_def cmd_ok_def dest: reaper_iter_Some)

section \<open>Witnesses\<close>

definition life0 :: "nat life" where
  "life0 = \<lparr>lf_world = demo_world [] 2, lf_tab = (\<lambda>_. None), lf_next = 0, lf_proc = [], lf_waiter = [], lf_signals = [], lf_early = []\<rparr>"

definition life1 :: "nat life" where
  "life1 = \<lparr>lf_world = (demo_world [] 2)\<lparr>w_owned := [7], w_handles := [demo_handle]\<rparr>, lf_tab = (\<lambda>_. None)(7 \<mapsto> 0),
     lf_next = 1, lf_proc = [0], lf_waiter = [Waiting], lf_signals = [], lf_early = []\<rparr>"

lemma demo_world_empty: "w_owned (demo_world [] 2) = []" "w_handles (demo_world [] 2) = []"
  by (simp_all add: demo_world_def)

lemma life_start: "reach life_init (life_step demo_ex) life1"
proof -
  have "reach life_init (life_step demo_ex) life0"
    by (rule reach_init) (simp add: life_init_def life0_def demo_world_empty)
  moreover have "spawn demo_ex (demo_spec None) (lf_world life0) = (Inr (Inr (7, 0)), (demo_world [] 2)\<lparr>w_owned := [7], w_handles := [demo_handle]\<rparr>)"
    by (subst demo_spawn) (simp_all add: life0_def demo_world_empty)
  from lf_spawn [OF this] have "life_step demo_ex life0 life1"
    by (simp add: life0_def life1_def demo_world_empty)
  ultimately show ?thesis by (rule reach_step)
qed

definition group_killed :: "nat world \<Rightarrow> nat \<Rightarrow> nat world" where
  "group_killed w i = w\<lparr>w_os := (w_os w)\<lparr>log := log (w_os w) @ [(KillPid (- int (ph_pid (w_handles w ! i))) SIGKILL, None)]\<rparr>\<rparr>"

lemma demo_kill:
  assumes "ph_running (w_handles w ! i)" and "ph_pidfd (w_handles w ! i) \<noteq> None"
  shows "kill_tree demo_ex SIGKILL False i w = (Inr True, group_killed w i)"
    and "signalled (new_calls w (group_killed w i)) = [ph_pid (w_handles w ! i)]"
  using assms
  by (auto simp: kill_tree_def Let_def thenE_def bindE_def ignoreE_def on_os_def raw_os_def sys_kill_def sys_def signal_leader_def catchE_def
      returnE_def demo_ex_simps group_killed_def new_calls_def signalled_def)

theorem signals_hit_own_witness:
  "\<exists>s. reach life_init (life_step demo_ex) s \<and> lf_signals s = [(0, Some 0)] \<and> lf_early s = [] \<and>
     ph_running (w_handles (lf_world s) ! 0) \<and> lf_tab s (ph_pid (w_handles (lf_world s) ! 0)) = Some (lf_proc s ! 0)"
proof -
  let ?t = "life1\<lparr>lf_world := group_killed (lf_world life1) 0, lf_signals := [(0, Some 0)]\<rparr>"
  have h: "w_handles (lf_world life1) = [demo_handle]" by (simp add: life1_def)
  have "kill_tree demo_ex SIGKILL False 0 (lf_world life1) = (Inr True, group_killed (lf_world life1) 0)"
    "signalled (new_calls (lf_world life1) (group_killed (lf_world life1) 0)) = [7]"
    using demo_kill [of "lf_world life1" 0] by (simp_all add: h)
  then have "life_step demo_ex life1 ?t"
    using lf_kill [of 0 life1 demo_ex False True "group_killed (lf_world life1) 0"] by (simp add: life1_def)
  with life_start have r: "reach life_init (life_step demo_ex) ?t" by (rule reach_step)
  have "lf_early ?t = []" "0 < length (lf_waiter ?t)" "lf_waiter ?t ! 0 = Waiting" by (simp_all add: life1_def)
  with conjunct2 [OF signals_hit_own [OF r]] have "ph_running (w_handles (lf_world ?t) ! 0)"
    "lf_tab ?t (ph_pid (w_handles (lf_world ?t) ! 0)) = Some (lf_proc ?t ! 0)" by (metis empty_iff empty_set)+
  with r \<open>lf_early ?t = []\<close> show ?thesis by (intro exI [of _ ?t] conjI) simp_all
qed

section \<open>The window\<close>

text \<open>
  The second command gets the pid of the first between \<open>child.wait()\<close> and \<open>untrack_owned\<close>:
  \<open>race_world\<close> is the server with the given owned pids and the first handle no longer running.
\<close>

definition race_world :: "nat list \<Rightarrow> proc_handle list \<Rightarrow> nat world" where
  "race_world owned hs = (demo_world [] 2)\<lparr>w_owned := owned, w_handles := demo_handle\<lparr>ph_running := False\<rparr> # hs\<rparr>"

definition race :: "nat list \<Rightarrow> proc_handle list \<Rightarrow> nat option \<Rightarrow> nat list \<Rightarrow> waiter list \<Rightarrow> nat list \<Rightarrow> nat life" where
  "race owned hs holder procs waiters early = \<lparr>lf_world = race_world owned hs, lf_tab = (\<lambda>_. None)(7 := holder),
     lf_next = length procs, lf_proc = procs, lf_waiter = waiters, lf_signals = [], lf_early = early\<rparr>"

lemma race_reaped: "reach life_init (life_step demo_ex) (race [7] [] None [0] [Reaped] [])"
proof -
  have "reap_child demo_ex 0 (lf_world life1) = (Inr (Some (Some 0, None)), race_world [7] [])"
    by (simp add: reap_child_def bindE_def catchE_def on_os_def raw_os_def thenE_def set_handle_def returnE_def demo_ex_simps life1_def
        race_world_def)
  from reach_step [OF life_start lf_reap [OF _ _ this]] show ?thesis by (simp add: life1_def race_def)
qed

lemma race_reused: "reach life_init (life_step demo_ex) (race [7] [demo_handle] (Some 1) [0, 1] [Reaped, Waiting] [7])"
proof -
  let ?s = "race [7] [] None [0] [Reaped] []"
  have "spawn demo_ex (demo_spec None) (lf_world ?s) = (Inr (Inr (7, 1)), race_world [7] [demo_handle])"
    by (subst demo_spawn) (simp_all add: race_def race_world_def)
  from lf_spawn [OF this] have "life_step demo_ex ?s (race [7] [demo_handle] (Some 1) [0, 1] [Reaped, Waiting] [7])"
    by (simp add: race_def race_world_def)
  with race_reaped show ?thesis by (rule reach_step)
qed

lemma race_untracked: "reach life_init (life_step demo_ex) (race [] [demo_handle] (Some 1) [0, 1] [Untracked, Waiting] [7])"
proof -
  let ?s = "race [7] [demo_handle] (Some 1) [0, 1] [Reaped, Waiting] [7]"
  have "untrack_owned (pid_of ?s 0) (lf_world ?s) = (Inr (), race_world [] [demo_handle])"
    by (simp add: race_def race_world_def untrack_owned_def)
  from lf_untrack [OF _ _ this, of demo_ex]
  have "life_step demo_ex ?s (race [] [demo_handle] (Some 1) [0, 1] [Untracked, Waiting] [7])" by (simp add: race_def)
  with race_reused show ?thesis by (rule reach_step)
qed

lemma race_stolen: "reach life_init (life_step demo_ex) (race [] [demo_handle] None [0, 1] [Untracked, Waiting] [7])"
proof -
  let ?s = "race [] [demo_handle] (Some 1) [0, 1] [Untracked, Waiting] [7]"
  have "reaper_iter demo_ex (lf_world ?s) = (Inr (Some 7), race_world [] [demo_handle])"
    by (simp add: reaper_iter_def catchE_def on_os_def raw_os_def returnE_def demo_ex_simps race_def race_world_def)
  from lf_orphan [OF this]
  have "life_step demo_ex ?s (race [] [demo_handle] None [0, 1] [Untracked, Waiting] [7])" by (simp add: race_def)
  with race_untracked show ?thesis by (rule reach_step)
qed

text \<open>
  The window in which the guarantee rests on the operating system. \<open>wait_and_report\<close> takes the
  pid out of the owned set only after \<open>child.wait()\<close> has freed it. If a second command is given
  the same pid in between, its registration is taken away with the first one's: the orphan reaper
  collects the second command although its waiter still waits, and a signal sent through its handle
  then finds the pid held by nobody.
\<close>

theorem owned_pid_race:
  "\<exists>s. reach life_init (life_step demo_ex) s \<and> lf_waiter s ! 1 = Waiting \<and>
     ph_running (w_handles (lf_world s) ! 1) \<and> ph_pid (w_handles (lf_world s) ! 1) \<notin> set (w_owned (lf_world s)) \<and>
     (1, None) \<in> set (lf_signals s) \<and> ph_pid (w_handles (lf_world s) ! 1) \<in> set (lf_early s)"
proof -
  let ?s = "race [] [demo_handle] None [0, 1] [Untracked, Waiting] [7]"
  let ?t = "?s\<lparr>lf_world := group_killed (lf_world ?s) 1, lf_signals := [(1, None)]\<rparr>"
  have h: "w_handles (lf_world ?s) ! 1 = demo_handle" by (simp add: race_def race_world_def)
  have "kill_tree demo_ex SIGKILL False 1 (lf_world ?s) = (Inr True, group_killed (lf_world ?s) 1)"
    "signalled (new_calls (lf_world ?s) (group_killed (lf_world ?s) 1)) = [7]"
    using demo_kill [of "lf_world ?s" 1] by (simp_all only: h) simp_all
  then have "life_step demo_ex ?s ?t"
    using lf_kill [of 1 ?s demo_ex False True "group_killed (lf_world ?s) 1"] by (simp add: race_def)
  with race_stolen have "reach life_init (life_step demo_ex) ?t" by (rule reach_step)
  then show ?thesis by (intro exI [of _ ?t]) (simp add: race_def race_world_def group_killed_def)
qed

end
