(* ===== verification/Server.thy ===== *)
theory Server
  imports Proxy Exec_Life
begin

text \<open>
  \<open>src/main.rs\<close>: credentials, the route table and the connection loop, on top of every other component.

  A request runs against the server's state \<open>'w world\<close>. The file and proxy handlers need only the
  operating system; \<open>on_files\<close> runs them on the part of the state they use. What a handler
  finds outside during one request is gathered in \<open>run_env\<close>: the events of the command \<open>/exec\<close> starts,
  what the read buffer holds beyond the head and what a proxied backend answers, and the bound on the depth of a
  recursive delete.

  The lemmas of this theory show who may address what: the comparison of credentials is equality, a
  request without the right credential changes nothing, and each mode serves its own routes only.
\<close>

section \<open>Credentials\<close>

text \<open>The fold over the bytes; \<open>acc | (x ^ y)\<close> on \<open>u8\<close>.\<close>

definition ct_eq :: "string \<Rightarrow> string \<Rightarrow> bool" where
  "ct_eq a b =
     (if length a \<noteq> length b then False
      else foldl (\<lambda>acc (x, y). acc OR (of_char x XOR of_char y)) (0 :: 8 word) (zip a b) = 0)"

fun accepts :: "auth \<Rightarrow> string option \<Rightarrow> bool" where
  "accepts (Required expected) provided = (case provided of Some token \<Rightarrow> ct_eq token expected | None \<Rightarrow> False)"
| "accepts DisabledForDevelopment provided = True"

definition authorized :: "'w world \<Rightarrow> request \<Rightarrow> bool" where
  "authorized w q = accepts (w_auth w) (header q ''x-sandbox-token'')"

datatype scope = ScopeHost | ScopeSandbox

datatype route_auth = Management | SandboxRoute string | UnknownRoute

definition host_route_auth :: "string list \<Rightarrow> route_auth" where
  "host_route_auth segments =
     (case segments of
        v # s # rest \<Rightarrow>
          if v = ''v1'' \<and> s = ''sandboxes'' then
            (case rest of
               [] \<Rightarrow> Management
             | sid # tail \<Rightarrow> if tail = [''token''] then Management else SandboxRoute sid)
          else UnknownRoute
      | _ \<Rightarrow> UnknownRoute)"

definition classify_scoped_token :: "string \<Rightarrow> string \<Rightarrow> scope option" where
  "classify_scoped_token provided sandbox_token =
     (if ct_eq provided sandbox_token then Some ScopeSandbox else None)"

definition authorize :: "'w world \<Rightarrow> string option \<Rightarrow> string list \<Rightarrow> scope option" where
  "authorize w provided segments =
     (let host = if accepts (w_auth w) provided then Some ScopeHost else None in
      if \<not> w_host_mode w then host
      else (case host_route_auth segments of
          Management \<Rightarrow> host
        | SandboxRoute sid \<Rightarrow>
            (case reg_get (w_sandboxes w) sid of
               None \<Rightarrow> None
             | Some e \<Rightarrow> (case provided of None \<Rightarrow> None | Some token \<Rightarrow> classify_scoped_token token (e_token e)))
        | UnknownRoute \<Rightarrow> host))"

definition route_mode_allowed :: "bool \<Rightarrow> string list \<Rightarrow> bool" where
  "route_mode_allowed host_mode segments =
     (let host_scoped = prefix [''v1'', ''sandboxes''] segments in host_mode = host_scoped)"

section \<open>Health\<close>

definition VERSION :: string where "VERSION = ''0.7.0''"
definition PROTOCOL :: nat where "PROTOCOL = 3"

definition public_health :: json where
  "public_health = JObject [(''status'', JString ''ok''), (''protocol'', JNat PROTOCOL)]"

definition authenticated_health :: "('w, 'z) sb_kernel_scheme \<Rightarrow> ('w world, json) io" where
  "authenticated_health K =
     bindE (on_os (now_ms K)) (\<lambda>now. \<lambda>w. returnE (JObject [
       (''status'', JString ''ok''), (''protocol'', JNat PROTOCOL), (''version'', JString VERSION),
       (''uptime_ms'', JInt (sint (now - w_started_at_ms w))),
       (''sandboxes'', JNat (reg_count (w_sandboxes w))),
       (''mode'', JString (if w_host_mode w then ''host'' else ''dedicated'')),
       (''auth'', JString (case w_auth w of Required _ \<Rightarrow> ''required'' | DisabledForDevelopment \<Rightarrow> ''disabled'')),
       (''landlock'', JObject [(''abi'', JInt (k_abi K)), (''features'', JArray (map JString (features (k_abi K))))])]) w)"

section \<open>Routes\<close>

record run_env =
  n_rx :: "recv list"
  n_ahead :: nat
  n_down :: reader
  n_depth :: nat

definition on_files :: "('w osw conn, 'a) io \<Rightarrow> ('w world conn, 'a) io" where
  "on_files m c =
     (case m \<lparr>c_req = c_req c, c_rd = c_rd c, c_rw = c_rw c, c_os = w_os (c_os c)\<rparr> of
        (x, d) \<Rightarrow> (x, c\<lparr>c_req := c_req d, c_rd := c_rd d, c_rw := c_rw d, c_os := (c_os c)\<lparr>w_os := c_os d\<rparr>\<rparr>))"

text \<open>
  The recursion of a delete is bounded by the stack alone: \<open>n_depth\<close> frames fit, and a run that would
  need more is cut off without a response.
\<close>

definition delete_files :: "nat \<Rightarrow> codec \<Rightarrow> ('w, 'z) kernel_scheme \<Rightarrow> sandbox_entry option \<Rightarrow> ('w osw conn, unit) io" where
  "delete_files depth C K sandbox =
     bindE (handle_delete depth C K sandbox) (\<lambda>r. case r of
       Some _ \<Rightarrow> returnE ()
     | None \<Rightarrow> throwE (IoError OtherKind ''stack exhausted''))"

definition no_such_sandbox :: "codec \<Rightarrow> string \<Rightarrow> ('w world conn, unit) io" where
  "no_such_sandbox C sid = resp (rw_error C 404 (''no such sandbox: '' @ sid))"

definition with_sandbox ::
  "codec \<Rightarrow> string \<Rightarrow> (sandbox_entry \<Rightarrow> ('w world conn, unit) io) \<Rightarrow> ('w world conn, unit) io" where
  "with_sandbox C sid f c =
     (case reg_get (w_sandboxes (c_os c)) sid of
        Some e \<Rightarrow> f e c
      | None \<Rightarrow> no_such_sandbox C sid c)"

definition no_route :: "codec \<Rightarrow> ('w world conn, unit) io" where
  "no_route C c = resp (rw_error C 404 (''no route: '' @ rq_method (c_req c) @ '' '' @ rq_path (c_req c))) c"

text \<open>
  The arms of the \<open>match\<close> in \<open>route\<close>, grouped by what their patterns share: the dedicated ones, the
  pool ones and those below one sandbox. No two groups overlap, and within a group the order is the source's.
\<close>

definition dedicated_route ::
  "codec \<Rightarrow> ('w, 'z) px_kernel_scheme \<Rightarrow> run_env \<Rightarrow> string \<Rightarrow> string list \<Rightarrow> ('w world conn, unit) io" where
  "dedicated_route C K N meth segments =
     (if meth = ''POST'' \<and> segments = [''v1'', ''exec''] then handle_exec C K (n_rx N) None
      else if meth = ''POST'' \<and> segments = [''v1'', ''processes''] then handle_process_start C K None
      else if meth = ''GET'' \<and> segments = [''v1'', ''processes''] then
        (\<lambda>c. resp (rw_json C 200 (list_processes None (w_procs (c_os c)))) c)
      else if meth = ''DELETE'' \<and> length segments = 3 \<and> take 2 segments = [''v1'', ''processes''] then
        handle_process_delete C K (segments ! 2) None
      else if meth = ''GET'' \<and> segments = [''v1'', ''files'', ''read''] then on_files (handle_read C K None)
      else if meth = ''PUT'' \<and> segments = [''v1'', ''files'', ''write''] then on_files (handle_write C K None)
      else if meth = ''GET'' \<and> segments = [''v1'', ''files'', ''list''] then on_files (handle_list C K None)
      else if meth = ''GET'' \<and> segments = [''v1'', ''files'', ''stat''] then on_files (handle_stat C K None)
      else if meth = ''DELETE'' \<and> segments = [''v1'', ''files'', ''delete''] then on_files (delete_files (n_depth N) C K None)
      else if meth = ''POST'' \<and> segments = [''v1'', ''files'', ''mkdir''] then on_files (handle_mkdir C K None)
      else if prefix [''v1'', ''proxy''] segments then
        on_files (handle_proxy C K (n_ahead N) (n_down N) None (drop 2 segments))
      else no_route C)"

definition pool_route :: "codec \<Rightarrow> ('w, 'z) px_kernel_scheme \<Rightarrow> string \<Rightarrow> ('w world conn, unit) io" where
  "pool_route C K meth =
     (if meth = ''POST'' then handle_create C K
      else if meth = ''GET'' then (\<lambda>c. resp (rw_json C 200 (list_json (w_sandboxes (c_os c)))) c)
      else if meth = ''DELETE'' then handle_delete_all C K
      else no_route C)"

definition sandbox_route ::
  "codec \<Rightarrow> ('w, 'z) px_kernel_scheme \<Rightarrow> run_env \<Rightarrow> string \<Rightarrow> string \<Rightarrow> string list \<Rightarrow> ('w world conn, unit) io" where
  "sandbox_route C K N meth sid tail =
     (if meth = ''GET'' \<and> tail = [''token''] then with_sandbox C sid (\<lambda>e.
        resp (rw_json C 200 (JObject [(''id'', JString (e_id e)), (''token'', JString (e_token e))])))
      else if meth = ''DELETE'' \<and> tail = [] then handle_delete_sandbox C K sid
      else if meth = ''POST'' \<and> tail = [''exec''] then with_sandbox C sid (\<lambda>e. handle_exec C K (n_rx N) (Some e))
      else if meth = ''POST'' \<and> tail = [''processes''] then with_sandbox C sid (\<lambda>e. handle_process_start C K (Some e))
      else if meth = ''GET'' \<and> tail = [''processes''] then
        (\<lambda>c. resp (rw_json C 200 (list_processes (Some sid) (w_procs (c_os c)))) c)
      else if meth = ''DELETE'' \<and> length tail = 2 \<and> hd tail = ''processes'' then
        handle_process_delete C K (tail ! 1) (Some sid)
      else if meth = ''GET'' \<and> tail = [''files'', ''read''] then
        with_sandbox C sid (\<lambda>e. on_files (handle_read C K (Some e)))
      else if meth = ''PUT'' \<and> tail = [''files'', ''write''] then
        with_sandbox C sid (\<lambda>e. on_files (handle_write C K (Some e)))
      else if meth = ''GET'' \<and> tail = [''files'', ''list''] then
        with_sandbox C sid (\<lambda>e. on_files (handle_list C K (Some e)))
      else if meth = ''GET'' \<and> tail = [''files'', ''stat''] then
        with_sandbox C sid (\<lambda>e. on_files (handle_stat C K (Some e)))
      else if meth = ''DELETE'' \<and> tail = [''files'', ''delete''] then
        with_sandbox C sid (\<lambda>e. on_files (delete_files (n_depth N) C K (Some e)))
      else if meth = ''POST'' \<and> tail = [''files'', ''mkdir''] then
        with_sandbox C sid (\<lambda>e. on_files (handle_mkdir C K (Some e)))
      else if tail \<noteq> [] \<and> hd tail = ''proxy'' then
        with_sandbox C sid (\<lambda>e. on_files (handle_proxy C K (n_ahead N) (n_down N) (Some e) (tl tail)))
      else no_route C)"

definition dispatch ::
  "codec \<Rightarrow> ('w, 'z) px_kernel_scheme \<Rightarrow> run_env \<Rightarrow> string \<Rightarrow> string list \<Rightarrow> ('w world conn, unit) io" where
  "dispatch C K N meth segments =
     (if prefix [''v1'', ''sandboxes''] segments then
        (case drop 2 segments of
           [] \<Rightarrow> pool_route C K meth
         | sid # tail \<Rightarrow> sandbox_route C K N meth sid tail)
      else dedicated_route C K N meth segments)"

definition segments_of :: "string \<Rightarrow> string list" where
  "segments_of path = split_char (CHR ''/'') (trim_matches (\<lambda>c. c = CHR ''/'') path)"

definition touch_sandbox :: "('w, 'z) sb_kernel_scheme \<Rightarrow> string list \<Rightarrow> ('w world, unit) io" where
  "touch_sandbox K segments =
     (if prefix [''v1'', ''sandboxes''] segments \<and> 2 < length segments then touch K (segments ! 2) else returnE ())"

definition route :: "codec \<Rightarrow> ('w, 'z) px_kernel_scheme \<Rightarrow> run_env \<Rightarrow> ('w world conn, unit) io" where
  "route C K N c =
     (let q = c_req c; path = rq_path q; meth = rq_method q; w = c_os c; segments = segments_of path in
      if meth = ''GET'' \<and> path = ''/health'' then
        (if \<not> authorized w q then resp (rw_json C 200 public_health) c
         else bindE (os (authenticated_health K)) (\<lambda>j. resp (rw_json C 200 j)) c)
      else if authorize w (header q ''x-sandbox-token'') segments = None then
        resp (rw_error C 403 ''invalid or missing X-Sandbox-Token'') c
      else if header q ''transfer-encoding'' \<noteq> None then
        resp (rw_error C 411 ''chunked request bodies not supported; send Content-Length'') c
      else thenE (os (stamp_activity K))
        (if \<not> route_mode_allowed (w_host_mode w) segments then
           resp (rw_error C 404 (''no route in this server mode: '' @ meth @ '' '' @ path))
         else thenE (os (touch_sandbox K segments)) (dispatch C K N meth segments)) c)"

section \<open>Connections\<close>

text \<open>
  The loop over the requests of one connection. \<open>clock i\<close> is the clock during the head of the
  \<open>i\<close>-th request and \<open>N i\<close> what its handler finds outside; the fuel bounds the number of requests, and
  running out of it is \<open>None\<close>. Leaving the loop drops the \<open>BufWriter\<close>, which flushes it.
\<close>

definition status_of_error :: "io_error \<Rightarrow> nat" where
  "status_of_error e =
     (if kind e = InvalidData then 400
      else if kind e = TimedOut \<or> kind e = WouldBlock then 408
      else 0)"

definition close_writer :: "writer \<Rightarrow> writer" where
  "close_writer wr = snd (bw_flush wr)"

text \<open>One turn of the loop over a connection's requests: it ends the connection or leaves it ready for the next request.\<close>

datatype 'w served = Stop writer "'w world" | Next reader writer "'w world"

definition serve_one ::
  "codec \<Rightarrow> ('w, 'z) px_kernel_scheme \<Rightarrow> (nat \<Rightarrow> nat) \<Rightarrow> run_env \<Rightarrow> reader \<Rightarrow> writer \<Rightarrow> 'w world \<Rightarrow> 'w served" where
  "serve_one C K clock N r wr w =
     (case read_request clock r of
        (Inr None, r1) \<Rightarrow> Stop (close_writer wr) w
      | (Inl e, r1) \<Rightarrow>
          if status_of_error e \<noteq> 0
          then Stop (close_writer (rw_writer (snd (rw_error C (status_of_error e) (error_text K e) (rw_new wr False))))) w
          else Stop (close_writer wr) w
      | (Inr (Some q), r1) \<Rightarrow>
          (case route C K N \<lparr>c_req = q, c_rd = r1, c_rw = rw_new wr (rq_keep_alive q), c_os = w\<rparr> of
             (res, c1) \<Rightarrow>
               if hijacked (c_rw c1) then Stop (close_writer (rw_writer (c_rw c1))) (c_os c1)
               else (case thenE (liftR res) (resp rw_finish) c1 of
                   (Inl _, c2) \<Rightarrow> Stop (close_writer (rw_writer (c_rw c2))) (c_os c2)
                 | (Inr _, c2) \<Rightarrow>
                     (case drain_body c2 of
                        (Inl _, c3) \<Rightarrow> Stop (close_writer (rw_writer (c_rw c3))) (c_os c3)
                      | (Inr _, c3) \<Rightarrow>
                          if \<not> rq_keep_alive q then Stop (close_writer (rw_writer (c_rw c3))) (c_os c3)
                          else Next (c_rd c3) (rw_writer (c_rw c3)) (c_os c3)))))"

fun serve ::
  "nat \<Rightarrow> codec \<Rightarrow> ('w, 'z) px_kernel_scheme \<Rightarrow> (nat \<Rightarrow> nat \<Rightarrow> nat) \<Rightarrow> (nat \<Rightarrow> run_env) \<Rightarrow>
   nat \<Rightarrow> reader \<Rightarrow> writer \<Rightarrow> 'w world \<Rightarrow> (writer \<times> 'w world) option" where
  "serve 0 C K clock N i r wr w = None"
| "serve (Suc fuel) C K clock N i r wr w =
     (case serve_one C K (clock i) (N i) r wr w of
        Stop wr' w' \<Rightarrow> Some (wr', w')
      | Next r' wr' w' \<Rightarrow> serve fuel C K clock N (Suc i) r' wr' w')"

definition handle_connection ::
  "nat \<Rightarrow> codec \<Rightarrow> ('w, 'z) px_kernel_scheme \<Rightarrow> (nat \<Rightarrow> nat \<Rightarrow> nat) \<Rightarrow> (nat \<Rightarrow> run_env) \<Rightarrow>
   reader \<Rightarrow> writer \<Rightarrow> 'w world \<Rightarrow> (writer \<times> 'w world) option" where
  "handle_connection fuel C K clock N r wr w =
     (case on_os (raw_os (k_clone_client K)) w of
        (Inl _, w1) \<Rightarrow> Some (wr, w1)
      | (Inr _, w1) \<Rightarrow> serve fuel C K clock N 0 r wr w1)"

section \<open>Who may address what\<close>

lemma of_char_word_inj: "(of_char x :: 8 word) = of_char y \<longleftrightarrow> x = y"
proof
  assume "(of_char x :: 8 word) = of_char y"
  then have "unat (of_nat (of_char x) :: 8 word) = unat (of_nat (of_char y) :: 8 word)" by (simp only: of_nat_of_char)
  moreover have "unat (of_nat (of_char z) :: 8 word) = of_char z" for z
    by (simp add: unat_of_nat mod_less)
  ultimately have "(of_char x :: nat) = of_char y" by metis
  then show "x = y" by simp
qed simp

lemma or_eq_0_word: "(a OR b :: 8 word) = 0 \<longleftrightarrow> a = 0 \<and> b = 0"
  by (metis or.left_neutral or.right_idem or_eq_0_iff)

lemma xor_eq_0_word: "(a XOR b :: 8 word) = 0 \<longleftrightarrow> a = b"
  by (metis xor_self_eq xor.assoc xor.left_neutral xor.right_neutral)

lemma ct_fold:
  "length a = length b \<Longrightarrow>
   foldl (\<lambda>acc (x, y). acc OR (of_char x XOR of_char y)) acc (zip a b) = (0 :: 8 word) \<longleftrightarrow> acc = 0 \<and> a = b"
  by (induction a b arbitrary: acc rule: list_induct2)
     (auto simp: or_eq_0_word xor_eq_0_word of_char_word_inj)

text \<open>
  C39: the constant-time comparison is equality. Over all byte strings the fold that never stops
  early gives the same answer as comparing the strings.
\<close>

theorem ct_eq_equality: "ct_eq a b \<longleftrightarrow> a = b"
  using ct_fold [of a b 0] by (auto simp: ct_eq_def)


lemma accepts_iff: "accepts a provided \<longleftrightarrow> a = DisabledForDevelopment \<or> (\<exists>t. a = Required t \<and> provided = Some t)"
  by (cases a; cases provided) (auto simp: ct_eq_def ct_fold [of _ _ 0])

lemma authorize_iff:
  "authorize w provided segments \<noteq> None \<longleftrightarrow>
     (case (w_host_mode w, host_route_auth segments) of
        (True, SandboxRoute sid) \<Rightarrow> \<exists>e. reg_get (w_sandboxes w) sid = Some e \<and> provided = Some (e_token e)
      | _ \<Rightarrow> w_auth w = DisabledForDevelopment \<or> (\<exists>t. w_auth w = Required t \<and> provided = Some t))"
  by (cases "host_route_auth segments"; cases provided)
     (auto simp: authorize_def Let_def accepts_iff classify_scoped_token_def ct_eq_def ct_fold [of _ _ 0] split: option.split)

abbreviation is_health :: "request \<Rightarrow> bool" where
  "is_health q \<equiv> rq_method q = ''GET'' \<and> rq_path q = ''/health''"

lemma route_guarded:
  assumes "\<not> is_health (c_req c)"
  shows "route C K N c =
     (let q = c_req c; segments = segments_of (rq_path q) in
      if authorize (c_os c) (header q ''x-sandbox-token'') segments = None then
        resp (rw_error C 403 ''invalid or missing X-Sandbox-Token'') c
      else if header q ''transfer-encoding'' \<noteq> None then
        resp (rw_error C 411 ''chunked request bodies not supported; send Content-Length'') c
      else thenE (os (stamp_activity K))
        (if \<not> route_mode_allowed (w_host_mode (c_os c)) segments then
           resp (rw_error C 404 (''no route in this server mode: '' @ rq_method q @ '' '' @ rq_path q))
         else thenE (os (touch_sandbox K segments)) (dispatch C K N (rq_method q) segments)) c)"
  unfolding route_def Let_def using assms by (simp only: if_False)

text \<open>Requests to one sandbox, apart from the recovery of its token.\<close>

definition scoped_to :: "string \<Rightarrow> string list \<Rightarrow> bool" where
  "scoped_to sid segments \<longleftrightarrow> host_route_auth segments = SandboxRoute sid"

lemma scoped_to_iff:
  "scoped_to sid segments \<longleftrightarrow> (\<exists>tail. segments = [''v1'', ''sandboxes'', sid] @ tail \<and> tail \<noteq> [''token''])"
  by (auto simp: scoped_to_def host_route_auth_def split: list.splits if_splits)

text \<open>
  C2: a request without its credential is refused and changes nothing. In host mode a request to a
  sandbox is answered with 403 unless it presents the token of that very sandbox, so the host's token, another
  sandbox's token and none at all are all refused; every other request but \<open>GET /health\<close> is answered
  with 403 unless it presents the host's token. The refusal touches neither the server's state, nor
  the operating system, nor the rest of the connection.
\<close>

theorem route_refuses:
  assumes "\<not> is_health (c_req c)"
    and "if w_host_mode (c_os c) \<and> scoped_to sid (segments_of (rq_path (c_req c)))
         then \<forall>e. reg_get (w_sandboxes (c_os c)) sid = Some e \<longrightarrow> header (c_req c) ''x-sandbox-token'' \<noteq> Some (e_token e)
         else (\<forall>s. w_host_mode (c_os c) \<longrightarrow> \<not> scoped_to s (segments_of (rq_path (c_req c)))) \<and>
           (\<exists>t. w_auth (c_os c) = Required t \<and> header (c_req c) ''x-sandbox-token'' \<noteq> Some t)"
  shows "route C K N c = resp (rw_error C 403 ''invalid or missing X-Sandbox-Token'') c"
proof -
  have "authorize (c_os c) (header (c_req c) ''x-sandbox-token'') (segments_of (rq_path (c_req c))) = None"
    using assms(2) authorize_iff [of "c_os c" "header (c_req c) ''x-sandbox-token''" "segments_of (rq_path (c_req c))"]
    by (auto simp: scoped_to_def split: route_auth.splits if_splits bool.splits)
  then show ?thesis by (simp add: route_guarded [OF assms(1)] Let_def)
qed

text \<open>What a request that reaches no handler may change: the clock was read and the activity stamped.\<close>

definition only_stamped :: "'w world \<Rightarrow> 'w world \<Rightarrow> bool" where
  "only_stamped w w' \<longleftrightarrow>
     (\<exists>k t. w' = w \<or> w' = w\<lparr>w_os := (w_os w)\<lparr>kst := k\<rparr>, w_last_activity_ms := t\<rparr>)"

lemma stamp_run: "\<exists>k t. stamp_activity K w = (Inr (), w\<lparr>w_os := (w_os w)\<lparr>kst := k\<rparr>, w_last_activity_ms := t\<rparr>)"
  by (cases "k_now_ms K (kst (w_os w))")
     (auto simp: stamp_activity_def bindE_def on_os_def now_ms_def split: prod.split)

lemma resp_frame: "resp m c = (r, c') \<Longrightarrow> c_os c' = c_os c \<and> c_rd c' = c_rd c \<and> c_req c' = c_req c"
  by (auto simp: resp_def split: prod.splits)

text \<open>
  C8: the two surfaces are mutually exclusive. A request for a route of the other mode (in host mode one
  outside \<open>/v1/sandboxes\<close>, where a handler would run as root and unconfined; in dedicated mode one below it) reaches no
  handler whatever credential it carries: it starts no process, makes no file-system call, leaves both registries and
  the body of the request as they were, and is not taken over by the proxy.
\<close>

theorem mode_gate:
  assumes "\<not> is_health (c_req c)"
    and "w_host_mode (c_os c) \<noteq> prefix [''v1'', ''sandboxes''] (segments_of (rq_path (c_req c)))"
    and "route C K N c = (r, c')"
  shows "only_stamped (c_os c) (c_os c') \<and> c_rd c' = c_rd c \<and> c_req c' = c_req c \<and>
    (\<exists>status message. status \<in> {403, 404, 411} \<and> r = fst (rw_error C status message (c_rw c)) \<and>
       c_rw c' = snd (rw_error C status message (c_rw c)))"
proof -
  obtain k t where st: "stamp_activity K (c_os c) = (Inr (), (c_os c)\<lparr>w_os := (w_os (c_os c))\<lparr>kst := k\<rparr>, w_last_activity_ms := t\<rparr>)"
    using stamp_run [of K "c_os c"] by blast
  let ?c = "c\<lparr>c_os := (c_os c)\<lparr>w_os := (w_os (c_os c))\<lparr>kst := k\<rparr>, w_last_activity_ms := t\<rparr>\<rparr>"
  have 1: ?thesis if "route C K N c = resp (rw_error C status message) d"
      "d = c \<or> d = ?c" "status \<in> {403, 404, 411}" for status message d
  proof -
    obtain x rw where x: "rw_error C status message (c_rw d) = (x, rw)" by (cases "rw_error C status message (c_rw d)")
    with that(1) assms(3) have "r = x" "c' = d\<lparr>c_rw := rw\<rparr>" by (simp_all add: resp_def)
    moreover have "only_stamped (c_os c) (c_os ?c)" unfolding only_stamped_def by (intro exI [of _ k] exI [of _ t]) simp
    moreover have "only_stamped (c_os c) (c_os c)" by (simp add: only_stamped_def)
    moreover from that(2) have "c_rw d = c_rw c" "c_rd d = c_rd c" "c_req d = c_req c" "c_os d \<in> {c_os c, c_os ?c}" by auto
    ultimately show ?thesis using x that(3) by (intro conjI exI [of _ status] exI [of _ message]) auto
  qed
  have "\<not> route_mode_allowed (w_host_mode (c_os c)) (segments_of (rq_path (c_req c)))"
    using assms(2) by (simp add: route_mode_allowed_def)
  moreover have "thenE (os (stamp_activity K)) m c = m ?c" for m :: "('a world conn, unit) io"
    using st by (simp add: thenE_def bindE_def os_def)
  ultimately have eq: "route C K N c =
      (if authorize (c_os c) (header (c_req c) ''x-sandbox-token'') (segments_of (rq_path (c_req c))) = None
       then resp (rw_error C 403 ''invalid or missing X-Sandbox-Token'') c
       else if header (c_req c) ''transfer-encoding'' \<noteq> None
       then resp (rw_error C 411 ''chunked request bodies not supported; send Content-Length'') c
       else resp (rw_error C 404 (''no route in this server mode: '' @ rq_method (c_req c) @ '' '' @ rq_path (c_req c))) ?c)"
    unfolding route_guarded [OF assms(1), of C K N] Let_def by (simp only: not_False_eq_True if_True)
  show ?thesis
    using eq by (cases "authorize (c_os c) (header (c_req c) ''x-sandbox-token'') (segments_of (rq_path (c_req c))) = None";
        cases "header (c_req c) ''transfer-encoding'' = None"; simp only: if_True if_False simp_thms)
       (erule 1; simp)+
qed

lemma rw_fixed_flags:
  assumes "rw_fixed status ct body rw = (Inr u, rw')"
  shows "chunked rw' = chunked rw \<and> hijacked rw' = hijacked rw"
  using assms
  by (auto simp: rw_fixed_def thenE_def bindE_Inr same_flags_def dest!: on_writer_write on_writer_flush write_head_out)

lemma serve_one_Next:
  assumes "serve_one C K clock N r wr w = Next r' wr' w'"
  obtains q r1 c1 c2 c3 where "read_request clock r = (Inr (Some q), r1)"
    and "route C K N \<lparr>c_req = q, c_rd = r1, c_rw = rw_new wr (rq_keep_alive q), c_os = w\<rparr> = (Inr (), c1)"
    and "\<not> hijacked (c_rw c1)" and "resp rw_finish c1 = (Inr (), c2)" and "drain_body c2 = (Inr (), c3)"
    and "r' = c_rd c3" and "wr' = rw_writer (c_rw c3)" and "w' = c_os c3"
  using assms
  by (auto simp: serve_one_def thenE_def bindE_def liftR_def split: prod.splits sum.splits option.splits if_splits)

text \<open>
  A chunked request desynchronises a keep-alive connection. A request that declares
  \<open>Transfer-Encoding\<close> and is authorised is answered with 411, no byte of its body is read by the route or by the
  draining after it, and the connection goes on: the bytes of the body are the next head.
\<close>

theorem chunked_body_left:
  assumes "\<not> is_health q"
    and "authorize w (header q ''x-sandbox-token'') (segments_of (rq_path q)) \<noteq> None"
    and "header q ''transfer-encoding'' \<noteq> None" and "request_wf q" and "rq_keep_alive q" and "room wr = None"
    and "read_request clock r = (Inr (Some q), r1)"
  shows "\<exists>wr'. serve_one C K clock N r wr w = Next r1 wr' w"
proof -
  let ?c = "\<lparr>c_req = q, c_rd = r1, c_rw = rw_new wr True, c_os = w\<rparr>"
  let ?m = "rw_error C 411 ''chunked request bodies not supported; send Content-Length''"
  have route: "route C K N ?c = resp ?m ?c"
    using route_guarded [of ?c C K N] assms(1-3) by (simp add: Let_def)
  obtain rw where rw: "?m (rw_new wr True) = (Inr (), rw)"
    using succeedsD [OF succeeds_rw(3), of "rw_new wr True"] assms(6) by (fastforce simp: rw_new_def)
  have fl: "\<not> hijacked rw" "\<not> chunked rw"
    using rw_fixed_flags [OF rw [unfolded rw_error_def rw_json_def]] by (auto simp: rw_new_def)
  have te: "to_ascii_lowercase ''transfer-encoding'' = ''transfer-encoding''" by (simp add: str_eval)
  have len: "content_length q - body_consumed q = 0"
    using assms(3,4) te by (auto simp: request_wf_def length_wf_def header_def hm_contains_key_def split: option.splits)
  show ?thesis
    using assms(5,7) route rw fl len
    by (auto simp: serve_one_def resp_def thenE_def bindE_def liftR_def rw_finish_def drain_body_def Let_def)
qed

text \<open>Trailing slashes do not reach the routes, and so not the path a proxied server is asked for.\<close>

lemma segments_trailing_slash: "segments_of (path @ ''/'') = segments_of path"
proof (cases "\<forall>x\<in>set path. x = CHR ''/''")
  case True
  then have e: "dropWhile (\<lambda>c. c = CHR ''/'') path = []" by (simp add: dropWhile_eq_Nil_conv)
  with True show ?thesis by (simp add: segments_of_def trim_matches_def dropWhile_append e)
qed (auto simp: segments_of_def trim_matches_def dropWhile_append)

section \<open>Witnesses\<close>

definition demo_env :: run_env where
  "demo_env = \<lparr>n_rx = [], n_ahead = 0, n_down = [], n_depth = 4\<rparr>"

definition demo_request :: "string \<Rightarrow> string \<Rightarrow> (string \<times> string) list \<Rightarrow> nat world \<Rightarrow> nat world conn" where
  "demo_request meth path hs w =
     \<lparr>c_req = \<lparr>rq_method = meth, rq_path = path, params = [], raw_query = [], headers = hs, content_length = 0,
        body_consumed = 0, rq_keep_alive = True\<rparr>,
      c_rd = [], c_rw = rw_new open_writer True, c_os = w\<rparr>"

definition demo_host :: "nat world" where
  "demo_host = (demo_world [demo_sandbox] 2)\<lparr>w_auth := Required ''host''\<rparr>"

lemma demo_segments:
  "segments_of ''/v1/sandboxes/ab/exec'' = [''v1'', ''sandboxes'', ''ab'', ''exec'']"
  "segments_of ''/v1/exec'' = [''v1'', ''exec'']"
  by (simp_all add: segments_of_def trim_matches_def)

lemma demo_host_simps:
  "w_host_mode demo_host" "w_auth demo_host = Required ''host''" "reg_get (w_sandboxes demo_host) ''ab'' = Some demo_sandbox"
  by (simp_all add: demo_host_def demo_world_def demo_reg_def reg_get_def hm_get_def)

theorem route_refuses_witness:
  "route demo_codec demo_px demo_env (demo_request ''POST'' ''/v1/sandboxes/ab/exec'' [(''x-sandbox-token'', ''host'')] demo_host) =
     resp (rw_error demo_codec 403 ''invalid or missing X-Sandbox-Token'')
       (demo_request ''POST'' ''/v1/sandboxes/ab/exec'' [(''x-sandbox-token'', ''host'')] demo_host)"
proof -
  let ?c = "demo_request ''POST'' ''/v1/sandboxes/ab/exec'' [(''x-sandbox-token'', ''host'')] demo_host"
  have "scoped_to ''ab'' (segments_of (rq_path (c_req ?c)))"
    by (simp add: scoped_to_def host_route_auth_def demo_request_def demo_segments)
  moreover have "header (c_req ?c) ''x-sandbox-token'' = Some ''host''"
    by (simp add: demo_request_def header_def hm_get_def str_eval)
  ultimately show ?thesis
    using route_refuses [of ?c "''ab''" demo_codec demo_px demo_env] demo_host_simps by (simp add: demo_request_def)
qed

theorem mode_gate_witness:
  "\<exists>r c'. route demo_codec demo_px demo_env (demo_request ''POST'' ''/v1/exec'' [(''x-sandbox-token'', ''host'')] demo_host) = (r, c') \<and>
     only_stamped demo_host (c_os c')"
proof -
  let ?c = "demo_request ''POST'' ''/v1/exec'' [(''x-sandbox-token'', ''host'')] demo_host"
  obtain r c' where r: "route demo_codec demo_px demo_env ?c = (r, c')" by fastforce
  moreover have "w_host_mode (c_os ?c) \<noteq> prefix [''v1'', ''sandboxes''] (segments_of (rq_path (c_req ?c)))" "\<not> is_health (c_req ?c)"
    by (simp_all add: demo_request_def demo_segments demo_host_simps)
  ultimately have "only_stamped (c_os ?c) (c_os c')" using mode_gate [of ?c demo_codec demo_px demo_env r c'] by blast
  with r show ?thesis by (simp add: demo_request_def)
qed

text \<open>A chunked request whose body is a request of its own.\<close>

abbreviation smuggled :: string where
  "smuggled \<equiv> ''GET /health HTTP/1.1'' @ CRLF @ CRLF"

theorem chunked_body_left_witness:
  "\<exists>r1 wr. rd_bytes r1 = smuggled \<and>
     serve_one demo_codec demo_px (\<lambda>_. 7) demo_env
       [Chunk (''POST /v1/exec HTTP/1.1'' @ CRLF @ ''X-Sandbox-Token: host'' @ CRLF @ ''Transfer-Encoding: chunked'' @ CRLF @ CRLF @ smuggled)]
       open_writer demo_host = Next r1 wr demo_host"
proof -
  let ?h = "''POST /v1/exec HTTP/1.1'' @ CRLF @ ''X-Sandbox-Token: host'' @ CRLF @ ''Transfer-Encoding: chunked'' @ CRLF @ CRLF"
  let ?q = "\<lparr>rq_method = ''POST'', rq_path = ''/v1/exec'', params = [], raw_query = [],
     headers = [(''x-sandbox-token'', ''host''), (''transfer-encoding'', ''chunked'')], content_length = 0, body_consumed = 0,
     rq_keep_alive = True\<rparr>"
  have q: "parse_head ?h = Inr ?q" by (simp add: http_eval hm_insert_def hm_get_def Let_def)
  have "is_head ?h" by (simp add: is_head_code ends_blank_def str_eval)
  moreover have "rd_bytes [Chunk (?h @ smuggled)] = ?h @ smuggled" by simp
  moreover have "rd_clean [Chunk (?h @ smuggled)]" "length ?h \<le> MAX_HEADER_BYTES"
    by (simp_all add: MAX_HEADER_BYTES_def CRLF_def)
  ultimately obtain r1 where r1: "read_request (\<lambda>_. 7) [Chunk (?h @ smuggled)] = (Inr (Some ?q), r1)" "rd_bytes r1 = smuggled"
    using read_request_finds [of "[Chunk (?h @ smuggled)]" ?h smuggled "\<lambda>_. 7"] q by auto
  have "authorize demo_host (header ?q ''x-sandbox-token'') (segments_of (rq_path ?q)) \<noteq> None"
    unfolding authorize_iff by (simp add: demo_segments host_route_auth_def demo_host_simps header_def hm_get_def str_eval)
  moreover have "header ?q ''transfer-encoding'' \<noteq> None" by (simp add: header_def hm_get_def str_eval)
  moreover have "room open_writer = None" by (simp add: open_writer_def)
  ultimately obtain wr where "serve_one demo_codec demo_px (\<lambda>_. 7) demo_env [Chunk (?h @ smuggled)] open_writer demo_host = Next r1 wr demo_host"
    using chunked_body_left [of ?q demo_host open_writer "\<lambda>_. 7" "[Chunk (?h @ smuggled)]" r1 demo_codec demo_px demo_env]
      r1(1) parse_head_request_wf [OF q] by auto
  then show ?thesis using r1(2) by (simp only: append_assoc) blast
qed

end
