(* ===== verification/Frames.thy ===== *)
theory Frames
  imports Server
begin

text \<open>
  Handlers as frames: what holds of every handler for the same reason is proved once, for any relation between the connection before
  and after that is reflexive, transitive and allows a few elementary changes. \<open>files_frame\<close> is the interface for the
  handlers of \<open>src/files.rs\<close>, \<open>conn_base\<close> for what touches only the response and the server's state, and \<open>conn_frame\<close>
  extends it to everything that reads from the connection.
\<close>

section \<open>The rest of the server's state\<close>

text \<open>The processes of one owner that still run, and the state of everyone who is not \<open>mine\<close>.\<close>

definition running_of :: "string option \<Rightarrow> proc_registry \<Rightarrow> proc list" where
  "running_of owner g = filter (\<lambda>p. pr_sandbox_id p = owner \<and> \<not> finished p) (pg_procs g)"

definition others_same :: "(string option \<Rightarrow> bool) \<Rightarrow> 'w world \<Rightarrow> 'w world \<Rightarrow> bool" where
  "others_same mine w w' \<longleftrightarrow>
     (\<forall>owner. \<not> mine owner \<longrightarrow> running_of owner (w_procs w') = running_of owner (w_procs w)) \<and>
     (\<forall>sid. \<not> mine (Some sid) \<longrightarrow> reg_get (w_sandboxes w') sid = reg_get (w_sandboxes w) sid)"

interpretation oth: frame_relation "others_same mine"
  by unfold_locales (simp_all add: others_same_def)

lemma keepsD: "keeps R m \<Longrightarrow> R s (snd (m s))"
  by (simp add: keeps_def)

lemma others_on_os: "keeps (others_same mine) (on_os m)"
  by (simp add: keeps_def others_same_def on_os_def split: prod.split)

lemma others_procs:
  "(\<And>g owner. \<not> mine owner \<Longrightarrow> running_of owner (snd (f g)) = running_of owner g) \<Longrightarrow> keeps (others_same mine) (on_procs f)"
  by (auto simp: keeps_def others_same_def on_procs_def split: prod.split) (metis snd_conv)

lemma others_reg:
  "(\<And>g sid. \<not> mine (Some sid) \<Longrightarrow> reg_get (snd (f g)) sid = reg_get g sid) \<Longrightarrow> keeps (others_same mine) (on_reg f)"
  by (auto simp: keeps_def others_same_def on_reg_def split: prod.split) (metis snd_conv)

lemmas others_intros = oth.keeps_intros others_on_os

lemma running_insert:
  assumes "\<not> mine owner" "mine (pr_sandbox_id p)"
  shows "running_of owner (proc_insert p g) = running_of owner g"
proof -
  have run: "running_of owner h = filter (\<lambda>q. pr_sandbox_id q = owner) (filter (\<lambda>q. \<not> finished q) (pg_procs h))" for h
    by (auto simp: running_of_def intro!: filter_cong)
  have "filter (\<lambda>q. \<not> finished q) (pg_procs (proc_insert p g)) = filter (\<lambda>q. \<not> finished q) (pg_procs g @ [p])"
    by (simp only: proc_insert_eq drop_first_filter)
  with assms show ?thesis unfolding run by (auto simp: filter_empty_conv)
qed

lemma running_remove_first:
  "(\<And>p. P p \<Longrightarrow> \<not> Q p) \<Longrightarrow> filter Q (snd (remove_first P ps)) = filter Q ps"
  by (induction P ps rule: remove_first.induct) (auto split: prod.split)

lemma others_spawn: "keeps (others_same mine) (spawn K spec)"
proof -
  have e: "spawn K spec = (\<lambda>w. if (case sp_sandbox spec of Some sbx \<Rightarrow> e_id sbx \<in> set (rg_deleted (w_sandboxes w)) | None \<Rightarrow> False)
      then (Inr (Inl ''sandbox has been deleted''), w)
      else catchE (on_os (raw_os (k_spawn K (command_of spec))))
        (\<lambda>pid. thenE (\<lambda>w. (Inr (), w\<lparr>w_owned := List.insert pid (w_owned w)\<rparr>))
          (bindE (on_os (handle_open K pid)) (\<lambda>h. \<lambda>w.
             (Inr (Inr (pid, length (w_handles w))), w\<lparr>w_handles := w_handles w @ [h]\<rparr>))))
        (\<lambda>e. returnE (Inl (''failed to spawn '' @ squote (hd (sp_argv spec)) @ '': '' @ error_text K e))) w)"
    by (rule ext) (simp only: spawn_def)
  show ?thesis unfolding e
    by (intro oth.keeps_if_state oth.keeps_update others_intros) (simp_all add: others_same_def)
qed

lemma others_start_background:
  assumes "mine (map_option e_id (sp_sandbox spec))"
  shows "keeps (others_same mine) (start_background K spec)"
proof -
  have alloc: "keeps (others_same mine) (on_procs alloc_id)"
    by (intro others_procs) (simp add: alloc_id_def running_of_def)
  have ins: "keeps (others_same mine) (on_procs (\<lambda>g. ((), proc_insert p g)))" if "mine (pr_sandbox_id p)" for p
    using that by (intro others_procs) (simp add: running_insert)
  show ?thesis
    unfolding start_background_def Let_def using assms
    by (intro others_intros others_spawn) (auto split: sum.split intro!: others_intros alloc ins)
qed

lemma others_kill_tree: "keeps (others_same mine) (kill_tree K signal False i)"
proof -
  have "keeps (others_same mine) (\<lambda>w. if \<not> ph_running (w_handles w ! i) then (Inr False, w)
      else thenE (returnE ()) (thenE (ignoreE (on_os (sys_kill K (- int (ph_pid (w_handles w ! i))) signal)))
             (on_os (signal_leader K signal (w_handles w ! i)))) w)"
    by (auto simp: keeps_def thenE_def bindE_def returnE_def ignoreE_def others_same_def on_os_def split: prod.split)
  then show ?thesis by (simp add: kill_tree_def [abs_def] Let_def)
qed

lemma others_stamp: "keeps (others_same mine) (stamp_activity K)"
  unfolding stamp_activity_def by (intro others_intros oth.keeps_update) (simp add: others_same_def)

lemma others_delete:
  assumes "mine (Some sid)"
  shows "keeps (others_same mine) (reg_delete K sid)"
proof -
  have rm: "keeps (others_same mine) (on_reg (remove_entry sid))"
    using assms by (intro others_reg) (auto simp: remove_entry_def reg_get_def hm.get_remove)
  have field: "keeps (others_same mine) (on_reg f)" if "f \<in> {mark_deleted e, unreserve, quarantine_uid u, release_uid u}" for f e u
    using that by (intro others_reg) (auto simp: mark_deleted_def unreserve_def quarantine_uid_def release_uid_def reg_get_def)
  show ?thesis
    unfolding reg_delete_def try_os_def
    by (intro others_intros rm) (auto intro!: others_intros field split: option.split)
qed

lemma others_touch:
  assumes "mine (Some sid)"
  shows "keeps (others_same mine) (touch K sid)"
proof -
  have "keeps (others_same mine) (on_reg (\<lambda>g. ((), g\<lparr>rg_map := hm_insert sid e (rg_map g)\<rparr>)))" for e
    using assms by (intro others_reg) (auto simp: reg_get_def hm.get_insert)
  then have "keeps (others_same mine) (bindE (on_os (now_ms K)) (\<lambda>t. on_reg (\<lambda>g. ((), g\<lparr>rg_map := hm_insert sid (f t) (rg_map g)\<rparr>))))" for f
    by (intro others_intros)
  then show ?thesis by (auto simp: keeps_def touch_def returnE_def others_same_def split: option.split)
qed


section \<open>Reading\<close>

text \<open>The bytes still to be read do not grow.\<close>

definition rd_le :: "'w conn \<Rightarrow> 'w conn \<Rightarrow> bool" where
  "rd_le c d \<longleftrightarrow> rd_size (c_rd d) \<le> rd_size (c_rd c)"

lemma rd_read_le: "rd_read n r = (x, r') \<Longrightarrow> rd_size r' \<le> rd_size r"
  by (cases "(n, r)" rule: rd_read.cases) (auto split: if_splits)

lemma read_body_loop_le: "read_body_loop len body r = (x, r') \<Longrightarrow> rd_size r' \<le> rd_size r"
proof (induction len body r arbitrary: x r' rule: read_body_loop.induct)
  case (1 len body r)
  obtain y r1 where rd: "rd_read (min (len - length body) (64 * 1024)) r = (y, r1)" by fastforce
  show ?case
  proof (cases "length body < len \<and> (\<exists>bs. y = Inr bs \<and> bs \<noteq> [])")
    case True
    then obtain bs where bs: "y = Inr bs" "bs \<noteq> []" by blast
    with True rd 1(2) have "read_body_loop len (body @ bs) r1 = (x, r')"
      by (simp add: read_body_loop.simps [of len body r])
    with 1(1) [OF _ rd [symmetric] bs] True have "rd_size r' \<le> rd_size r1" by blast
    with rd_read_le [OF rd] show ?thesis by simp
  next
    case False
    with 1(2) rd have "r' = r \<or> r' = r1" by (auto simp: read_body_loop.simps [of len body r] split: if_splits sum.splits)
    with rd_read_le [OF rd] show ?thesis by auto
  qed
qed

lemma stream_loop_le: "stream_loop f n k r w = (x, k', r', w') \<Longrightarrow> rd_size r' \<le> rd_size r"
proof (induction f n k r w arbitrary: x k' r' w' rule: stream_loop.induct)
  case (1 f n k r w)
  obtain y r1 where rd: "rd_read (min (64 * 1024) n) r = (y, r1)" by fastforce
  show ?case
  proof (cases "0 < n \<and> (\<exists>bs w1. y = Inr bs \<and> bs \<noteq> [] \<and> f bs w = (Inr (), w1))")
    case True
    then obtain bs w1 where bs: "y = Inr bs" "bs \<noteq> []" and w1: "f bs w = (Inr (), w1)" by blast
    with True rd 1(2) have "stream_loop f (n - length bs) (k + length bs) r1 w1 = (x, k', r', w')"
      by (simp add: stream_loop.simps [of f n k r w])
    with 1(1) [OF _ rd [symmetric] bs w1 [symmetric] refl] True have "rd_size r' \<le> rd_size r1" by blast
    with rd_read_le [OF rd] show ?thesis by simp
  next
    case False
    with 1(2) rd have "r' = r \<or> r' = r1"
      by (auto simp: stream_loop.simps [of f n k r w] split: if_splits sum.splits prod.splits)
    with rd_read_le [OF rd] show ?thesis by auto
  qed
qed

lemma drain_loop_le: "drain_loop n r = (x, r') \<Longrightarrow> rd_size r' \<le> rd_size r"
proof (induction r arbitrary: n rule: rd_size.induct)
  case (3 bs es)
  then show ?case by (fastforce simp: drain_loop.simps [of n "Chunk bs # es"] split: if_splits)
next
  case (2 e es)
  then show ?case by (fastforce simp: drain_loop.simps [of n "RdErr e # es"] split: if_splits)
next
  case 1
  then show ?case by (simp add: drain_loop.simps [of n "[]"] split: if_splits)
qed

section \<open>File handlers\<close>

locale files_frame = frame_relation R for R :: "'w osw conn \<Rightarrow> 'w osw conn \<Rightarrow> bool" +
  assumes files_rw: "R c (c\<lparr>c_rw := rw\<rparr>)"
    and files_os: "R c (c\<lparr>c_os := w\<rparr>)"
begin

lemma keeps_os: "keeps R (os m)"
  by (simp add: keeps_def os_def files_os split: prod.split)

lemma keeps_resp: "keeps R (resp m)"
  by (simp add: keeps_def resp_def files_rw split: prod.split)

lemma keeps_on_req: "(\<And>q. keeps R (g q)) \<Longrightarrow> keeps R (on_req g)"
  by (simp add: keeps_def on_req_def)

lemmas files_intros = keeps_intros keeps_os keeps_resp keeps_on_req

lemma keeps_read_loop: "keeps R (read_loop K f buf n)"
proof -
  have "R c (snd (read_loop K f buf n c))" for c
  proof (induction K f buf n c rule: read_loop.induct)
    case (1 K f buf n c)
    let ?rd = "os (sys (ReadFd f (min buf n)) (k_read K f (min buf n)))"
    obtain x c1 where x: "?rd c = (x, c1)" by fastforce
    then have le1: "R c c1" using keeps_os [of "sys (ReadFd f (min buf n)) (k_read K f (min buf n))"] by (metis keeps_def snd_conv)
    show ?case
    proof (cases "0 < n \<and> (\<exists>bs. x = Inr bs \<and> bs \<noteq> [])")
      case False
      with x le1 show ?thesis
        by (auto simp: read_loop.simps [of K f buf n c] R_refl split: sum.split)
    next
      case True
      then obtain bs where bs: "x = Inr bs" "bs \<noteq> []" by blast
      obtain y c2 where y: "resp (rw_raw bs) c1 = (y, c2)" by fastforce
      then have le2: "R c c2" using keeps_resp [of "rw_raw bs"] le1 R_trans by (metis keeps_def snd_conv)
      show ?thesis
      proof (cases y)
        case (Inl e)
        with x y bs True le2 show ?thesis by (simp add: read_loop.simps [of K f buf n c])
      next
        case (Inr u)
        with 1 [OF _ x [symmetric] bs y [symmetric]] True have "R c2 (snd (read_loop K f buf (n - length bs) c2))" by blast
        with x y bs True Inr le2 show ?thesis
          by (auto simp: read_loop.simps [of K f buf n c] intro: R_trans)
      qed
    qed
  qed
  then show ?thesis by (simp add: keeps_def)
qed

lemma keeps_require_path: "keeps R (require_path C K sandbox)"
  unfolding require_path_def by (auto split: option.split intro!: files_intros)

lemma keeps_files:
  "keeps R (handle_read C K sandbox)" "keeps R (handle_list C K sandbox)" "keeps R (handle_stat C K sandbox)"
  "keeps R (delete_files depth C K sandbox)" "keeps R (handle_mkdir C K sandbox)"
  unfolding handle_read_def send_file_def handle_list_def handle_stat_def delete_files_def handle_delete_def handle_mkdir_def Let_def
  by (auto split: option.split prod.split intro!: files_intros keeps_require_path keeps_read_loop)

lemma keeps_write: "(\<And>f. keeps R (stream_body f)) \<Longrightarrow> keeps R (handle_write C K sandbox)"
  unfolding handle_write_def Let_def
  by (auto split: option.split prod.split intro!: files_intros keeps_require_path)

end

section \<open>All handlers\<close>

text \<open>
  A relation between connections that is a frame, allows every change of the response writer, and lets the server's state change as long as it
  stays the same for those who are not \<open>mine\<close>.
\<close>

locale conn_base = frame_relation R for R :: "'w world conn \<Rightarrow> 'w world conn \<Rightarrow> bool" +
  fixes mine :: "string option \<Rightarrow> bool"
  assumes frame_rw: "R c (c\<lparr>c_rw := rw\<rparr>)"
    and frame_world: "others_same mine (c_os c) w \<Longrightarrow> R c (c\<lparr>c_os := w\<rparr>)"
begin

lemma keeps_os: "keeps (others_same mine) m \<Longrightarrow> keeps R (os m)"
  by (auto simp: keeps_def os_def split: prod.split intro!: frame_world) (metis snd_conv)

lemma keeps_resp: "keeps R (resp m)"
  by (auto simp: keeps_def resp_def split: prod.split intro!: frame_rw)

lemmas base_intros = keeps_intros keeps_os keeps_resp

lemma keeps_with_op: "keeps R m \<Longrightarrow> keeps R (with_op m)"
proof -
  assume m: "keeps R m"
  have op: "keeps R (os (on_procs f))" if "f \<in> {begin_op, end_op}" for f
    using that by (intro keeps_os others_procs) (auto simp: begin_op_def end_op_def running_of_def)
  show ?thesis
    unfolding keeps_def
  proof
    fix c :: "'w world conn"
    obtain u c1 where c1: "os (on_procs begin_op) c = (u, c1)" by fastforce
    obtain r c2 where c2: "m c1 = (r, c2)" by fastforce
    have "R c c1" using op [of begin_op] c1 by (auto simp: keeps_def) (metis snd_conv)
    moreover have "R c1 c2" using m c2 by (auto simp: keeps_def) (metis snd_conv)
    moreover have "R c2 (snd (os (on_procs end_op) c2))" using op [of end_op] by (auto simp: keeps_def)
    ultimately show "R c (snd (with_op m c))" using c1 c2 by (auto simp: with_op_def intro: R_trans)
  qed
qed

lemma keeps_stream_events: "keeps R (stream_events C K rx)"
proof (induction C K rx rule: stream_events.induct)
  case (3 C K ev rx)
  then show ?case by (cases "is_exit ev") (auto intro!: base_intros others_stamp)
qed (auto intro!: base_intros)

lemma keeps_process_delete:
  assumes "\<And>p. in_scope scope p \<Longrightarrow> mine (pr_sandbox_id p)"
  shows "keeps R (handle_process_delete C K pid scope)"
proof -
  have "running_of owner (snd (remove_by_id pid scope g)) = running_of owner g" if "\<not> mine owner" for owner g
  proof -
    let ?P = "\<lambda>p. pr_id p = pid \<and> in_scope scope p"
    have "filter (\<lambda>p. pr_sandbox_id p = owner \<and> \<not> finished p) (snd (remove_first ?P (pg_procs g))) =
        filter (\<lambda>p. pr_sandbox_id p = owner \<and> \<not> finished p) (pg_procs g)"
      using that assms by (intro running_remove_first) auto
    then show ?thesis by (auto simp: remove_by_id_def running_of_def split: prod.split)
  qed
  then show ?thesis
    unfolding handle_process_delete_def
    by (auto split: option.split intro!: base_intros others_procs others_kill_tree)
qed

lemma keeps_delete_sandbox:
  assumes "mine (Some sid)"
  shows "keeps R (handle_delete_sandbox C K sid)"
proof -
  have "running_of owner (snd (remove_for_sandbox sid g)) = running_of owner g" if "\<not> mine owner" for owner g
    using that assms by (auto simp: remove_for_sandbox_def running_of_def intro!: filter_cong)
  then show ?thesis
    unfolding handle_delete_sandbox_def
    by (auto split: option.split sum.split intro!: base_intros others_procs others_delete assms)
qed

lemma keeps_no_route: "keeps R (no_route C)" "keeps R (no_such_sandbox C sid)"
  using keeps_resp by (auto simp: keeps_def no_route_def no_such_sandbox_def)

lemma keeps_with_sandbox:
  assumes "\<And>c e. reg_get (w_sandboxes (c_os c)) sid = Some e \<Longrightarrow> R c (snd (f e c))"
  shows "keeps R (with_sandbox C sid f)"
  using assms keeps_no_route(2) by (auto simp: keeps_def with_sandbox_def split: option.split)

text \<open>The guards of \<open>route\<close> stay within the frame if what lies behind them does.\<close>

lemma route_in_frame:
  assumes nh: "\<not> is_health (c_req c)"
    and rest: "\<And>w. w_sandboxes w = w_sandboxes (c_os c) \<Longrightarrow>
      R (c\<lparr>c_os := w\<rparr>) (snd (thenE (os (touch_sandbox K (segments_of (rq_path (c_req c)))))
        (dispatch C K N (rq_method (c_req c)) (segments_of (rq_path (c_req c)))) (c\<lparr>c_os := w\<rparr>)))"
  shows "R c (snd (route C K N c))"
proof -
  let ?segs = "segments_of (rq_path (c_req c))"
  have rs: "R d (snd (resp m d))" for d and m :: "(response_writer, unit) io" by (rule keepsD [OF keeps_resp])
  obtain k t where st: "stamp_activity K (c_os c) = (Inr (), (c_os c)\<lparr>w_os := (w_os (c_os c))\<lparr>kst := k\<rparr>, w_last_activity_ms := t\<rparr>)"
    using stamp_run [of K "c_os c"] by blast
  let ?c = "c\<lparr>c_os := (c_os c)\<lparr>w_os := (w_os (c_os c))\<lparr>kst := k\<rparr>, w_last_activity_ms := t\<rparr>\<rparr>"
  have R1: "R c ?c" by (rule frame_world) (simp add: others_same_def)
  have R2: "R ?c (snd (thenE (os (touch_sandbox K ?segs)) (dispatch C K N (rq_method (c_req c)) ?segs) ?c))"
    by (rule rest) simp
  have run: "thenE (os (stamp_activity K)) m c = m ?c" for m :: "('w world conn, unit) io"
    using st by (simp add: thenE_def bindE_def os_def)
  show ?thesis
    unfolding route_guarded [OF nh] Let_def run
    by (simp only: if_distrib [of snd] if_distrib [of "R c"] if_distribR) (intro conjI if_bool_eq_conj [THEN iffD2] impI rs R_trans [OF R1 rs] R_trans [OF R1 R2])
qed

end

text \<open>
  The same, with every change of the request allowed and bytes read. Every handler stays within it.
\<close>

locale conn_frame = conn_base R mine for R :: "'w world conn \<Rightarrow> 'w world conn \<Rightarrow> bool" and mine +
  assumes frame_req: "R c (c\<lparr>c_req := q\<rparr>)"
    and frame_rd: "rd_size r \<le> rd_size (c_rd c) \<Longrightarrow> R c (c\<lparr>c_rd := r\<rparr>)"
begin

lemma keeps_read_body: "keeps R (read_body n)"
proof -
  have "R c (c\<lparr>c_rd := r, c_req := q\<rparr>)" if "rd_size r \<le> rd_size (c_rd c)" for c r q
    by (rule R_trans [OF frame_rd [OF that] frame_req])
  then show ?thesis
    by (auto simp: keeps_def read_body_def R_refl split: prod.split sum.split dest!: read_body_loop_le intro: frame_rd)
qed

lemma keeps_on_files:
  assumes "keeps rd_le m"
  shows "keeps R (on_files m)"
  unfolding keeps_def
proof
  fix c :: "'w world conn"
  obtain x d where d: "m \<lparr>c_req = c_req c, c_rd = c_rd c, c_rw = c_rw c, c_os = w_os (c_os c)\<rparr> = (x, d)" by fastforce
  with assms have le: "rd_size (c_rd d) \<le> rd_size (c_rd c)" by (auto simp: keeps_def rd_le_def) (metis conn.select_convs(2) snd_conv)
  let ?c1 = "c\<lparr>c_req := c_req d\<rparr>" and ?w = "(c_os c)\<lparr>w_os := c_os d\<rparr>"
  have "R c ?c1" by (rule frame_req)
  also have "R ?c1 (?c1\<lparr>c_rd := c_rd d\<rparr>)" using le by (intro frame_rd) simp
  also (R_trans) have "R (?c1\<lparr>c_rd := c_rd d\<rparr>) (?c1\<lparr>c_rd := c_rd d, c_rw := c_rw d\<rparr>)" by (rule frame_rw)
  also (R_trans) have "R (?c1\<lparr>c_rd := c_rd d, c_rw := c_rw d\<rparr>) (?c1\<lparr>c_rd := c_rd d, c_rw := c_rw d, c_os := ?w\<rparr>)"
    by (rule frame_world) (simp add: others_same_def)
  finally (R_trans) show "R c (snd (on_files m c))" using d by (simp add: on_files_def)
qed

lemmas conn_intros = base_intros keeps_read_body keeps_on_files

lemma keeps_with_spec: "(\<And>spec. keeps R (f spec)) \<Longrightarrow> keeps R (with_spec C f)"
  unfolding with_spec_def by (intro conn_intros) (auto split: sum.split intro!: conn_intros)

lemma keeps_exec:
  assumes "mine (map_option e_id sandbox)"
  shows "keeps R (handle_exec C K rx sandbox)" "keeps R (handle_process_start C K sandbox)"
proof -
  have "keeps R (exec_stream C K rx pid)" for pid
    unfolding exec_stream_def by (intro conn_intros keeps_stream_events)
  moreover have "keeps (others_same mine) (start_background K (spec\<lparr>sp_sandbox := sandbox\<rparr>))"
      "keeps (others_same mine) (start_background K (spec\<lparr>sp_background := True, sp_sandbox := sandbox\<rparr>))" for spec
    using assms by (intro others_start_background; simp)+
  ultimately show "keeps R (handle_exec C K rx sandbox)" "keeps R (handle_process_start C K sandbox)"
    unfolding handle_exec_def handle_process_start_def Let_def
    by (intro keeps_with_spec; auto split: sum.split intro!: conn_intros others_spawn others_on_os keeps_with_op)+
qed

end

end
