(* ===== verification/Isolation.thy ===== *)
theory Isolation
  imports Frames
begin

text \<open>
  What a request can reach, read off from the locales of \<open>Frames\<close> through two interpretations: a request scoped to a sandbox leaves
  every other sandbox's entry and running processes as they were, and no handler puts bytes back onto the connection, so that
  the loop over the requests of a connection ends.
\<close>

section \<open>Bytes left to read\<close>

interpretation rdl: frame_relation rd_le
  by unfold_locales (auto simp: rd_le_def)

interpretation rdf: files_frame rd_le
  by unfold_locales (auto simp: rd_le_def)

lemma rdl_os: "keeps rd_le (os m)"
  by (simp add: keeps_def rd_le_def os_def split: prod.split)

lemma rdl_resp: "keeps rd_le (resp m)"
  by (simp add: keeps_def rd_le_def resp_def split: prod.split)

lemma rdl_stream_body: "keeps rd_le (stream_body f)"
  by (auto simp: keeps_def rd_le_def stream_body_def Let_def split: prod.split dest: stream_loop_le)

lemmas rdl_intros = rdl.keeps_intros rdl_os rdl_resp rdf.keeps_on_req

lemmas rdl_files = rdf.keeps_files rdf.keeps_write [OF rdl_stream_body]

lemma consume_le: "rd_size (consume n r) \<le> rd_size r"
  by (auto simp: consume_def split: list.split rd_event.split)

lemma rdl_tunnel: "keeps rd_le (tunnel K ahead down head b)"
proof -
  have pump: "keeps rd_le (\<lambda>c. os (pump_up K b (c_rd c)) (c\<lparr>c_rd := []\<rparr>))"
    by (simp add: keeps_def rd_le_def os_def split: prod.split)
  have cons: "keeps rd_le (\<lambda>c. (Inr (), c\<lparr>c_rd := consume ahead (c_rd c)\<rparr>))"
    by (intro rdl.keeps_update) (simp add: rd_le_def consume_le)
  have "keeps rd_le (thenE (os (backend_write K b head)) (thenE (os (backend_write K b lo))
     (thenE (\<lambda>c. (Inr (), c\<lparr>c_rd := consume ahead (c_rd c)\<rparr>))
     (thenE (\<lambda>c. os (pump_up K b (c_rd c)) (c\<lparr>c_rd := []\<rparr>))
     (thenE (os (ignoreE (raw_os (k_shutdown K b)))) (thenE (resp (on_writer (copy_down down)))
        (os (ignoreE (raw_os (k_shutdown K b))))))))))" for lo
    by (intro rdl_intros pump cons)
  then show ?thesis by (simp add: keeps_def tunnel_def)
qed

lemma rdl_proxy: "keeps rd_le (handle_proxy C K ahead down sandbox segs)"
  unfolding handle_proxy_def Let_def
  by (auto split: option.split prod.split intro!: rdl_intros rdl_tunnel)


section \<open>Sandboxes do not reach each other\<close>

definition others_conn :: "(string option \<Rightarrow> bool) \<Rightarrow> 'w world conn \<Rightarrow> 'w world conn \<Rightarrow> bool" where
  "others_conn mine c d \<longleftrightarrow> others_same mine (c_os c) (c_os d)"

interpretation iso: conn_frame "others_conn mine" mine
  by unfold_locales (auto simp: others_conn_def others_same_def)

lemma iso_sandbox_route:
  assumes "reg_keyed (w_sandboxes (c_os c))"
  shows "others_conn (\<lambda>owner. owner = Some sid) c (snd (sandbox_route C K N meth sid tail c))"
proof -
  let ?mine = "\<lambda>owner. owner = Some sid"
  let ?R = "others_conn ?mine"
  have none: "?R c (snd (no_such_sandbox C sid c))" "?R c (snd (no_route C c))"
    by (rule keepsD [OF iso.keeps_no_route(2)], rule keepsD [OF iso.keeps_no_route(1)])
  have with_sb: "?R c (snd (with_sandbox C sid f c))" if "\<And>e. e_id e = sid \<Longrightarrow> keeps ?R (f e)" for f
    using assms none(1) keepsD [OF that] by (auto simp: with_sandbox_def reg_keyed_def split: option.split)
  have files: "?R c (snd (with_sandbox C sid (\<lambda>e. on_files (m e)) c))" if "\<And>e. keeps rd_le (m e)" for m
    by (intro with_sb iso.keeps_on_files that)
  have exec: "?R c (snd (with_sandbox C sid (\<lambda>e. handle_exec C K (n_rx N) (Some e)) c))"
      "?R c (snd (with_sandbox C sid (\<lambda>e. handle_process_start C K (Some e)) c))"
    by (intro with_sb iso.keeps_exec; simp)+
  have tok: "?R c (snd (with_sandbox C sid (\<lambda>e. resp (m e)) c))" for m
    by (intro with_sb iso.keeps_resp)
  have resp: "?R c (snd (resp m c))" for m by (rule keepsD [OF iso.keeps_resp])
  have del: "?R c (snd (handle_process_delete C K pid (Some sid) c))" "?R c (snd (handle_delete_sandbox C K sid c))" for pid
    by (rule keepsD [OF iso.keeps_process_delete], simp add: in_scope_def) (rule keepsD [OF iso.keeps_delete_sandbox], simp)
  show ?thesis
    unfolding sandbox_route_def
    by (auto simp: none exec tok resp del files [OF rdl_files(1)] files [OF rdl_files(2)] files [OF rdl_files(3)] files [OF rdl_files(4)]
        files [OF rdl_files(5)] files [OF rdl_files(6)] files [OF rdl_proxy])
qed


lemma scoped_not_health: "scoped_to sid (segments_of path) \<Longrightarrow> path \<noteq> ''/health''"
  by (auto simp: scoped_to_iff segments_of_def trim_matches_def)

lemma scoped_refused:
  assumes "w_host_mode (c_os c)" and scoped: "scoped_to sid (segments_of (rq_path (c_req c)))"
    and "\<forall>e. reg_get (w_sandboxes (c_os c)) sid = Some e \<longrightarrow> header (c_req c) ''x-sandbox-token'' \<noteq> Some (e_token e)"
  shows "route C K N c = resp (rw_error C 403 ''invalid or missing X-Sandbox-Token'') c"
proof -
  have "\<not> is_health (c_req c)" using scoped_not_health [OF scoped] by blast
  moreover have "authorize (c_os c) (header (c_req c) ''x-sandbox-token'') (segments_of (rq_path (c_req c))) = None"
    using assms authorize_iff [of "c_os c" "header (c_req c) ''x-sandbox-token''" "segments_of (rq_path (c_req c))"]
    by (auto simp: scoped_to_def)
  ultimately show ?thesis by (simp add: route_guarded Let_def)
qed

lemma iso_dispatch:
  assumes "scoped_to sid segments" and "reg_keyed (w_sandboxes (c_os c))"
  shows "others_conn (\<lambda>owner. owner = Some sid) c (snd (thenE (os (touch_sandbox K segments)) (dispatch C K N meth segments) c))"
proof -
  let ?mine = "\<lambda>owner. owner = Some sid"
  obtain tail where seg: "segments = [''v1'', ''sandboxes'', sid] @ tail" using assms(1) by (auto simp: scoped_to_iff)
  obtain r w1 where t: "touch K sid (c_os c) = (r, w1)" by fastforce
  have "others_same ?mine (c_os c) w1" using keepsD [OF others_touch [of ?mine sid K], of "c_os c"] t by simp
  then have R1: "others_conn ?mine c (c\<lparr>c_os := w1\<rparr>)" by (simp add: others_conn_def)
  have R2: "others_conn ?mine (c\<lparr>c_os := w1\<rparr>) (snd (dispatch C K N meth segments (c\<lparr>c_os := w1\<rparr>)))"
    using iso_sandbox_route [of "c\<lparr>c_os := w1\<rparr>" sid C K N meth tail] reg_keyed_touch [OF assms(2) t]
    by (simp add: dispatch_def seg)
  have ts: "touch_sandbox K segments = touch K sid" by (simp add: touch_sandbox_def seg)
  show ?thesis
    using t R1 iso.R_trans [OF R1 R2] by (cases r) (simp_all add: ts thenE_def bindE_def os_def)
qed

text \<open>
  A request cannot reach across sandboxes. Whatever a request below \<open>/v1/sandboxes/<sid>\<close> asks
  for, whatever it carries and however it ends, every other sandbox keeps its entry (home, uid, token, limits, confinement) and
  every running process that is not a process of \<open>sid\<close> stays registered.
\<close>

theorem sandbox_isolation:
  assumes "scoped_to sid (segments_of (rq_path (c_req c)))" and "reg_keyed (w_sandboxes (c_os c))"
    and "route C K N c = (r, c')"
  shows "(\<forall>other. other \<noteq> sid \<longrightarrow> reg_get (w_sandboxes (c_os c')) other = reg_get (w_sandboxes (c_os c)) other) \<and>
    (\<forall>owner. owner \<noteq> Some sid \<longrightarrow> running_of owner (w_procs (c_os c')) = running_of owner (w_procs (c_os c)))"
proof -
  let ?mine = "\<lambda>owner. owner = Some sid"
  have "\<not> is_health (c_req c)" using scoped_not_health [OF assms(1)] by blast
  then have "others_conn ?mine c (snd (route C K N c))"
    by (rule iso.route_in_frame) (rule iso_dispatch [OF assms(1)], simp add: assms(2))
  with assms(3) show ?thesis by (simp add: others_conn_def others_same_def)
qed


section \<open>Connections end\<close>

interpretation rdc: conn_frame rd_le "\<lambda>_. True"
  by unfold_locales (auto simp: rd_le_def)

lemma rdl_pool: "keeps rd_le (handle_create C K)" "keeps rd_le (handle_delete_all C K)"
proof -
  have created: "keeps rd_le (bindE (os m) (\<lambda>out. case out of Created a b \<Rightarrow> resp (f a b) | CreateFailed e \<Rightarrow> resp (g e)))"
    for m :: "('a world, create_outcome) io" and f :: "json list \<Rightarrow> nat \<Rightarrow> (response_writer, unit) io" and g
    by (intro rdl_intros) (auto split: create_outcome.split intro!: rdl_intros)
  show "keeps rd_le (handle_create C K)"
    unfolding handle_create_def Let_def
    by (intro rdl.keeps_bindE rdc.keeps_read_body) (auto simp: keeps_def keepsD [OF created] keepsD [OF rdl_resp])
  have deleted: "keeps rd_le (bindE (os m) (\<lambda>errors. if errors = [] then resp a else resp (f errors)))"
    for m :: "('a world, string list) io" and a :: "(response_writer, unit) io" and f
    by (intro rdl_intros)
  show "keeps rd_le (handle_delete_all C K)"
    by (simp add: keeps_def handle_delete_all_def Let_def keepsD [OF deleted])
qed

lemma rdl_dispatch: "keeps rd_le (dispatch C K N meth segments)"
proof -
  have w: "keeps rd_le (with_sandbox C sid f)" if "\<And>e. keeps rd_le (f e)" for sid and f :: "sandbox_entry \<Rightarrow> ('a world conn, unit) io"
    by (rule rdc.keeps_with_sandbox) (rule keepsD [OF that])
  have r: "keeps rd_le (\<lambda>c. resp (m c) c)" for m :: "'a world conn \<Rightarrow> (response_writer, unit) io"
    by (simp add: keeps_def keepsD [OF rdl_resp])
  note all = w r rdl_resp rdc.keeps_no_route rdc.keeps_exec rdc.keeps_process_delete rdc.keeps_delete_sandbox rdc.keeps_on_files
    rdl_files rdl_proxy rdl_pool
  have "keeps rd_le (dedicated_route C K N meth segments)"
    unfolding dedicated_route_def by (simp add: all)
  moreover have "keeps rd_le (pool_route C K meth)"
    unfolding pool_route_def by (simp add: all)
  moreover have "keeps rd_le (sandbox_route C K N meth sid tail)" for sid tail
    unfolding sandbox_route_def by (simp add: all)
  ultimately show ?thesis by (simp add: dispatch_def split: list.split)
qed

lemma rd_le_route: "rd_le c (snd (route C K N c))"
proof (cases "is_health (c_req c)")
  case True
  have "rd_le c (snd (resp m c))" for m :: "(response_writer, unit) io" by (rule keepsD [OF rdl_resp])
  moreover have "rd_le c (snd (bindE (os m) (\<lambda>j. resp (f j)) c))" for m and f :: "json \<Rightarrow> (response_writer, unit) io"
    by (rule keepsD) (intro rdl_intros)
  ultimately show ?thesis using True by (simp add: route_def Let_def)
next
  case False
  then show ?thesis by (rule rdc.route_in_frame) (rule keepsD, intro rdl_intros rdl_dispatch)
qed

lemma read_head_less: "read_head clock deadline i head r = (Inr (Some h), r') \<Longrightarrow> rd_size r' < rd_size r"
proof (induction clock deadline i head r rule: read_head.induct)
  case (1 clock deadline i head r)
  obtain y r1 where rd: "rd_read 1 r = (y, r1)" by fastforce
  from 1(2) rd obtain b bs where y: "y = Inr (b # bs)" "\<not> deadline < clock i" "\<not> MAX_HEADER_BYTES < length (head @ [b])"
    by (subst (asm) read_head.simps) (auto split: if_splits sum.splits list.splits)
  then have less: "rd_size r1 < rd_size r" using rd_read_size [OF rd [unfolded y(1)]] by simp
  show ?case
  proof (cases "ends_blank (head @ [b])")
    case True
    with 1(2) rd y less show ?thesis by (subst (asm) read_head.simps) simp
  next
    case False
    with 1(2) rd y have "read_head clock deadline (Suc i) (head @ [b]) r1 = (Inr (Some h), r')"
      by (subst (asm) read_head.simps) simp
    with 1(1) [OF y(2) rd [unfolded y(1), symmetric] refl refl y(3) False] less show ?thesis by simp
  qed
qed

lemma read_request_less: "read_request clock r = (Inr (Some q), r') \<Longrightarrow> rd_size r' < rd_size r"
  by (auto simp: read_request_def split: prod.splits sum.splits option.splits dest!: read_head_less)

lemma drain_body_le: "drain_body c = (x, c') \<Longrightarrow> rd_size (c_rd c') \<le> rd_size (c_rd c)"
  by (auto simp: drain_body_def Let_def split: if_splits prod.splits sum.splits dest: drain_loop_le)

lemma serve_ends:
  "rd_size r < fuel \<Longrightarrow> \<exists>out. serve fuel C K clock N i r wr w = Some out"
proof (induction fuel arbitrary: i r wr w)
  case (Suc fuel)
  show ?case
  proof (cases "serve_one C K (clock i) (N i) r wr w")
    case (Next r' wr' w')
    then obtain q r1 c1 c2 c3 where
      x: "read_request (clock i) r = (Inr (Some q), r1)" and
      c1: "route C K (N i) \<lparr>c_req = q, c_rd = r1, c_rw = rw_new wr (rq_keep_alive q), c_os = w\<rparr> = (Inr (), c1)" (is "route C K _ ?c = _") and
      c2: "resp rw_finish c1 = (Inr (), c2)" and c3: "drain_body c2 = (Inr (), c3)" and r': "r' = c_rd c3"
      by (rule serve_one_Next)
    have "rd_size (c_rd c1) \<le> rd_size r1" using rd_le_route [of ?c C K "N i"] c1 by (simp add: rd_le_def)
    moreover have "c_rd c2 = c_rd c1" using resp_frame [OF c2] by simp
    ultimately have "rd_size r' < fuel"
      using read_request_less [OF x] drain_body_le [OF c3] Suc.prems r' by simp
    then show ?thesis using Suc.IH Next by simp
  qed simp
qed simp

text \<open>
  C25: every connection comes to an end. Whatever the peer sends, in whatever pieces and with
  whatever errors of the socket in between, the connection loop stops after finitely many requests: at most one more
  than the bytes and chunks that arrive. No handler can make it run on.
\<close>

theorem connection_ends:
  "rd_size r < fuel \<Longrightarrow> \<exists>out. handle_connection fuel C K clock N r wr w = Some out"
  using serve_ends by (auto simp: handle_connection_def split: prod.split sum.split)

section \<open>Witnesses\<close>

theorem sandbox_isolation_witness:
  "\<exists>r c'. route demo_codec demo_px demo_env (demo_request ''DELETE'' ''/v1/sandboxes/ab'' [(''x-sandbox-token'', ''t'')] demo_host) = (r, c') \<and>
     reg_get (w_sandboxes (c_os c')) ''cd'' = None"
proof -
  let ?c = "demo_request ''DELETE'' ''/v1/sandboxes/ab'' [(''x-sandbox-token'', ''t'')] demo_host"
  obtain r c' where r: "route demo_codec demo_px demo_env ?c = (r, c')" by fastforce
  have s: "scoped_to ''ab'' (segments_of (rq_path (c_req ?c)))"
    by (simp add: scoped_to_def host_route_auth_def demo_request_def segments_of_def trim_matches_def)
  have k: "reg_keyed (w_sandboxes (c_os ?c))"
    by (simp add: reg_keyed_def reg_get_def hm_get_def demo_request_def demo_host_def demo_world_def demo_reg_def)
  have "reg_get (w_sandboxes demo_host) ''cd'' = None"
    by (simp add: demo_host_def demo_world_def demo_reg_def reg_get_def hm_get_def)
  then have "reg_get (w_sandboxes (c_os c')) ''cd'' = None"
    using sandbox_isolation [OF s k r] by (simp add: demo_request_def)
  with r show ?thesis by blast
qed

theorem connection_ends_witness:
  "\<exists>out. handle_connection 3 demo_codec demo_px (\<lambda>_ _. 7) (\<lambda>_. demo_env) [Chunk ''G''] open_writer demo_host = Some out"
  by (rule connection_ends) simp

end
