(* ===== verification/Daemon.thy ===== *)
theory Daemon
  imports Isolation
begin

text \<open>
  The process around the connections, \<open>main\<close> of \<open>src/main.rs\<close>: the configuration it reads from the environment
  and the arguments, the start-up with its refusals, the idle watchdog, and the cap on concurrent connections.

  The environment is the list of the variables whose value is Unicode (\<open>std::env::var\<close> reports any other as
  unset); \<open>exit(1)\<close> is a value of \<open>startup_error\<close>. The watchdog's five-second loop is one definition per round;
  the accept loop and the worker threads are the step relation \<open>slot_step\<close> over the shared counter.
\<close>

section \<open>Configuration\<close>

datatype startup_error =
    NotANumber string string
  | TokenRequired
  | ZeroCapacity
  | ZeroConnections
  | BindFailed io_error
  | AbiTooLow int int

definition env_number :: "string \<Rightarrow> (string \<Rightarrow> 'a option) \<Rightarrow> 'a \<Rightarrow> (string, string) hashmap \<Rightarrow> startup_error + 'a" where
  "env_number name parse dflt env =
     (case hm_get env name of
        None \<Rightarrow> Inr dflt
      | Some raw \<Rightarrow> (case parse raw of Some v \<Rightarrow> Inr v | None \<Rightarrow> Inl (NotANumber name raw)))"

record config =
  cf_port :: nat
  cf_auth :: auth
  cf_idle_timeout_secs :: "nat option"
  cf_capacity :: nat
  cf_host_mode :: bool
  cf_max_connections :: nat
  cf_allow_unconfined :: bool
  cf_min_abi :: int

definition bindS :: "startup_error + 'a \<Rightarrow> ('a \<Rightarrow> startup_error + 'b) \<Rightarrow> startup_error + 'b" where
  "bindS r f = (case r of Inl e \<Rightarrow> Inl e | Inr x \<Rightarrow> f x)"

text \<open>\<open>args\<close> are the arguments behind the program's name.\<close>

definition auth_of :: "(string, string) hashmap \<Rightarrow> string list \<Rightarrow> startup_error + auth" where
  "auth_of env args =
     (case hm_get env ''SBX_TOKEN'' of
        Some token \<Rightarrow>
          if token \<noteq> [] then Inr (Required token)
          else if ''--allow-no-auth'' \<in> set args then Inr DisabledForDevelopment else Inl TokenRequired
      | None \<Rightarrow> if ''--allow-no-auth'' \<in> set args then Inr DisabledForDevelopment else Inl TokenRequired)"

definition parse_config :: "(string, string) hashmap \<Rightarrow> string list \<Rightarrow> startup_error + config" where
  "parse_config env args =
     bindS (env_number ''SBX_PORT'' parse_u16 8000 env) (\<lambda>port.
     bindS (auth_of env args) (\<lambda>auth.
     bindS (case hm_get env ''SBX_IDLE_TIMEOUT'' of
              None \<Rightarrow> Inr None
            | Some _ \<Rightarrow> bindS (env_number ''SBX_IDLE_TIMEOUT'' parse_u64 0 env) (\<lambda>n. Inr (Some n))) (\<lambda>idle.
     bindS (env_number ''SBX_CAPACITY'' parse_usize 64 env) (\<lambda>capacity.
     if capacity = 0 then Inl ZeroCapacity else
     (let host_mode = (hm_get env ''SBX_HOST_MODE'' = Some ''1'') in
     bindS (env_number ''SBX_MAX_CONNECTIONS'' parse_usize 512 env) (\<lambda>max_connections.
     if max_connections = 0 then Inl ZeroConnections else
     bindS (env_number ''SBX_MIN_LANDLOCK_ABI'' parse_i32 FULL_ABI env) (\<lambda>min_abi.
       Inr \<lparr>cf_port = port, cf_auth = auth, cf_idle_timeout_secs = idle, cf_capacity = capacity, cf_host_mode = host_mode,
            cf_max_connections = max_connections, cf_allow_unconfined = (''--allow-unconfined'' \<in> set args),
            cf_min_abi = min_abi\<rparr>)))))))"

text \<open>From the configuration to the state the connections share; \<open>bind\<close> is the bind of the listening socket.\<close>

definition open_server ::
  "('w, 'z) sb_kernel_scheme \<Rightarrow> (nat \<Rightarrow> ('w, unit) io) \<Rightarrow> config \<Rightarrow> ('w osw, i64 \<times> i64 \<times> registry) io" where
  "open_server K bind cf =
     bindE (now_ms K) (\<lambda>t0.
     bindE (now_ms K) (\<lambda>t1.
     bindE (registry_new K (cf_capacity cf) (cf_allow_unconfined cf)) (\<lambda>reg.
     thenE (raw_os (bind (cf_port cf))) (returnE (t0, t1, reg)))))"

definition pin_system_dirs :: "('w, 'z) sb_kernel_scheme \<Rightarrow> config \<Rightarrow> ('w osw, (fd \<times> u64) list) io" where
  "pin_system_dirs K cf = (if cf_host_mode cf \<and> available K then system_dir_rules K else returnE [])"

definition start_server ::
  "('w, 'z) sb_kernel_scheme \<Rightarrow> (nat \<Rightarrow> ('w, unit) io) \<Rightarrow> (string, string) hashmap \<Rightarrow> string list \<Rightarrow> 'w osw \<Rightarrow>
   startup_error + config \<times> 'w world" where
  "start_server K bind env args s =
     bindS (parse_config env args) (\<lambda>cf.
     case open_server K bind cf s of
       (Inl e, s1) \<Rightarrow> Inl (BindFailed e)
     | (Inr (t0, t1, reg), s1) \<Rightarrow>
         if cf_host_mode cf \<and> k_abi K < cf_min_abi cf \<and> \<not> cf_allow_unconfined cf
         then Inl (AbiTooLow (k_abi K) (cf_min_abi cf))
         else (case pin_system_dirs K cf s1 of
             (Inl e, s2) \<Rightarrow> Inl (BindFailed e)
           | (Inr rules, s2) \<Rightarrow>
               Inr (cf, \<lparr>w_os = s2, w_auth = cf_auth cf, w_started_at_ms = t0, w_last_activity_ms = t1,
                 w_procs = \<lparr>pg_procs = [], pg_seq = 0, pg_active = 0\<rparr>, w_sandboxes = reg, w_host_mode = cf_host_mode cf,
                 w_handles = [], w_owned = [], w_rules = rules\<rparr>)))"

section \<open>The idle watchdog\<close>

text \<open>\<open>(idle * 1000) as i64\<close>: the product wraps at 64 bits and the cast keeps them.\<close>

definition idle_ms :: "nat \<Rightarrow> i64" where
  "idle_ms idle = word_of_nat idle * 1000"

fun evict_loop :: "('w, 'z) sb_kernel_scheme \<Rightarrow> string list \<Rightarrow> ('w world, unit) io" where
  "evict_loop K [] = returnE ()"
| "evict_loop K (sid # sids) =
     (\<lambda>w. if running_count_for sid (w_procs w) = 0 \<and> active_ops (w_procs w) = 0
          then bindE (reg_delete K sid) (\<lambda>_. thenE (on_procs (remove_for_sandbox sid)) (evict_loop K sids)) w
          else evict_loop K sids w)"

text \<open>
  One round: \<open>Some empty_since\<close> to go on, \<open>None\<close> for \<open>exit(0)\<close>. The body of the loop runs on the time \<open>now\<close> it has read.
\<close>

definition watchdog_host :: "('w, 'z) sb_kernel_scheme \<Rightarrow> nat \<Rightarrow> i64 \<Rightarrow> i64 \<Rightarrow> ('w world, i64 option) io" where
  "watchdog_host K idle empty_since now w =
     thenE (evict_loop K (idle_candidates (w_sandboxes w) now)) (\<lambda>w1.
       if reg_count (w_sandboxes w1) \<noteq> 0 then (Inr (Some now), w1)
       else if sint (idle_ms idle) < sint (now - empty_since) then (Inr None, w1)
       else (Inr (Some empty_since), w1)) w"

definition watchdog_dedicated :: "nat \<Rightarrow> i64 \<Rightarrow> i64 \<Rightarrow> ('w world, i64 option) io" where
  "watchdog_dedicated idle empty_since now w =
     (let quiet_ms = now - w_last_activity_ms w; busy = running_count (w_procs w) + active_ops (w_procs w) in
      if sint (idle_ms idle) < sint quiet_ms \<and> busy = 0 then (Inr None, w) else (Inr (Some empty_since), w))"

definition watchdog_round :: "('w, 'z) sb_kernel_scheme \<Rightarrow> nat \<Rightarrow> i64 \<Rightarrow> ('w world, i64 option) io" where
  "watchdog_round K idle empty_since =
     bindE (on_os (now_ms K)) (\<lambda>now. \<lambda>w.
       if w_host_mode w then watchdog_host K idle empty_since now w else watchdog_dedicated idle empty_since now w)"

section \<open>The cap on connections\<close>

text \<open>
  The counter \<open>LIVE_CONNECTIONS\<close>, the workers that hold a slot, and whether the accept loop stands between its
  \<open>fetch_add\<close> and the \<open>fetch_sub\<close> of a refusal; \<open>sl_refused\<close> counts the refusals.
\<close>

record slot_sys =
  sl_live :: nat
  sl_workers :: nat
  sl_probing :: bool
  sl_refused :: nat

definition fetch_add :: "nat \<Rightarrow> nat \<times> nat" where
  "fetch_add n = (n, n + 1)"

definition fetch_sub :: "nat \<Rightarrow> nat \<times> nat" where
  "fetch_sub n = (n, n - 1)"

inductive slot_step :: "nat \<Rightarrow> slot_sys \<Rightarrow> slot_sys \<Rightarrow> bool" for mx :: nat where
  sl_accept: "\<not> sl_probing s \<Longrightarrow> fetch_add (sl_live s) = (old, n) \<Longrightarrow> \<not> mx \<le> old \<Longrightarrow>
     slot_step mx s (s\<lparr>sl_live := n, sl_workers := sl_workers s + 1\<rparr>)"
| sl_over: "\<not> sl_probing s \<Longrightarrow> fetch_add (sl_live s) = (old, n) \<Longrightarrow> mx \<le> old \<Longrightarrow>
     slot_step mx s (s\<lparr>sl_live := n, sl_probing := True\<rparr>)"
| sl_refuse: "sl_probing s \<Longrightarrow> fetch_sub (sl_live s) = (old, n) \<Longrightarrow>
     slot_step mx s (s\<lparr>sl_live := n, sl_probing := False, sl_refused := sl_refused s + 1\<rparr>)"
| sl_drop: "0 < sl_workers s \<Longrightarrow> fetch_sub (sl_live s) = (old, n) \<Longrightarrow>
     slot_step mx s (s\<lparr>sl_live := n, sl_workers := sl_workers s - 1\<rparr>)"

text \<open>What a connection over the cap is answered, without a worker.\<close>

definition refuse_connection :: "writer \<Rightarrow> writer" where
  "refuse_connection wr =
     snd (thenE (ignoreE (bw_write_all
            (''HTTP/1.1 503 Service Unavailable'' @ CRLF @ ''Content-Length: 0'' @ CRLF @ ''Connection: close'' @ CRLF @ CRLF)))
          (ignoreE bw_flush) wr)"

definition slot_init :: "slot_sys \<Rightarrow> bool" where
  "slot_init s \<longleftrightarrow> s = \<lparr>sl_live = 0, sl_workers = 0, sl_probing = False, sl_refused = 0\<rparr>"

definition slot_inv :: "nat \<Rightarrow> slot_sys \<Rightarrow> bool" where
  "slot_inv mx s \<longleftrightarrow> sl_live s = sl_workers s + (if sl_probing s then 1 else 0) \<and> sl_workers s \<le> mx"

interpretation slot: inductive_invariant slot_init "slot_step mx" "slot_inv mx"
  by unfold_locales (auto simp: slot_init_def slot_inv_def fetch_add_def fetch_sub_def elim!: slot_step.cases)


text \<open>
  C34: the cap on connections holds and is used up. However arrivals and ends of connections interleave on
  the shared counter, no more than the configured number of workers run at once, a new connection is
  refused only while exactly that many do, and the counter never drifts: it returns to the number of workers.
\<close>

theorem connection_cap:
  assumes "reach slot_init (slot_step mx) s"
  shows "sl_workers s \<le> mx \<and> sl_live s = sl_workers s + (if sl_probing s then 1 else 0) \<and>
    (\<forall>t. slot_step mx s t \<and> sl_probing t \<and> \<not> sl_probing s \<longrightarrow> sl_workers s = mx) \<and>
    (\<not> sl_probing s \<and> sl_workers s < mx \<longrightarrow> (\<exists>t. slot_step mx s t \<and> sl_workers t = sl_workers s + 1))"
proof -
  have inv: "sl_live s = sl_workers s + (if sl_probing s then 1 else 0)" "sl_workers s \<le> mx"
    using slot.reach_inv [OF assms] by (simp_all add: slot_inv_def)
  have "sl_workers s = mx" if "slot_step mx s t" "sl_probing t" "\<not> sl_probing s" for t
    using that(1) by cases (use that inv in \<open>auto simp: fetch_add_def\<close>)
  moreover have "\<exists>t. slot_step mx s t \<and> sl_workers t = sl_workers s + 1" if "\<not> sl_probing s" "sl_workers s < mx"
    using that inv sl_accept [of s "sl_live s" "sl_live s + 1" mx]
    by (intro exI [of _ "s\<lparr>sl_live := sl_live s + 1, sl_workers := sl_workers s + 1\<rparr>"]) (simp add: fetch_add_def)
  ultimately show ?thesis using inv by blast
qed

section \<open>What the server refuses to start with\<close>

lemma bindS_Inr: "bindS r f = Inr y \<longleftrightarrow> (\<exists>x. r = Inr x \<and> f x = Inr y)"
  by (auto simp: bindS_def split: sum.splits)

lemma auth_of_Inr:
  "auth_of env args = Inr a \<Longrightarrow>
   (\<exists>t. a = Required t \<and> t \<noteq> [] \<and> hm_get env ''SBX_TOKEN'' = Some t) \<or>
   (a = DisabledForDevelopment \<and> ''--allow-no-auth'' \<in> set args \<and> (hm_get env ''SBX_TOKEN'' \<in> {None, Some []}))"
  by (auto simp: auth_of_def split: option.splits if_splits)

lemma start_server_Inr:
  assumes "start_server K bind env args s = Inr (cf, w)"
  obtains reserved where "parse_config env args = Inr cf"
    and "\<not> (cf_host_mode cf \<and> k_abi K < cf_min_abi cf \<and> \<not> cf_allow_unconfined cf)"
    and "w_auth w = cf_auth cf" "w_host_mode w = cf_host_mode cf"
    and "w_sandboxes w = \<lparr>rg_map = [], rg_capacity = cf_capacity cf, rg_reserved = 0,
      rg_allow_unconfined = cf_allow_unconfined cf, rg_uids = with_reserved reserved, rg_deleted = []\<rparr>"
proof -
  from assms obtain cf0 where cf0: "parse_config env args = Inr cf0"
    by (auto simp: start_server_def bindS_def split: sum.splits)
  obtain x s1 where x: "open_server K bind cf0 s = (x, s1)" by fastforce
  obtain y s2 where y: "pin_system_dirs K cf0 s1 = (y, s2)" by fastforce
  from assms x y obtain t0 t1 reg rules where
    p: "parse_config env args = Inr cf" and o: "open_server K bind cf s = (Inr (t0, t1, reg), s1)" and
    abi: "\<not> (cf_host_mode cf \<and> k_abi K < cf_min_abi cf \<and> \<not> cf_allow_unconfined cf)" and
    w: "w = \<lparr>w_os = s2, w_auth = cf_auth cf, w_started_at_ms = t0, w_last_activity_ms = t1,
       w_procs = \<lparr>pg_procs = [], pg_seq = 0, pg_active = 0\<rparr>, w_sandboxes = reg, w_host_mode = cf_host_mode cf,
       w_handles = [], w_owned = [], w_rules = rules\<rparr>"
    by (cases x; cases y) (auto simp: start_server_def bindS_def cf0 split: if_splits)
  obtain reserved where reg: "reg = \<lparr>rg_map = [], rg_capacity = cf_capacity cf, rg_reserved = 0,
      rg_allow_unconfined = cf_allow_unconfined cf, rg_uids = with_reserved reserved, rg_deleted = []\<rparr>"
    using o by (auto simp: open_server_def thenE_def registry_new_def bindE_Inr returnE_def)
  show thesis by (rule that [of reserved]) (use p abi in \<open>simp_all add: w reg\<close>)
qed

lemma start_host_init:
  assumes "start_server K bind env args s = Inr (cf, w)" and "set ts \<subseteq> {Idle}"
  shows "host_init (w, ts)"
  by (rule start_server_Inr [OF assms(1)]) (use assms(2) in \<open>auto simp: host_init_def\<close>)

text \<open>A numeric variable of the environment and the value in use: what is set must parse to it, what is unset has the default.\<close>

definition number_in_use :: "(string, string) hashmap \<Rightarrow> string \<Rightarrow> (string \<Rightarrow> 'a option) \<Rightarrow> 'a \<Rightarrow> 'a \<Rightarrow> bool" where
  "number_in_use env name parse dflt v \<longleftrightarrow>
     (case hm_get env name of None \<Rightarrow> v = dflt | Some raw \<Rightarrow> parse raw = Some v)"

lemma env_number_Inr: "env_number name parse dflt env = Inr v \<longleftrightarrow> number_in_use env name parse dflt v"
  by (auto simp: env_number_def number_in_use_def split: option.splits)

lemma parse_config_Inr:
  assumes "parse_config env args = Inr cf"
  shows "auth_of env args = Inr (cf_auth cf)"
    "number_in_use env ''SBX_PORT'' parse_u16 8000 (cf_port cf)"
    "case hm_get env ''SBX_IDLE_TIMEOUT'' of None \<Rightarrow> cf_idle_timeout_secs cf = None
       | Some raw \<Rightarrow> parse_u64 raw \<noteq> None \<and> cf_idle_timeout_secs cf = parse_u64 raw"
    "number_in_use env ''SBX_CAPACITY'' parse_usize 64 (cf_capacity cf)" "1 \<le> cf_capacity cf"
    "number_in_use env ''SBX_MAX_CONNECTIONS'' parse_usize 512 (cf_max_connections cf)" "1 \<le> cf_max_connections cf"
    "number_in_use env ''SBX_MIN_LANDLOCK_ABI'' parse_i32 6 (cf_min_abi cf)"
    "cf_host_mode cf \<longleftrightarrow> hm_get env ''SBX_HOST_MODE'' = Some ''1''"
    "cf_allow_unconfined cf \<longleftrightarrow> ''--allow-unconfined'' \<in> set args"
proof -
  let ?idle = "case hm_get env ''SBX_IDLE_TIMEOUT'' of None \<Rightarrow> Inr None
    | Some _ \<Rightarrow> bindS (env_number ''SBX_IDLE_TIMEOUT'' parse_u64 0 env) (\<lambda>n. Inr (Some n))"
  from assms obtain port auth idle capacity max_connections min_abi where
    n: "env_number ''SBX_PORT'' parse_u16 8000 env = Inr port" "auth_of env args = Inr auth" "?idle = Inr idle"
      "env_number ''SBX_CAPACITY'' parse_usize 64 env = Inr capacity" "capacity \<noteq> 0"
      "env_number ''SBX_MAX_CONNECTIONS'' parse_usize 512 env = Inr max_connections" "max_connections \<noteq> 0"
      "env_number ''SBX_MIN_LANDLOCK_ABI'' parse_i32 FULL_ABI env = Inr min_abi"
    and cf: "cf = \<lparr>cf_port = port, cf_auth = auth, cf_idle_timeout_secs = idle, cf_capacity = capacity,
      cf_host_mode = (hm_get env ''SBX_HOST_MODE'' = Some ''1''), cf_max_connections = max_connections,
      cf_allow_unconfined = (''--allow-unconfined'' \<in> set args), cf_min_abi = min_abi\<rparr>"
    unfolding parse_config_def bindS_Inr [where y = cf] Let_def
    by (elim exE conjE) (simp add: bindS_Inr split: if_split_asm, blast)
  show "case hm_get env ''SBX_IDLE_TIMEOUT'' of None \<Rightarrow> cf_idle_timeout_secs cf = None
       | Some raw \<Rightarrow> parse_u64 raw \<noteq> None \<and> cf_idle_timeout_secs cf = parse_u64 raw"
    using n(3) by (cases "hm_get env ''SBX_IDLE_TIMEOUT''") (auto simp: cf bindS_Inr env_number_Inr number_in_use_def)
  show "auth_of env args = Inr (cf_auth cf)"
    "number_in_use env ''SBX_PORT'' parse_u16 8000 (cf_port cf)"
    "number_in_use env ''SBX_CAPACITY'' parse_usize 64 (cf_capacity cf)" "1 \<le> cf_capacity cf"
    "number_in_use env ''SBX_MAX_CONNECTIONS'' parse_usize 512 (cf_max_connections cf)" "1 \<le> cf_max_connections cf"
    "number_in_use env ''SBX_MIN_LANDLOCK_ABI'' parse_i32 6 (cf_min_abi cf)"
    "cf_host_mode cf \<longleftrightarrow> hm_get env ''SBX_HOST_MODE'' = Some ''1''"
    "cf_allow_unconfined cf \<longleftrightarrow> ''--allow-unconfined'' \<in> set args"
    using n by (simp_all add: cf env_number_Inr FULL_ABI_def)
qed

text \<open>
  C24: the server starts only in a state it can answer for. If it starts, it requires the
  configured non-empty token, or it was started with \<open>--allow-no-auth\<close> and no token. Each of the five numeric
  variables has the value it is set to, or the documented default if it is unset (port 8000, no idle timeout, 64 sandboxes,
  512 connections, Landlock version 6): one that is set and does not parse stops the server, as does a capacity or a
  connection cap of zero. In host mode, which only \<open>SBX_HOST_MODE=1\<close> switches on, the kernel's Landlock has at least the version that number asks
  for unless \<open>--allow-unconfined\<close> was given. No other variable switches authentication or confinement off. The first
  state has no sandboxes, no processes and nothing reserved.
\<close>

theorem start_fails_closed:
  assumes "start_server K bind env args s = Inr (cf, w)"
  shows "(case w_auth w of
       Required t \<Rightarrow> t \<noteq> [] \<and> hm_get env ''SBX_TOKEN'' = Some t
     | DisabledForDevelopment \<Rightarrow> ''--allow-no-auth'' \<in> set args \<and> hm_get env ''SBX_TOKEN'' \<in> {None, Some []}) \<and>
    number_in_use env ''SBX_PORT'' parse_u16 8000 (cf_port cf) \<and>
    (case hm_get env ''SBX_IDLE_TIMEOUT'' of None \<Rightarrow> cf_idle_timeout_secs cf = None
       | Some raw \<Rightarrow> parse_u64 raw \<noteq> None \<and> cf_idle_timeout_secs cf = parse_u64 raw) \<and>
    number_in_use env ''SBX_CAPACITY'' parse_usize 64 (rg_capacity (w_sandboxes w)) \<and> 1 \<le> rg_capacity (w_sandboxes w) \<and>
    number_in_use env ''SBX_MAX_CONNECTIONS'' parse_usize 512 (cf_max_connections cf) \<and> 1 \<le> cf_max_connections cf \<and>
    number_in_use env ''SBX_MIN_LANDLOCK_ABI'' parse_i32 6 (cf_min_abi cf) \<and>
    (w_host_mode w \<longleftrightarrow> hm_get env ''SBX_HOST_MODE'' = Some ''1'') \<and>
    (w_host_mode w \<and> ''--allow-unconfined'' \<notin> set args \<longrightarrow> cf_min_abi cf \<le> k_abi K) \<and>
    (rg_allow_unconfined (w_sandboxes w) \<longleftrightarrow> ''--allow-unconfined'' \<in> set args) \<and>
    host_init (w, [])"
proof -
  obtain reserved where p: "parse_config env args = Inr cf"
    and abi: "\<not> (cf_host_mode cf \<and> k_abi K < cf_min_abi cf \<and> \<not> cf_allow_unconfined cf)"
    and w: "w_auth w = cf_auth cf" "w_host_mode w = cf_host_mode cf"
    and reg: "w_sandboxes w = \<lparr>rg_map = [], rg_capacity = cf_capacity cf, rg_reserved = 0,
      rg_allow_unconfined = cf_allow_unconfined cf, rg_uids = with_reserved reserved, rg_deleted = []\<rparr>"
    by (rule start_server_Inr [OF assms])
  note c = parse_config_Inr [OF p]
  have "case w_auth w of
       Required t \<Rightarrow> t \<noteq> [] \<and> hm_get env ''SBX_TOKEN'' = Some t
     | DisabledForDevelopment \<Rightarrow> ''--allow-no-auth'' \<in> set args \<and> hm_get env ''SBX_TOKEN'' \<in> {None, Some []}"
    using auth_of_Inr [OF c(1)] by (auto simp: w split: auth.split)
  moreover have "host_init (w, [])" using start_host_init [OF assms, of "[]"] by simp
  moreover have "w_host_mode w \<and> ''--allow-unconfined'' \<notin> set args \<longrightarrow> cf_min_abi cf \<le> k_abi K"
    using abi c(10) by (auto simp: w)
  ultimately show ?thesis using c(2-10) by (simp only: w reg registry.select_convs)
qed

section \<open>Whom the watchdog stops\<close>

lemma running_count_for_of: "running_count_for sid g = length (running_of (Some sid) g)"
  by (simp add: running_count_for_def running_of_def)

text \<open>What an eviction does not touch: the entry and the processes of \<open>sid\<close>, and the count of foreground commands.\<close>

definition spared :: "string \<Rightarrow> 'w world \<Rightarrow> 'w world \<Rightarrow> bool" where
  "spared sid w w' \<longleftrightarrow> others_same (\<lambda>owner. owner \<noteq> Some sid) w w' \<and> same_active w w'"

interpretation spa: frame_relation "spared sid"
  by unfold_locales (auto simp: spared_def same_active_def intro: oth.R_refl oth.R_trans)

lemma keeps_conj: "keeps R m \<Longrightarrow> keeps S m \<Longrightarrow> keeps (\<lambda>w w'. R w w' \<and> S w w') m"
  by (simp add: keeps_def)

lemma act_reg: "keeps same_active (on_reg f)"
  by (simp add: keeps_def on_reg_def same_active_def split: prod.split)

lemma spared_evict_one:
  assumes "s \<noteq> sid"
  shows "keeps (spared sid) (bindE (reg_delete K s) (\<lambda>_. on_procs (remove_for_sandbox s)))"
proof -
  have del: "keeps (spared sid) (reg_delete K s)"
    unfolding spared_def
  proof (rule keeps_conj)
    show "keeps (others_same (\<lambda>owner. owner \<noteq> Some sid)) (reg_delete K s)" using assms by (intro others_delete) simp
    show "keeps same_active (reg_delete K s)"
      unfolding reg_delete_def try_os_def by (intro act_intros act_reg) (auto intro!: act_intros act_reg split: option.split)
  qed
  have rm: "keeps (spared sid) (on_procs (remove_for_sandbox s))"
    unfolding spared_def
  proof (rule keeps_conj)
    show "keeps (others_same (\<lambda>owner. owner \<noteq> Some sid)) (on_procs (remove_for_sandbox s))"
      using assms by (intro others_procs) (auto simp: remove_for_sandbox_def running_of_def intro!: filter_cong)
    show "keeps same_active (on_procs (remove_for_sandbox s))" by (intro act_procs) (simp add: remove_for_sandbox_def)
  qed
  show ?thesis by (intro spa.keeps_intros del rm)
qed

lemma evict_step: "evict_loop K (s # sids) w =
   (if running_count_for s (w_procs w) = 0 \<and> active_ops (w_procs w) = 0
    then thenE (bindE (reg_delete K s) (\<lambda>_. on_procs (remove_for_sandbox s))) (evict_loop K sids) w
    else evict_loop K sids w)"
  by (simp add: thenE_def bindE_assoc)

lemma spared_same:
  "spared sid w w' \<Longrightarrow> running_count_for sid (w_procs w') = running_count_for sid (w_procs w) \<and>
     active_ops (w_procs w') = active_ops (w_procs w) \<and> reg_get (w_sandboxes w') sid = reg_get (w_sandboxes w) sid"
  by (simp add: spared_def others_same_def same_active_def running_count_for_of active_ops_def)

lemma evict_spares:
  "running_count_for sid (w_procs w) \<noteq> 0 \<or> active_ops (w_procs w) \<noteq> 0 \<or> sid \<notin> set sids \<Longrightarrow>
   spared sid w (snd (evict_loop K sids w))"
proof (induction sids arbitrary: w)
  case (Cons s sids)
  let ?m = "bindE (reg_delete K s) (\<lambda>_. on_procs (remove_for_sandbox s))"
  show ?case
  proof (cases "running_count_for s (w_procs w) = 0 \<and> active_ops (w_procs w) = 0")
    case True
    with Cons.prems have ne: "s \<noteq> sid" by auto
    obtain r w1 where w1: "?m w = (r, w1)" by fastforce
    with keepsD [OF spared_evict_one [OF ne], of w] have sp: "spared sid w w1" by (metis snd_conv)
    then have "spared sid w1 (snd (evict_loop K sids w1))"
      using Cons.prems spared_same [OF sp] by (intro Cons.IH) auto
    with sp w1 True show ?thesis
      unfolding evict_step by (cases r) (auto simp: thenE_def bindE_run intro: spa.R_trans)
  next
    case False
    with Cons show ?thesis unfolding evict_step by auto
  qed
qed (simp add: returnE_def spa.R_refl)


text \<open>Gone is gone: no eviction brings an entry back.\<close>

definition stays_gone :: "string \<Rightarrow> 'w world \<Rightarrow> 'w world \<Rightarrow> bool" where
  "stays_gone sid w w' \<longleftrightarrow> (reg_get (w_sandboxes w) sid = None \<longrightarrow> reg_get (w_sandboxes w') sid = None)"

interpretation gone: frame_relation "stays_gone sid"
  by unfold_locales (auto simp: stays_gone_def)

lemma gone_reg:
  "(\<And>g. reg_get g sid = None \<Longrightarrow> reg_get (snd (f g)) sid = None) \<Longrightarrow> keeps (stays_gone sid) (on_reg f)"
  by (auto simp: keeps_def stays_gone_def on_reg_def split: prod.split) (metis snd_conv)

lemma gone_os: "keeps (stays_gone sid) (on_os m)" "keeps (stays_gone sid) (on_procs f)"
  by (simp_all add: keeps_def stays_gone_def on_os_def on_procs_def split: prod.split)

lemma gone_fields:
  "keeps (stays_gone sid) (on_reg (remove_entry s))" "keeps (stays_gone sid) (on_reg (mark_deleted e))"
  "keeps (stays_gone sid) (on_reg unreserve)" "keeps (stays_gone sid) (on_reg (quarantine_uid u))"
  "keeps (stays_gone sid) (on_reg (release_uid u))"
  by (intro gone_reg; auto simp: remove_entry_def mark_deleted_def unreserve_def quarantine_uid_def release_uid_def reg_get_def
      hm.get_remove)+

lemma gone_delete: "keeps (stays_gone sid) (reg_delete K s)"
  unfolding reg_delete_def try_os_def
  by (intro gone.keeps_intros gone_fields) (auto intro!: gone.keeps_intros gone_fields gone_os split: option.split)

lemma gone_evict: "keeps (stays_gone sid) (evict_loop K sids)"
proof (induction sids)
  case (Cons s sids)
  have "keeps (stays_gone sid) (bindE (reg_delete K s) (\<lambda>_. thenE (on_procs (remove_for_sandbox s)) (evict_loop K sids)))"
    by (intro gone.keeps_intros gone_delete gone_os Cons)
  with Cons show ?case by (simp add: gone.keeps_if_state)
qed (simp add: gone.keeps_returnE)

lemma delete_removes: "reg_get (w_sandboxes (snd (reg_delete K sid w))) sid = None"
proof -
  have "\<exists>k. reg_delete K sid = bindE (on_reg (remove_entry sid)) k \<and> (\<forall>r. keeps (stays_gone sid) (k r))"
    unfolding reg_delete_def try_os_def
    by (intro exI conjI allI, rule refl) (auto intro!: gone.keeps_intros gone_fields gone_os split: option.split)
  then obtain k where k: "reg_delete K sid = bindE (on_reg (remove_entry sid)) k" "\<And>r. keeps (stays_gone sid) (k r)" by blast
  let ?w = "w\<lparr>w_sandboxes := snd (remove_entry sid (w_sandboxes w))\<rparr>"
  have "reg_delete K sid w = k (fst (remove_entry sid (w_sandboxes w))) ?w"
    by (simp add: k(1) on_reg_def bindE_def split: prod.split)
  with keepsD [OF k(2), of "?w"] show ?thesis
    by (simp add: stays_gone_def remove_entry_def reg_get_def hm.get_remove)
qed

lemma evict_complete:
  assumes "evict_loop K sids w = (Inr u, w')" and "sid \<in> set sids"
    and "running_count_for sid (w_procs w) = 0" "active_ops (w_procs w) = 0"
  shows "reg_get (w_sandboxes w') sid = None"
  using assms
proof (induction sids arbitrary: w)
  case (Cons s sids)
  let ?m = "bindE (reg_delete K s) (\<lambda>_. on_procs (remove_for_sandbox s))"
  show ?case
  proof (cases "running_count_for s (w_procs w) = 0 \<and> active_ops (w_procs w) = 0")
    case False
    with Cons show ?thesis unfolding evict_step by (metis set_ConsD)
  next
    case True
    with Cons.prems(1) obtain v w1 where w1: "?m w = (Inr v, w1)" and rest: "evict_loop K sids w1 = (Inr u, w')"
      unfolding evict_step by (auto simp: thenE_def bindE_Inr)
    show ?thesis
    proof (cases "s = sid")
      case True
      from w1 obtain x w0 where d: "reg_delete K s w = (Inr x, w0)" and p: "on_procs (remove_for_sandbox s) w0 = (Inr v, w1)"
        by (auto simp: bindE_Inr)
      from p have "w_sandboxes w1 = w_sandboxes w0" by (auto simp: on_procs_def remove_for_sandbox_def)
      with d True delete_removes [of K sid w] have "reg_get (w_sandboxes w1) sid = None" by simp
      with keepsD [OF gone_evict [of sid K sids], of w1] rest show ?thesis by (simp add: stays_gone_def)
    next
      case False
      then have sp: "spared sid w w1" using keepsD [OF spared_evict_one [of s sid K], of w] w1 by simp
      with Cons.IH [OF rest] Cons.prems(2-4) False show ?thesis by (simp add: spared_same)
    qed
  qed
qed simp

lemma idle_candidates_get:
  assumes "hm_ok (rg_map g)" and "reg_keyed g"
  shows "sid \<in> set (idle_candidates g now) \<longleftrightarrow> (\<exists>e. reg_get g sid = Some e \<and> is_idle now e)"
proof -
  have mem: "(k, e) \<in> set (rg_map g) \<longleftrightarrow> reg_get g k = Some e" for k e
    using assms(1) by (simp add: hm_ok_def reg_get_def hm_get_def)
  show ?thesis
  proof
    assume "sid \<in> set (idle_candidates g now)"
    then obtain k e where "(k, e) \<in> set (rg_map g)" "is_idle now e" "e_id e = sid"
      by (auto simp: idle_candidates_def)
    with mem assms(2) show "\<exists>e. reg_get g sid = Some e \<and> is_idle now e" by (auto simp: reg_keyed_def)
  next
    assume "\<exists>e. reg_get g sid = Some e \<and> is_idle now e"
    then obtain e where "(sid, e) \<in> set (rg_map g)" "is_idle now e" "e_id e = sid"
      using mem assms(2) by (auto simp: reg_keyed_def)
    then show "sid \<in> set (idle_candidates g now)" by (force simp: idle_candidates_def)
  qed
qed

text \<open>
  C23: the watchdog stops idle sandboxes and nothing else. In host mode a round removes no sandbox
  that has a running background process, none while a foreground command runs, and none that has not outlived its own idle timeout; it removes every
  other idle one; and it ends the server only when no sandbox is left and the host has been empty for longer than the host's timeout. In dedicated mode it ends the
  server only when nothing runs and the last activity lies further back than the timeout, and changes nothing otherwise.
\<close>

theorem watchdog_exact:
  assumes "watchdog_round K idle empty_since w = (Inr r, w')" and "hm_ok (rg_map (w_sandboxes w))" and "reg_keyed (w_sandboxes w)"
    and "k_now_ms K (kst (w_os w)) = (now, k)"
  shows "if w_host_mode w then
      (\<forall>sid e. reg_get (w_sandboxes w) sid = Some e \<longrightarrow>
         (if running_count_for sid (w_procs w) = 0 \<and> active_ops (w_procs w) = 0 \<and> is_idle now e
          then reg_get (w_sandboxes w') sid = None
          else reg_get (w_sandboxes w') sid = Some e \<and> running_of (Some sid) (w_procs w') = running_of (Some sid) (w_procs w))) \<and>
      (r = None \<longrightarrow> reg_count (w_sandboxes w') = 0 \<and> sint (idle_ms idle) < sint (now - empty_since))
    else w' = w\<lparr>w_os := (w_os w)\<lparr>kst := k\<rparr>\<rparr> \<and>
      (r = None \<longleftrightarrow> running_count (w_procs w) = 0 \<and> active_ops (w_procs w) = 0 \<and>
         sint (idle_ms idle) < sint (now - w_last_activity_ms w))"
proof -
  let ?w = "w\<lparr>w_os := (w_os w)\<lparr>kst := k\<rparr>\<rparr>"
  have round: "(if w_host_mode w then watchdog_host K idle empty_since now ?w else watchdog_dedicated idle empty_since now ?w) = (Inr r, w')"
    using assms(1,4) by (simp add: watchdog_round_def bindE_def on_os_def now_ms_def)
  show ?thesis
  proof (cases "w_host_mode w")
    case False
    with round show ?thesis by (auto simp: watchdog_dedicated_def Let_def split: if_splits)
  next
    case True
    let ?sids = "idle_candidates (w_sandboxes w) now"
    obtain x w1 where x: "evict_loop K ?sids ?w = (x, w1)" by fastforce
    with round True obtain u where "x = Inr u" by (cases x) (auto simp: watchdog_host_def thenE_def bindE_def)
    with x have ev: "evict_loop K ?sids ?w = (Inr u, w1)" by simp
    with round True have "w' = w1" "r = None \<Longrightarrow> reg_count (w_sandboxes w1) = 0 \<and> sint (idle_ms idle) < sint (now - empty_since)"
      by (auto simp: watchdog_host_def thenE_def bindE_def split: if_splits)
    moreover have "reg_get (w_sandboxes w1) sid = Some e \<and> running_of (Some sid) (w_procs w1) = running_of (Some sid) (w_procs w)"
      if "reg_get (w_sandboxes w) sid = Some e" "\<not> (running_count_for sid (w_procs w) = 0 \<and> active_ops (w_procs w) = 0 \<and> is_idle now e)" for sid e
    proof -
      have "spared sid ?w w1"
        using evict_spares [of sid ?w ?sids K] ev that idle_candidates_get [OF assms(2,3)] by auto
      with that(1) show ?thesis by (simp add: spared_def others_same_def)
    qed
    moreover have "reg_get (w_sandboxes w1) sid = None"
      if "reg_get (w_sandboxes w) sid = Some e" "running_count_for sid (w_procs w) = 0" "active_ops (w_procs w) = 0" "is_idle now e" for sid e
      using evict_complete [OF ev] that idle_candidates_get [OF assms(2,3)] by auto
    ultimately show ?thesis using True by auto
  qed
qed

section \<open>Witnesses\<close>

theorem connection_cap_witness:
  "\<exists>s t. reach slot_init (slot_step 1) s \<and> slot_step 1 s t \<and> sl_probing t \<and> sl_workers s = 1"
proof -
  let ?s0 = "\<lparr>sl_live = 0, sl_workers = 0, sl_probing = False, sl_refused = 0\<rparr>"
  let ?s1 = "?s0\<lparr>sl_live := 1, sl_workers := sl_workers ?s0 + 1\<rparr>"
  let ?t = "?s1\<lparr>sl_live := 2, sl_probing := True\<rparr>"
  have "reach slot_init (slot_step 1) ?s0" by (rule reach_init) (simp add: slot_init_def)
  moreover have "slot_step 1 ?s0 ?s1" using sl_accept [of ?s0 0 1 1] by (simp add: fetch_add_def)
  ultimately have r: "reach slot_init (slot_step 1) ?s1" by (rule reach_step)
  moreover have st: "slot_step 1 ?s1 ?t" using sl_over [of ?s1 1 2 1] by (simp add: fetch_add_def)
  moreover have "sl_probing ?t" "\<not> sl_probing ?s1" by simp_all
  ultimately show ?thesis using connection_cap [OF r] by blast
qed

lemma demo_start:
  "\<exists>cf w. start_server demo_sb (\<lambda>_. returnE ()) [(''SBX_TOKEN'', ''s''), (''SBX_CAPACITY'', ''7'')] [] \<lparr>kst = 4, log = []\<rparr> = Inr (cf, w)"
  by (simp add: start_server_def parse_config_def bindS_def env_number_def auth_of_def hm_get_def str_eval Let_def open_server_def
      pin_system_dirs_def registry_new_def uids_already_in_use_def now_ms_def raw_os_def demo_sb_simps demo_simps path_call_def)

theorem start_fails_closed_witness:
  "\<exists>cf w. start_server demo_sb (\<lambda>_. returnE ()) [(''SBX_TOKEN'', ''s''), (''SBX_CAPACITY'', ''7'')] [] \<lparr>kst = 4, log = []\<rparr> = Inr (cf, w) \<and>
     rg_capacity (w_sandboxes w) = 7 \<and> cf_max_connections cf = 512 \<and> cf_min_abi cf = 6"
proof -
  obtain cf w where w: "start_server demo_sb (\<lambda>_. returnE ()) [(''SBX_TOKEN'', ''s''), (''SBX_CAPACITY'', ''7'')] [] \<lparr>kst = 4, log = []\<rparr> = Inr (cf, w)"
    using demo_start by blast
  have "parse_usize ''7'' = Some 7" by (simp add: str_eval)
  with start_fails_closed [OF w] w show ?thesis by (auto simp: hm_get_def number_in_use_def)
qed

theorem watchdog_exact_witness:
  "\<exists>r w'. watchdog_round demo_sb 1 0 (demo_world [demo_sandbox] 2) = (Inr r, w') \<and>
     reg_get (w_sandboxes w') ''ab'' = Some demo_sandbox \<and> r \<noteq> None"
proof -
  let ?w = "demo_world [demo_sandbox] 2"
  have ni: "\<not> is_idle 5 demo_sandbox" by (simp add: is_idle_def)
  have get: "reg_get (w_sandboxes ?w) ''ab'' = Some demo_sandbox" by (simp add: demo_world_def demo_reg_def reg_get_def hm_get_def)
  have "idle_candidates (w_sandboxes ?w) 5 = []" using ni by (simp add: idle_candidates_def demo_world_def demo_reg_def)
  then have "\<exists>r w'. watchdog_round demo_sb 1 0 ?w = (Inr r, w')"
    by (simp add: watchdog_round_def bindE_def on_os_def now_ms_def demo_sb_simps watchdog_host_def thenE_def returnE_def demo_world_def)
  then obtain r w' where r: "watchdog_round demo_sb 1 0 ?w = (Inr r, w')" by blast
  have ok: "hm_ok (rg_map (w_sandboxes ?w))" "reg_keyed (w_sandboxes ?w)"
    by (simp_all add: hm_ok_def reg_keyed_def reg_get_def hm_get_def demo_world_def demo_reg_def)
  have now: "k_now_ms demo_sb (kst (w_os ?w)) = (5, 9)" by (simp add: demo_sb_simps demo_world_def)
  have host: "w_host_mode ?w" by (simp add: demo_world_def)
  from watchdog_exact [OF r ok now] host ni get
  have "reg_get (w_sandboxes w') ''ab'' = Some demo_sandbox" "r = None \<Longrightarrow> reg_count (w_sandboxes w') = 0" by auto
  moreover from this(1) have "reg_count (w_sandboxes w') \<noteq> 0" by (auto simp: reg_count_def reg_get_def hm_get_def)
  ultimately show ?thesis using r by auto
qed

end
