(* ===== verification/Framing.thy ===== *)
theory Framing
  imports Isolation
begin

text \<open>
  Where one request ends and the next begins. Each handler either leaves the connection's input alone or reads a part of the
  request's body and accounts for it in \<open>body_consumed\<close>, so that \<open>drain_body\<close> (\<open>src/http.rs\<close>) brings the connection of \<open>src/main.rs\<close> exactly behind the
  body. The bytes of a client that frames its messages by \<open>Content-Length\<close> are therefore cut into requests the way the client framed them, whatever the
  requests ask for; \<open>declares\<close> is that framing, read off the head without the server's parser.
\<close>

section \<open>Handlers that leave the input alone\<close>

definition same_in :: "'w conn \<Rightarrow> 'w conn \<Rightarrow> bool" where
  "same_in c d \<longleftrightarrow> c_rd d = c_rd c \<and> c_req d = c_req c"

interpretation sin: frame_relation same_in
  by unfold_locales (auto simp: same_in_def)

interpretation sif: files_frame same_in
  by unfold_locales (auto simp: same_in_def)

interpretation sic: conn_base same_in "\<lambda>_. True"
  by unfold_locales (auto simp: same_in_def)

lemma sin_os: "keeps same_in (os m)"
  by (simp add: keeps_def same_in_def os_def split: prod.split)

lemma sin_resp: "keeps same_in (resp m)"
  by (simp add: keeps_def same_in_def resp_def split: prod.split)

lemmas sin_intros = sin.keeps_intros sin_os sin_resp

lemma sin_on_files: "keeps same_in m \<Longrightarrow> keeps same_in (on_files m)"
  by (auto simp: keeps_def same_in_def on_files_def split: prod.split) (metis conn.select_convs snd_conv)+

section \<open>Handlers that read the body\<close>

text \<open>What is left of the body lies ahead, and \<open>rest\<close> behind it.\<close>

definition before_rest :: "string \<Rightarrow> 'w conn \<Rightarrow> bool" where
  "before_rest rest c \<longleftrightarrow> rd_clean (c_rd c) \<and> body_consumed (c_req c) \<le> content_length (c_req c) \<and>
     (\<exists>bs. rd_bytes (c_rd c) = bs @ rest \<and> length bs = content_length (c_req c) - body_consumed (c_req c))"

text \<open>If it succeeds on a request whose body is unread, it accounts for what it reads.\<close>

definition accounts :: "('w conn, 'a) io \<Rightarrow> bool" where
  "accounts m \<longleftrightarrow> (\<forall>c x d rest. m c = (Inr x, d) \<longrightarrow> body_consumed (c_req c) = 0 \<longrightarrow> before_rest rest c \<longrightarrow>
     before_rest rest d)"

lemma accountsI:
  "(\<And>c x d rest. m c = (Inr x, d) \<Longrightarrow> body_consumed (c_req c) = 0 \<Longrightarrow> before_rest rest c \<Longrightarrow> before_rest rest d) \<Longrightarrow> accounts m"
  unfolding accounts_def by blast

lemma accountsD:
  "accounts m \<Longrightarrow> m c = (Inr x, d) \<Longrightarrow> body_consumed (c_req c) = 0 \<Longrightarrow> before_rest rest c \<Longrightarrow> before_rest rest d"
  unfolding accounts_def by blast

lemma keeps_same: "keeps same_in m \<Longrightarrow> m c = (x, d) \<Longrightarrow> before_rest rest d = before_rest rest c \<and> c_req d = c_req c"
  using keepsD [of same_in m c] by (simp add: same_in_def before_rest_def)

lemma accounts_keeps: "keeps same_in m \<Longrightarrow> accounts m"
  by (rule accountsI) (simp add: keeps_same)

lemma accounts_before: "keeps same_in m \<Longrightarrow> (\<And>x. accounts (f x)) \<Longrightarrow> accounts (bindE m f)"
  by (rule accountsI) (auto simp: bindE_Inr, metis accountsD keeps_same)

lemma accounts_after: "accounts m \<Longrightarrow> (\<And>x. keeps same_in (f x)) \<Longrightarrow> accounts (bindE m f)"
  by (rule accountsI) (auto simp: bindE_Inr, metis accountsD keeps_same)

lemma accounts_catch:
  assumes "keeps same_in m" and "\<And>x. accounts (f x)" and "\<And>e. accounts (h e)"
  shows "accounts (catchE m f h)"
proof (rule accountsI)
  fix c x d rest
  assume run: "catchE m f h c = (Inr x, d)" and fresh: "body_consumed (c_req c) = 0" and "before_rest rest c"
  obtain y c1 where y: "m c = (y, c1)" by fastforce
  note same = keeps_same [OF assms(1) y, of rest]
  show "before_rest rest d"
    using run y same fresh \<open>before_rest rest c\<close> accountsD [OF assms(2), of _ c1 x d rest] accountsD [OF assms(3), of _ c1 x d rest]
    by (cases y) (auto simp: catchE_def)
qed

lemma accounts_on_req: "(\<And>q. accounts (g q)) \<Longrightarrow> accounts (on_req g)"
  by (simp add: accounts_def on_req_def)

lemma accounts_on_files: "accounts m \<Longrightarrow> accounts (on_files m)"
  by (auto simp: accounts_def on_files_def before_rest_def split: prod.splits) (metis conn.select_convs)+

lemma accounts_read_body: "accounts (read_body n)"
proof -
  have "before_rest rest d"
    if b: "read_body n c = (Inr x, d)" "body_consumed (c_req c) = 0" "before_rest rest c" for c x d rest
  proof -
    from that(3) obtain bs where bs: "rd_clean (c_rd c)" "rd_bytes (c_rd c) = bs @ rest" "length bs = content_length (c_req c)"
      using b(2) by (auto simp: before_rest_def)
    with read_body_loop_ok [of "c_rd c" "[]" "content_length (c_req c)"] b(1) show ?thesis
      by (auto simp: read_body_def before_rest_def split: if_splits)
  qed
  then show ?thesis by (rule accountsI)
qed

lemma stream_loop_account:
  "stream_loop f n k r w = (Inr u, k', r', w') \<Longrightarrow> rd_clean r \<Longrightarrow> k' = k + n \<and> rd_clean r' \<and> rd_bytes r' = drop n (rd_bytes r)"
proof (induction f n k r w arbitrary: u k' r' w' rule: stream_loop.induct)
  case (1 f n k r w)
  show ?case
  proof (cases "0 < n")
    case True
    obtain bs r1 where rd: "rd_read (min (64 * 1024) n) r = (Inr bs, r1)" "rd_clean r1" "rd_bytes r = bs @ rd_bytes r1"
      by (rule rd_read_clean [OF 1(3), of "min (64 * 1024) n"]) (use True in auto)
    from 1(2) True rd obtain w1 where w1: "bs \<noteq> []" "f bs w = (Inr (), w1)" "stream_loop f (n - length bs) (k + length bs) r1 w1 = (Inr u, k', r', w')"
      by (auto simp: stream_loop.simps [of f n k r w] split: if_splits prod.splits sum.splits)
    have "length bs \<le> n" using rd_read_length [OF rd(1)] by simp
    with 1(1) [OF True rd(1) [symmetric] refl w1(1) w1(2) [symmetric] refl w1(3) rd(2)] rd(3) show ?thesis by simp
  next
    case False
    with 1(2,3) show ?thesis by (simp add: stream_loop.simps [of f n k r w])
  qed
qed

lemma accounts_stream_body: "accounts (stream_body f)"
proof (rule accountsI)
  fix c x d rest
  assume run: "stream_body f c = (Inr x, d)" and "before_rest rest c"
  then obtain k r w where l: "stream_loop f (content_length (c_req c) - body_consumed (c_req c)) (body_consumed (c_req c)) (c_rd c) (c_os c) = (Inr (), k, r, w)"
    and d: "d = c\<lparr>c_req := (c_req c)\<lparr>body_consumed := k\<rparr>, c_rd := r, c_os := w\<rparr>"
    by (auto simp: stream_body_def Let_def split: prod.splits sum.splits)
  with stream_loop_account [OF l] \<open>before_rest rest c\<close> show "before_rest rest d" by (auto simp: before_rest_def)
qed

lemma accounts_write: "accounts (handle_write C K sandbox)"
  unfolding handle_write_def Let_def
  by (rule accounts_before [OF sif.keeps_require_path])
     (auto split: option.split intro!: accounts_on_req accounts_catch accounts_after [OF accounts_stream_body] accounts_keeps [OF sin_resp]
       accounts_keeps [OF sin.keeps_returnE] sin_intros)

lemma accounts_with_spec: "(\<And>spec. keeps same_in (f spec)) \<Longrightarrow> accounts (with_spec C f)"
  unfolding with_spec_def by (rule accounts_after [OF accounts_read_body]) (auto split: sum.split intro!: sin_intros)

lemma accounts_exec: "accounts (handle_exec C K rx sandbox)" "accounts (handle_process_start C K sandbox)"
proof -
  have "keeps same_in (exec_stream C K rx pid)" for pid
    unfolding exec_stream_def by (intro sin_intros sic.keeps_stream_events)
  then show "accounts (handle_exec C K rx sandbox)" "accounts (handle_process_start C K sandbox)"
    unfolding handle_exec_def handle_process_start_def Let_def
    by (intro accounts_with_spec; auto split: sum.split intro!: sin_intros sic.keeps_with_op)+
qed

lemma accounts_create: "accounts (handle_create C K)"
proof -
  have created: "keeps same_in (bindE (os m) (\<lambda>out. case out of Created a b \<Rightarrow> resp (f a b) | CreateFailed e \<Rightarrow> resp (g e)))"
    for m :: "('a world, create_outcome) io" and f :: "json list \<Rightarrow> nat \<Rightarrow> (response_writer, unit) io" and g
    by (intro sin_intros) (auto split: create_outcome.split intro!: sin_intros)
  show ?thesis
    unfolding handle_create_def Let_def
    by (intro accounts_after [OF accounts_read_body]) (auto simp: keeps_def keepsD [OF created] keepsD [OF sin_resp])
qed

lemma same_delete_all: "keeps same_in (handle_delete_all C K)"
proof -
  have deleted: "keeps same_in (bindE (os m) (\<lambda>errors. if errors = [] then resp a else resp (f errors)))"
    for m :: "('a world, string list) io" and a :: "(response_writer, unit) io" and f
    by (intro sin_intros)
  show ?thesis by (simp add: keeps_def handle_delete_all_def Let_def keepsD [OF deleted])
qed

section \<open>The proxy\<close>

text \<open>The proxy takes the connection over or leaves the input alone; a connection it took over serves no further request.\<close>

definition framed :: "('w conn, 'a) io \<Rightarrow> bool" where
  "framed m \<longleftrightarrow> (\<forall>c x d rest. m c = (Inr x, d) \<and> \<not> hijacked (c_rw d) \<and> body_consumed (c_req c) = 0 \<and> before_rest rest c \<longrightarrow>
     before_rest rest d)"

lemma framedI:
  "(\<And>c x d rest. m c = (Inr x, d) \<Longrightarrow> \<not> hijacked (c_rw d) \<Longrightarrow> body_consumed (c_req c) = 0 \<Longrightarrow> before_rest rest c \<Longrightarrow> before_rest rest d) \<Longrightarrow>
   framed m"
  unfolding framed_def by blast

lemma framedD:
  "framed m \<Longrightarrow> m c = (Inr x, d) \<Longrightarrow> \<not> hijacked (c_rw d) \<Longrightarrow> body_consumed (c_req c) = 0 \<Longrightarrow> before_rest rest c \<Longrightarrow> before_rest rest d"
  unfolding framed_def by blast

lemma framed_accounts: "accounts m \<Longrightarrow> framed m"
  by (auto intro: framedI dest: accountsD)

lemma framed_keeps: "keeps same_in m \<Longrightarrow> framed m"
  by (intro framed_accounts accounts_keeps)

lemma framed_on_files: "framed m \<Longrightarrow> framed (on_files m)"
  by (rule framedI) (auto simp: on_files_def before_rest_def split: prod.splits dest!: framedD [where rest = rest for rest])

lemma framed_with_sandbox:
  assumes "\<And>e. framed (f e)"
  shows "framed (with_sandbox C sid f)"
proof (rule framedI)
  fix c d :: "'a world conn" and x rest
  assume run: "with_sandbox C sid f c = (Inr x, d)" and "\<not> hijacked (c_rw d)" "body_consumed (c_req c) = 0" "before_rest rest c"
  then show "before_rest rest d"
    using framedD [OF assms, of _ c x d rest] framedD [OF framed_keeps [OF sic.keeps_no_route(2)], of C sid c x d rest]
    by (cases "reg_get (w_sandboxes (c_os c)) sid") (simp_all add: with_sandbox_def)
qed

lemma tunnel_hijacked: "tunnel K ahead down head b c = (Inr u, d) \<Longrightarrow> hijacked (c_rw d) = hijacked (c_rw c)"
  by (auto simp: tunnel_def thenE_def bindE_Inr os_def resp_def same_flags_def split: prod.splits dest!: on_writer_flags)

lemma framed_proxy: "framed (handle_proxy C K ahead down sandbox segs)"
proof (cases "split_target segs")
  case None
  then show ?thesis by (simp add: handle_proxy_def framed_keeps sin_resp)
next
  case (Some pf)
  then obtain port fp where s: "split_target segs = Some (port, fp)" by (cases pf) auto
  show ?thesis
  proof (rule framedI)
    fix c x d rest
    assume run: "handle_proxy C K ahead down sandbox segs c = (Inr x, d)" and nh: "\<not> hijacked (c_rw d)" and b: "before_rest rest c"
    obtain y w where y: "connect_backend K sandbox port (c_os c) = (y, w)" by fastforce
    show "before_rest rest d"
    proof (cases y)
      case (Inl e)
      with run s y b show ?thesis
        by (auto simp: handle_proxy_def catchE_def os_def resp_def before_rest_def split: prod.splits)
    next
      case (Inr bk)
      with run s y have "hijacked (c_rw d)"
        by (auto simp: handle_proxy_def catchE_def os_def resp_def on_req_def Let_def thenE_def bindE_Inr hijack_def
            split: prod.splits dest!: tunnel_hijacked)
      with nh show ?thesis by simp
    qed
  qed
qed

lemma framed_dispatch: "framed (dispatch C K N meth segments)"
proof -
  have r: "framed (\<lambda>c. resp (m c) c)" for m :: "'a world conn \<Rightarrow> (response_writer, unit) io"
    by (rule framed_keeps) (simp add: keeps_def keepsD [OF sin_resp])
  note files = framed_on_files [OF framed_keeps [OF sif.keeps_files(1)]] framed_on_files [OF framed_keeps [OF sif.keeps_files(2)]]
    framed_on_files [OF framed_keeps [OF sif.keeps_files(3)]] framed_on_files [OF framed_keeps [OF sif.keeps_files(4)]]
    framed_on_files [OF framed_keeps [OF sif.keeps_files(5)]] framed_on_files [OF framed_accounts [OF accounts_write]] framed_on_files [OF framed_proxy]
  note all = framed_with_sandbox r files framed_keeps [OF sin_resp] framed_keeps [OF sic.keeps_no_route(1)] framed_accounts [OF accounts_exec(1)]
    framed_accounts [OF accounts_exec(2)] framed_keeps [OF sic.keeps_process_delete] framed_keeps [OF sic.keeps_delete_sandbox]
    framed_accounts [OF accounts_create] framed_keeps [OF same_delete_all]
  have "framed (dedicated_route C K N meth segments)"
    unfolding dedicated_route_def by (simp add: all)
  moreover have "framed (pool_route C K meth)"
    unfolding pool_route_def by (simp add: all)
  moreover have "framed (sandbox_route C K N meth sid tail)" for sid tail
    unfolding sandbox_route_def by (simp add: all)
  ultimately show ?thesis by (simp add: dispatch_def split: list.split)
qed

section \<open>Requests of a connection\<close>

lemma framed_before:
  assumes "keeps same_in m" and "\<And>x. framed (f x)"
  shows "framed (bindE m f)"
proof (rule framedI)
  fix c d x rest
  assume "bindE m f c = (Inr x, d)" and d: "\<not> hijacked (c_rw d)" and c: "body_consumed (c_req c) = 0" "before_rest rest c"
  then obtain y c1 where y: "m c = (Inr y, c1)" "f y c1 = (Inr x, d)" by (auto simp: bindE_Inr)
  with keeps_same [OF assms(1) y(1), of rest] c show "before_rest rest d" by (intro framedD [OF assms(2) y(2) d]) simp_all
qed

lemma framed_route: "framed (route C K N)"
proof (rule framedI)
  fix c d :: "'a world conn" and x rest
  assume run: "route C K N c = (Inr x, d)" and d: "\<not> hijacked (c_rw d)" and c: "body_consumed (c_req c) = 0" "before_rest rest c"
  have goal: "before_rest rest d" if "route C K N c = m c" "framed m" for m
    by (rule framedD [OF that(2) _ d c]) (use run that(1) in simp)
  have bind: "framed (bindE (os m) (\<lambda>j. resp (f j)))" for m :: "('a world, json) io" and f :: "json \<Rightarrow> (response_writer, unit) io"
    by (rule framed_keeps) (intro sin_intros)
  show "before_rest rest d"
  proof (cases "is_health (c_req c)")
    case True
    then have "route C K N c = (if \<not> authorized (c_os c) (c_req c) then resp (rw_json C 200 public_health)
        else bindE (os (authenticated_health K)) (\<lambda>j. resp (rw_json C 200 j))) c"
      by (simp add: route_def Let_def)
    then show ?thesis by (rule goal) (simp add: bind framed_keeps [OF sin_resp])
  next
    case False
    let ?q = "c_req c"
    let ?segs = "segments_of (rq_path ?q)"
    let ?m = "if authorize (c_os c) (header ?q ''x-sandbox-token'') ?segs = None
        then resp (rw_error C 403 ''invalid or missing X-Sandbox-Token'')
        else if header ?q ''transfer-encoding'' \<noteq> None
        then resp (rw_error C 411 ''chunked request bodies not supported; send Content-Length'')
        else thenE (os (stamp_activity K))
          (if \<not> route_mode_allowed (w_host_mode (c_os c)) ?segs
           then resp (rw_error C 404 (''no route in this server mode: '' @ rq_method ?q @ '' '' @ rq_path ?q))
           else thenE (os (touch_sandbox K ?segs)) (dispatch C K N (rq_method ?q) ?segs))"
    have "framed ?m"
      by (auto simp: thenE_def intro!: framed_before framed_keeps [OF sin_resp] framed_dispatch sin_os)
    moreover have "route C K N c = ?m c" by (simp only: route_guarded [OF False] Let_def if_distribR)
    ultimately show ?thesis by (intro goal [of ?m])
  qed
qed

lemma drain_before_rest:
  assumes "drain_body c = (Inr u, d)" and "before_rest rest c"
  shows "rd_clean (c_rd d) \<and> rd_bytes (c_rd d) = rest"
proof -
  let ?n = "content_length (c_req c) - body_consumed (c_req c)"
  obtain bs where bs: "rd_clean (c_rd c)" "rd_bytes (c_rd c) = bs @ rest" "length bs = ?n" using assms(2) by (auto simp: before_rest_def)
  then have "?n \<le> length (rd_bytes (c_rd c))" "drop ?n (rd_bytes (c_rd c)) = rest" by simp_all
  then obtain r where "drain_loop ?n (c_rd c) = (Inr (), r)" "rd_clean r" "rd_bytes r = rest"
    using drain_loop_ok [OF bs(1), of ?n] by auto
  with assms(1) bs show ?thesis by (auto simp: drain_body_def Let_def split: if_splits)
qed

lemma next_after_body:
  assumes "serve_one C K clock N r wr w = Next r' wr' w'" and "read_request clock r = (Inr (Some q), r1)"
    and "rd_clean r1" and "rd_bytes r1 = body @ rest" and "length body = content_length q" and "body_consumed q = 0"
  shows "rd_clean r' \<and> rd_bytes r' = rest"
proof (rule serve_one_Next [OF assms(1)])
  fix q' r1' c1 c2 c3
  let ?c = "\<lparr>c_req = q', c_rd = r1', c_rw = rw_new wr (rq_keep_alive q'), c_os = w\<rparr>"
  assume q': "read_request clock r = (Inr (Some q'), r1')" and route: "route C K N ?c = (Inr (), c1)" and nh: "\<not> hijacked (c_rw c1)"
    and fin: "resp rw_finish c1 = (Inr (), c2)" and drain: "drain_body c2 = (Inr (), c3)" and r': "r' = c_rd c3"
  have "before_rest rest ?c" "body_consumed (c_req ?c) = 0" using assms q' by (auto simp: before_rest_def)
  then have "before_rest rest c1" using framedD [OF framed_route route nh] by blast
  then have "before_rest rest c2" using keeps_same [OF sin_resp fin] by simp
  from drain_before_rest [OF drain this] show ?thesis by (simp add: r')
qed

section \<open>How a client frames a message\<close>

text \<open>
  RFC 9112 on the length of a message, independent of the parser: the field lines of a head between the request line and
  the blank line, names in any case and values without the blanks around them; a head without \<open>Transfer-Encoding\<close> declares a
  body of the decimal number in its \<open>Content-Length\<close> (every copy of the field says the same), or none.
\<close>

definition head_fields :: "string \<Rightarrow> (string \<times> string) list" where
  "head_fields h = map (\<lambda>l. case split_once (CHR '':'') l of
       Some (name, value) \<Rightarrow> (to_ascii_lowercase name, trim_matches is_blank value)
     | None \<Rightarrow> (to_ascii_lowercase l, []))
     (tl (split_crlf (take (length h - 4) h)))"

definition field_values :: "string \<Rightarrow> string \<Rightarrow> string list" where
  "field_values name h = map snd (filter (\<lambda>f. fst f = name) (head_fields h))"

definition declares :: "string \<Rightarrow> nat \<Rightarrow> bool" where
  "declares h n \<longleftrightarrow> field_values ''transfer-encoding'' h = [] \<and>
     (if field_values ''content-length'' h = [] then n = 0
      else list_all (\<lambda>v. v \<noteq> [] \<and> list_all is_ascii_digit v \<and> digits_value 10 0 v = n) (field_values ''content-length'' h))"

abbreviation field_line :: "string \<Rightarrow> string \<times> string" where
  "field_line l \<equiv> (case split_once (CHR '':'') l of
       Some (name, value) \<Rightarrow> (to_ascii_lowercase name, trim_matches is_blank value)
     | None \<Rightarrow> (to_ascii_lowercase l, []))"

text \<open>The parser's header map holds what the field lines say.\<close>

lemma header_line_fields:
  assumes "parse_header_line l hs = Inr hs'"
  shows "hm_get hs' = (hm_get hs)(fst (field_line l) \<mapsto> snd (field_line l))"
  using assms
  by (auto simp: parse_header_line_def Let_def hm.get_insert fun_eq_iff split: if_splits option.splits)

lemma headers_fields:
  "parse_headers ls n hs = Inr hs' \<Longrightarrow> k \<noteq> [] \<Longrightarrow>
   (\<forall>v. hm_get hs' k = Some v \<longrightarrow> hm_get hs k = Some v \<or> (k, v) \<in> field_line ` set ls) \<and>
   (hm_get hs' k = None \<longrightarrow> hm_get hs k = None \<and> k \<notin> fst ` field_line ` set ls)"
proof (induction ls n hs rule: parse_headers.induct)
  case (2 line ls n hs)
  show ?case
  proof (cases "line = []")
    case True
    then have "fst (field_line line) = []" by (simp add: to_ascii_lowercase_def)
    with 2 True show ?thesis by auto
  next
    case False
    with 2(3) obtain hs1 where hs1: "parse_header_line line hs = Inr hs1" and rest: "parse_headers ls (Suc n) hs1 = Inr hs'"
      by (auto split: if_splits sum.splits)
    have "n < MAX_HEADERS" using 2(3) False by (auto split: if_splits)
    with 2(2) [OF False _ hs1 rest 2(4)] header_line_fields [OF hs1] show ?thesis by (auto split: if_splits)
  qed
qed simp

lemma head_body_split:
  assumes "is_head h"
  shows "trim_end_matches (CRLF @ CRLF) h = take (length h - 4) h"
proof -
  from assms obtain p where h: "h = p @ CRLF @ CRLF" by (auto simp: is_head_def ends_blank_def suffix_def)
  have "\<not> ends_blank p" using assms h by (simp add: is_head_def strict_prefix_def CRLF_def)
  then have "trim_end_matches (CRLF @ CRLF) p = p" by (intro trim_end_matches_stop) (simp add: ends_blank_def)
  then show ?thesis using trim_end_matches_step [of "CRLF @ CRLF" p] by (simp add: h CRLF_def)
qed

text \<open>The length the server goes by is the one the client declares.\<close>

lemma declared_length:
  assumes h: "is_head h" and q: "parse_head h = Inr q" and d: "declares h n"
  shows "content_length q = n"
proof -
  let ?ls = "tl (split_crlf (take (length h - 4) h))" and ?cl = "''content-length''"
  have hs: "parse_headers ?ls 0 [] = Inr (headers q)"
    using q by (auto simp: parse_head_def Let_def head_body_split [OF h] split: if_splits list.splits sum.splits prod.splits)
  note f = headers_fields [OF hs, of ?cl, simplified]
  have fs: "head_fields h = map field_line ?ls" by (simp add: head_fields_def)
  have wf: "length_wf (headers q) (content_length q)" using parse_head_request_wf [OF q] by (simp add: request_wf_def)
  show ?thesis
  proof (cases "hm_get (headers q) ?cl")
    case None
    then have "field_values ?cl h = []" using f by (force simp: field_values_def fs filter_empty_conv)
    with None wf d show ?thesis by (simp add: length_wf_def declares_def)
  next
    case (Some raw)
    then have "(?cl, raw) \<in> set (head_fields h)" using f by (simp add: fs hm.get_empty)
    then have "raw \<in> set (field_values ?cl h)" by (force simp: field_values_def)
    with Some wf d show ?thesis by (auto simp: length_wf_def declares_def list_all_iff split: if_splits)
  qed
qed

text \<open>
  A message as the client frames it, with a body of the length it declares; the parser accepts its head.
\<close>

definition message_ok :: "string \<times> string \<Rightarrow> bool" where
  "message_ok m \<longleftrightarrow> is_head (fst m) \<and> length (fst m) \<le> MAX_HEADER_BYTES \<and> declares (fst m) (length (snd m)) \<and>
     (\<exists>q. parse_head (fst m) = Inr q)"

text \<open>The connection after its first \<open>n\<close> requests, if it has not ended by then.\<close>

fun serve_n ::
  "nat \<Rightarrow> codec \<Rightarrow> ('w, 'z) px_kernel_scheme \<Rightarrow> (nat \<Rightarrow> nat \<Rightarrow> nat) \<Rightarrow> (nat \<Rightarrow> run_env) \<Rightarrow>
   nat \<Rightarrow> reader \<Rightarrow> writer \<Rightarrow> 'w world \<Rightarrow> (reader \<times> writer \<times> 'w world) option" where
  "serve_n 0 C K clock N i r wr w = Some (r, wr, w)"
| "serve_n (Suc n) C K clock N i r wr w =
     (case serve_one C K (clock i) (N i) r wr w of
        Stop wr' w' \<Rightarrow> None
      | Next r' wr' w' \<Rightarrow> serve_n n C K clock N (Suc i) r' wr' w')"

text \<open>
  C9: a connection is cut into requests the way a client frames them by \<open>Content-Length\<close>. Let a client send messages, each a head the parser
  accepts followed by a body of the length that its \<open>Content-Length\<close> field declares under RFC 9112 (no body without one), none with
  \<open>Transfer-Encoding\<close>, in pieces of any size, with no head slower than the head timeout. However far the server gets, whatever the requests ask for, whether they are answered or refused
  and how much of each body a handler reads: after \<open>n\<close> requests the input stands exactly behind the \<open>n\<close>-th message, and the request
  that is read next is the next message's head. No byte of such a body is ever taken for a request. A chunked message is
  not among them: the server refuses it and leaves its body in the input (\<open>chunked_body_left\<close> in \<open>Server\<close>).
\<close>

theorem requests_framed:
  assumes "rd_clean r" and "rd_bytes r = concat (map (\<lambda>(h, b). h @ b) ms) @ rest" and "list_all message_ok ms"
    and "\<forall>i k. clock i k \<le> clock i 0 + HEAD_TIMEOUT"
    and "serve_n n C K clock N i r wr w = Some (r', wr', w')" and "n \<le> length ms"
  shows "rd_bytes r' = concat (map (\<lambda>(h, b). h @ b) (drop n ms)) @ rest \<and>
    (n < length ms \<longrightarrow> (\<exists>q r1. parse_head (fst (ms ! n)) = Inr q \<and> read_request (clock (i + n)) r' = (Inr (Some q), r1) \<and>
       rd_bytes r1 = snd (ms ! n) @ concat (map (\<lambda>(h, b). h @ b) (drop (Suc n) ms)) @ rest))"
  using assms
proof (induction n arbitrary: i r wr w ms)
  case 0
  show ?case
  proof (cases ms)
    case (Cons m ms')
    with 0 obtain q where m: "is_head (fst m)" "length (fst m) \<le> MAX_HEADER_BYTES" "parse_head (fst m) = Inr q"
      "rd_bytes r = fst m @ snd m @ concat (map (\<lambda>(h, b). h @ b) ms') @ rest"
      by (auto simp: message_ok_def split: prod.splits)
    obtain r1 where "read_request (clock i) r = (Inr (Some q), r1)" "rd_bytes r1 = snd m @ concat (map (\<lambda>(h, b). h @ b) ms') @ rest"
      using read_request_finds [OF 0(1) m(4,1,2), of "clock i"] 0(4) m(3) by auto
    with 0 Cons m(3) show ?thesis by auto
  qed (use 0 in simp)
next
  case (Suc n)
  from Suc.prems(6) obtain m ms' where ms: "ms = m # ms'" by (cases ms) auto
  let ?rest = "concat (map (\<lambda>(h, b). h @ b) ms') @ rest"
  from Suc.prems(5) obtain r2 wr2 w2 where one: "serve_one C K (clock i) (N i) r wr w = Next r2 wr2 w2"
    and more: "serve_n n C K clock N (Suc i) r2 wr2 w2 = Some (r', wr', w')"
    by (auto split: served.splits)
  from Suc.prems(3) obtain q where q: "parse_head (fst m) = Inr q" "content_length q = length (snd m)"
    using declared_length by (auto simp: ms message_ok_def)
  obtain r1 where r1: "read_request (clock i) r = (Inr (Some q), r1)" "rd_clean r1" "rd_bytes r1 = snd m @ ?rest"
    using read_request_finds [of r "fst m" "snd m @ ?rest" "clock i"] Suc.prems(1-4) q(1)
    by (auto simp: ms message_ok_def split: prod.splits)
  have "body_consumed q = 0" using parse_head_request_wf [OF q(1)] by (simp add: request_wf_def)
  from next_after_body [OF one r1 q(2) [symmetric] this] have "rd_clean r2" "rd_bytes r2 = ?rest" by auto
  from Suc.IH [OF this _ Suc.prems(4) more] Suc.prems(3,6) show ?case by (simp add: ms)
qed

section \<open>Witnesses\<close>

text \<open>A refused request with a small body keeps its connection.\<close>

lemma refused_next:
  assumes "\<not> is_health q" and "authorize w (header q ''x-sandbox-token'') (segments_of (rq_path q)) = None"
    and "rq_keep_alive q" and "room wr = None" and "read_request clock r = (Inr (Some q), r1)"
    and "rd_clean r1" and "content_length q \<le> length (rd_bytes r1)" and "content_length q \<le> MAX_DRAIN_BYTES" and "body_consumed q = 0"
  shows "\<exists>r' wr'. serve_one C K clock N r wr w = Next r' wr' w"
proof -
  let ?c = "\<lparr>c_req = q, c_rd = r1, c_rw = rw_new wr True, c_os = w\<rparr>"
  let ?m = "rw_error C 403 ''invalid or missing X-Sandbox-Token''"
  have route: "route C K N ?c = resp ?m ?c" using route_guarded [of ?c C K N] assms(1,2) by (simp add: Let_def)
  obtain rw where rw: "?m (rw_new wr True) = (Inr (), rw)"
    using succeedsD [OF succeeds_rw(3), of "rw_new wr True"] assms(4) by (fastforce simp: rw_new_def)
  have fl: "\<not> hijacked rw" "\<not> chunked rw"
    using rw_fixed_flags [OF rw [unfolded rw_error_def rw_json_def]] by (auto simp: rw_new_def)
  obtain r' where "drain_loop (content_length q) r1 = (Inr (), r')" using drain_loop_ok [OF assms(6,7)] by blast
  then show ?thesis
    using assms(3,5,8,9) route rw fl
    by (auto simp: serve_one_def resp_def thenE_def bindE_def liftR_def rw_finish_def drain_body_def Let_def)
qed

abbreviation demo_post :: string where
  "demo_post \<equiv> ''POST /v1/exec HTTP/1.1'' @ CRLF @ ''Content-Length: 2'' @ CRLF @ CRLF"

abbreviation demo_get :: string where
  "demo_get \<equiv> ''GET /health HTTP/1.1'' @ CRLF @ CRLF"

lemma demo_heads:
  "parse_head demo_post = Inr \<lparr>rq_method = ''POST'', rq_path = ''/v1/exec'', params = [], raw_query = [],
     headers = [(''content-length'', ''2'')], content_length = 2, body_consumed = 0, rq_keep_alive = True\<rparr>"
  "parse_head demo_get = Inr \<lparr>rq_method = ''GET'', rq_path = ''/health'', params = [], raw_query = [],
     headers = [], content_length = 0, body_consumed = 0, rq_keep_alive = True\<rparr>"
  by (simp_all add: http_eval hm_insert_def hm_get_def Let_def)

lemma demo_messages: "list_all message_ok [(demo_post, ''hi''), (demo_get, [])]"
proof -
  have "is_head demo_post" "is_head demo_get" by (simp_all add: is_head_code ends_blank_def str_eval)
  moreover have "length demo_post \<le> MAX_HEADER_BYTES" "length demo_get \<le> MAX_HEADER_BYTES" by (simp_all add: MAX_HEADER_BYTES_def CRLF_def)
  moreover have "declares demo_post (length ''hi'')" "declares demo_get (length [])"
    by (simp_all add: declares_def field_values_def head_fields_def http_eval)
  ultimately show ?thesis using demo_heads by (simp add: message_ok_def)
qed

theorem requests_framed_witness:
  "\<exists>r' wr' w' q r1. serve_n 1 demo_codec demo_px (\<lambda>_ _. 7) (\<lambda>_. demo_env) 0 [Chunk (demo_post @ ''h''), Chunk (''i'' @ demo_get)] open_writer demo_host =
       Some (r', wr', w') \<and>
     rd_bytes r' = demo_get \<and> read_request (\<lambda>_. 7) r' = (Inr (Some q), r1) \<and> rq_path q = ''/health''"
proof -
  let ?r = "[Chunk (demo_post @ ''h''), Chunk (''i'' @ demo_get)]"
  let ?q = "\<lparr>rq_method = ''POST'', rq_path = ''/v1/exec'', params = [], raw_query = [],
     headers = [(''content-length'', ''2'')], content_length = 2, body_consumed = 0, rq_keep_alive = True\<rparr>"
  have bytes: "rd_bytes ?r = concat (map (\<lambda>(h, b). h @ b) [(demo_post, ''hi''), (demo_get, [])]) @ []" "rd_clean ?r" by simp_all
  have "is_head demo_post" "length demo_post \<le> MAX_HEADER_BYTES" using demo_messages by (simp_all add: message_ok_def)
  then obtain r1 where r1: "read_request (\<lambda>_. 7) ?r = (Inr (Some ?q), r1)" "rd_clean r1" "rd_bytes r1 = ''hi'' @ demo_get"
    using read_request_finds [of ?r demo_post "''hi'' @ demo_get" "\<lambda>_. 7"] demo_heads(1) by auto
  have "authorize demo_host (header ?q ''x-sandbox-token'') (segments_of (rq_path ?q)) = None"
    using authorize_iff [of demo_host "header ?q ''x-sandbox-token''" "segments_of (rq_path ?q)"]
    by (simp add: demo_segments host_route_auth_def demo_host_simps header_def hm_get_def str_eval)
  then obtain r' wr' where one: "serve_one demo_codec demo_px (\<lambda>_. 7) demo_env ?r open_writer demo_host = Next r' wr' demo_host"
    using refused_next [of ?q demo_host open_writer "\<lambda>_. 7" ?r r1] r1 by (fastforce simp: open_writer_def MAX_DRAIN_BYTES_def)
  then have n: "serve_n 1 demo_codec demo_px (\<lambda>_ _. 7) (\<lambda>_. demo_env) 0 ?r open_writer demo_host = Some (r', wr', demo_host)"
    by (simp only: One_nat_def serve_n.simps served.case)
  from requests_framed [OF bytes(2,1) demo_messages _ n] demo_heads(2) n show ?thesis by auto
qed

end
