(* ===== verification/Exec_Output.thy ===== *)
theory Exec_Output
  imports Exec
begin

text \<open>
  The threads around one command and the channels between them: \<open>spawn_reader\<close> (twice), the thread that feeds
  \<open>stdin\<close>, \<open>drain_output_readers\<close> of the waiter, and the receiver in \<open>stream_events\<close> or \<open>pump_background\<close>, all of \<open>src/exec.rs\<close>.

  A pipe is the list of what the coming reads find, and whether a descendant of the command holds it open when that is
  over. \<open>reader_events\<close> is what one reader sends if nobody disturbs it; \<open>io_step\<close> lets all threads interleave over the
  bounded channel. The lemmas show what the client is owed and when it gets it.
\<close>

section \<open>One reader\<close>

text \<open>One turn of the loop in \<open>spawn_reader\<close>: the event to send, unless the loop ends.\<close>

definition OUTPUT_QUEUE_CHUNKS :: nat where "OUTPUT_QUEUE_CHUNKS = 64"

definition reader_turn :: "(string \<Rightarrow> event) \<Rightarrow> reader \<Rightarrow> event option \<times> reader" where
  "reader_turn mk pipe =
     (case rd_read (32 * 1024) pipe of
        (Inl _, rest) \<Rightarrow> (None, rest)
      | (Inr bs, rest) \<Rightarrow> (if bs = [] then None else Some (mk (from_utf8_lossy bs)), rest))"

lemma reader_turn_size: "reader_turn mk pipe = (Some ev, rest) \<Longrightarrow> rd_size rest < rd_size pipe"
  by (auto simp: reader_turn_def split: prod.splits sum.splits if_splits dest: rd_read_size)

function reader_events :: "(string \<Rightarrow> event) \<Rightarrow> reader \<Rightarrow> event list" where
  "reader_events mk pipe =
     (case reader_turn mk pipe of
        (None, _) \<Rightarrow> []
      | (Some ev, rest) \<Rightarrow> ev # reader_events mk rest)"
  by pat_completeness auto
termination
  by (relation "measure (\<lambda>(_, r). rd_size r)") (auto dest!: sym [of "(_, _)" "reader_turn _ _"] dest: reader_turn_size)

declare reader_events.simps [simp del]

section \<open>The threads of a command\<close>

datatype strm = OutPipe | ErrPipe

fun make_event :: "strm \<Rightarrow> string \<Rightarrow> event" where
  "make_event OutPipe d = Stdout d"
| "make_event ErrPipe d = Stderr d"

datatype reader_thread =
    Reading                 \<comment> \<open>in \<open>pipe.read\<close>\<close>
  | Sending event           \<comment> \<open>in \<open>tx.send\<close>\<close>
  | ReaderDone              \<comment> \<open>loop left, \<open>done_tx.send\<close> done\<close>

datatype feeder_thread =
    Feeding string          \<comment> \<open>in \<open>pipe.write_all\<close>, with the bytes not yet written\<close>
  | StdinClosed             \<comment> \<open>pipe dropped, or there never was one\<close>

datatype waiter_thread =
    AwaitingExit            \<comment> \<open>the command runs\<close>
  | Draining nat            \<comment> \<open>reaped; this many readers have reported\<close>
  | Reporting               \<comment> \<open>in \<open>tx.send(Event::Exit(info))\<close>\<close>
  | Reported

text \<open>
  The state around one command. \<open>io_held\<close>: a descendant keeps this pipe open, so that a read at its end blocks. \<open>io_queue\<close> is
  the \<open>sync_channel\<close>, \<open>io_done\<close> the number of messages in the \<open>output_done\<close> channel, \<open>io_rx\<close> whether the receiver is alive,
  \<open>io_got\<close> what it has received. \<open>io_fed\<close> is what the command's standard input was given; \<open>io_late\<close> records that the waiter ran
  into \<open>OUTPUT_DRAIN_TIMEOUT\<close>, \<open>io_broken\<close> that the command closed its input, \<open>io_hung_up\<close> that the client went away.
\<close>

record cmd_io =
  io_pipe :: "strm \<Rightarrow> reader"
  io_held :: "strm \<Rightarrow> bool"
  io_reader :: "strm \<Rightarrow> reader_thread"
  io_stdin :: feeder_thread
  io_fed :: string
  io_broken :: bool
  io_waiter :: waiter_thread
  io_done :: nat
  io_late :: bool
  io_queue :: "event list"
  io_rx :: bool
  io_got :: "event list"
  io_hung_up :: bool

definition reader_stops :: "strm \<Rightarrow> cmd_io \<Rightarrow> cmd_io" where
  "reader_stops p s = s\<lparr>io_reader := (io_reader s)(p := ReaderDone), io_done := io_done s + 1\<rparr>"

definition receiver_drops :: "cmd_io \<Rightarrow> cmd_io" where
  "receiver_drops s = s\<lparr>io_rx := False, io_queue := []\<rparr>"

text \<open>
  One step of one thread. \<open>io_timeout\<close> is the deadline of \<open>drain_output_readers\<close>, which may pass at any time while the waiter drains; \<open>io_hangup\<close> is a
  failed write to the client, after which \<open>stream_events\<close> returns and drops the receiver. Dropping it discards what is queued and makes every later
  or blocked \<open>send\<close> fail.
\<close>

inductive io_step :: "exit_info \<Rightarrow> cmd_io \<Rightarrow> cmd_io \<Rightarrow> bool" for info :: exit_info where
  io_read: "io_reader s p = Reading \<Longrightarrow> reader_turn (make_event p) (io_pipe s p) = (Some ev, rest) \<Longrightarrow>
     io_step info s (s\<lparr>io_pipe := (io_pipe s)(p := rest), io_reader := (io_reader s)(p := Sending ev)\<rparr>)"
| io_eof: "io_reader s p = Reading \<Longrightarrow> reader_turn (make_event p) (io_pipe s p) = (None, rest) \<Longrightarrow>
     io_pipe s p = [] \<and> \<not> io_held s p \<or> io_pipe s p \<noteq> [] \<Longrightarrow> io_step info s (reader_stops p s)"
| io_send: "io_reader s p = Sending ev \<Longrightarrow> io_rx s \<Longrightarrow> length (io_queue s) < OUTPUT_QUEUE_CHUNKS \<Longrightarrow>
     io_step info s (s\<lparr>io_reader := (io_reader s)(p := Reading), io_queue := io_queue s @ [ev]\<rparr>)"
| io_send_err: "io_reader s p = Sending ev \<Longrightarrow> \<not> io_rx s \<Longrightarrow> io_step info s (reader_stops p s)"
| io_feed: "io_stdin s = Feeding (bs @ left) \<Longrightarrow> bs \<noteq> [] \<Longrightarrow>
     io_step info s (s\<lparr>io_stdin := Feeding left, io_fed := io_fed s @ bs\<rparr>)"
| io_fed_all: "io_stdin s = Feeding [] \<Longrightarrow> io_step info s (s\<lparr>io_stdin := StdinClosed\<rparr>)"
| io_epipe: "io_stdin s = Feeding bs \<Longrightarrow> bs \<noteq> [] \<Longrightarrow> io_step info s (s\<lparr>io_stdin := StdinClosed, io_broken := True\<rparr>)"
| io_exit: "io_waiter s = AwaitingExit \<Longrightarrow> io_step info s (s\<lparr>io_waiter := Draining 0\<rparr>)"
| io_drain: "io_waiter s = Draining n \<Longrightarrow> n < 2 \<Longrightarrow> io_done s = Suc d \<Longrightarrow>
     io_step info s (s\<lparr>io_waiter := Draining (Suc n), io_done := d\<rparr>)"
| io_drained: "io_waiter s = Draining 2 \<Longrightarrow> io_step info s (s\<lparr>io_waiter := Reporting\<rparr>)"
| io_timeout: "io_waiter s = Draining n \<Longrightarrow> n < 2 \<Longrightarrow> io_step info s (s\<lparr>io_waiter := Reporting, io_late := True\<rparr>)"
| io_report: "io_waiter s = Reporting \<Longrightarrow> io_rx s \<Longrightarrow> length (io_queue s) < OUTPUT_QUEUE_CHUNKS \<Longrightarrow>
     io_step info s (s\<lparr>io_waiter := Reported, io_queue := io_queue s @ [Exit info]\<rparr>)"
| io_report_err: "io_waiter s = Reporting \<Longrightarrow> \<not> io_rx s \<Longrightarrow> io_step info s (s\<lparr>io_waiter := Reported\<rparr>)"
| io_recv: "io_rx s \<Longrightarrow> io_queue s = ev # evs \<Longrightarrow> \<not> is_exit ev \<Longrightarrow>
     io_step info s (s\<lparr>io_queue := evs, io_got := io_got s @ [ev]\<rparr>)"
| io_recv_exit: "io_rx s \<Longrightarrow> io_queue s = ev # evs \<Longrightarrow> is_exit ev \<Longrightarrow>
     io_step info s (receiver_drops (s\<lparr>io_got := io_got s @ [ev]\<rparr>))"
| io_hangup: "io_rx s \<Longrightarrow> io_step info s (receiver_drops (s\<lparr>io_hung_up := True\<rparr>))"

text \<open>A command just spawned, with the pipes' contents to come and the text for its standard input.\<close>

definition io_start :: "(strm \<Rightarrow> reader) \<Rightarrow> (strm \<Rightarrow> bool) \<Rightarrow> string option \<Rightarrow> cmd_io" where
  "io_start pipes open_ends input =
     \<lparr>io_pipe = pipes, io_held = open_ends, io_reader = (\<lambda>_. Reading),
      io_stdin = (case input of Some bs \<Rightarrow> Feeding bs | None \<Rightarrow> StdinClosed), io_fed = [], io_broken = False,
      io_waiter = AwaitingExit, io_done = 0, io_late = False,
      io_queue = [], io_rx = True, io_got = [], io_hung_up = False\<rparr>"

definition io_reach :: "(strm \<Rightarrow> reader) \<Rightarrow> (strm \<Rightarrow> bool) \<Rightarrow> string option \<Rightarrow> exit_info \<Rightarrow> cmd_io \<Rightarrow> bool" where
  "io_reach pipes open_ends input info = reach (\<lambda>s. s = io_start pipes open_ends input) (io_step info)"

section \<open>What the receiver is owed\<close>

fun of_pipe :: "strm \<Rightarrow> event \<Rightarrow> bool" where
  "of_pipe OutPipe (Stdout d) = True"
| "of_pipe ErrPipe (Stderr d) = True"
| "of_pipe p ev = False"

text \<open>The events of a pipe that its reader still has before it, the one it is sending first.\<close>

fun coming :: "strm \<Rightarrow> reader_thread \<Rightarrow> reader \<Rightarrow> event list" where
  "coming p Reading pipe = reader_events (make_event p) pipe"
| "coming p (Sending ev) pipe = ev # reader_events (make_event p) pipe"
| "coming p ReaderDone pipe = []"

abbreviation to_come :: "cmd_io \<Rightarrow> strm \<Rightarrow> event list" where
  "to_come s p \<equiv> coming p (io_reader s p) (io_pipe s p)"

definition flow_inv :: "(strm \<Rightarrow> reader) \<Rightarrow> cmd_io \<Rightarrow> bool" where
  "flow_inv pipes s \<longleftrightarrow> length (io_queue s) \<le> OUTPUT_QUEUE_CHUNKS \<and>
     (\<forall>p ev. io_reader s p = Sending ev \<longrightarrow> of_pipe p ev) \<and>
     (\<forall>p. prefix (filter (of_pipe p) (io_got s)) (reader_events (make_event p) (pipes p)) \<and>
        (io_rx s \<longrightarrow> filter (of_pipe p) (io_got s @ io_queue s) @ to_come s p = reader_events (make_event p) (pipes p)))"

lemma of_pipe_make: "of_pipe p (make_event q d) \<longleftrightarrow> p = q"
  by (cases p; cases q) auto

lemma of_pipe_unique: "of_pipe p ev \<Longrightarrow> of_pipe q ev \<Longrightarrow> p = q"
  by (cases p; cases q; cases ev) auto

lemma of_pipe_exit: "is_exit ev \<Longrightarrow> \<not> of_pipe p ev"
  by (cases p; cases ev) (auto simp: is_exit_def)

lemma reader_turn_pipe: "reader_turn (make_event p) pipe = (Some ev, rest) \<Longrightarrow> of_pipe p ev"
  by (auto simp: reader_turn_def of_pipe_make split: prod.splits sum.splits if_splits)

lemma reader_events_turn:
  "reader_turn mk pipe = (Some ev, rest) \<Longrightarrow> reader_events mk pipe = ev # reader_events mk rest"
  "reader_turn mk pipe = (None, rest) \<Longrightarrow> reader_events mk pipe = []"
  by (subst reader_events.simps, simp)+

text \<open>While the receiver lives, events only move: from a reader to the queue and from there to the receiver.\<close>

lemma flow_conserved:
  assumes "flow_inv pipes s" and "io_rx s" and "length (io_queue t) \<le> OUTPUT_QUEUE_CHUNKS"
    and "\<And>q e. io_reader t q = Sending e \<Longrightarrow> of_pipe q e"
    and "\<And>q. filter (of_pipe q) (io_got t @ io_queue t) @ to_come t q = filter (of_pipe q) (io_got s @ io_queue s) @ to_come s q"
  shows "flow_inv pipes t"
proof -
  have total: "filter (of_pipe q) (io_got t @ io_queue t) @ to_come t q = reader_events (make_event q) (pipes q)" for q
    using assms(1,2,5) by (simp add: flow_inv_def)
  then have "prefix (filter (of_pipe q) (io_got t)) (reader_events (make_event q) (pipes q))" for q
    by (metis append_assoc filter_append prefixI)
  with total assms(3,4) show ?thesis by (simp add: flow_inv_def)
qed

lemma flow_frame:
  assumes "flow_inv pipes s" and "\<And>q. to_come t q = to_come s q" and "\<And>q e. io_reader t q = Sending e \<Longrightarrow> of_pipe q e"
    and "io_rx t = io_rx s" and "io_got t = io_got s" and "io_queue t = io_queue s"
  shows "flow_inv pipes t"
  using assms by (simp add: flow_inv_def)

lemma flow_step:
  assumes "flow_inv pipes s" and "io_step info s t"
  shows "flow_inv pipes t"
proof -
  have own: "of_pipe p ev" if "io_reader s p = Sending ev" for p ev using assms(1) that by (simp add: flow_inv_def)
  have bound: "length (io_queue s) \<le> OUTPUT_QUEUE_CHUNKS" using assms(1) by (simp add: flow_inv_def)
  from assms(2) show ?thesis
  proof cases
    case (io_read p ev rest)
    then show ?thesis
      by (intro flow_frame [OF assms(1)])
         (auto simp: reader_events_turn(1) intro: own dest: reader_turn_pipe split: if_splits)
  next
    case (io_eof p rest)
    then show ?thesis
      by (intro flow_frame [OF assms(1)])
         (auto simp: reader_stops_def reader_events_turn(2) intro: own split: if_splits)
  next
    case (io_send p ev)
    have "of_pipe q ev \<longleftrightarrow> q = p" for q using own [OF io_send(2)] by (auto dest: of_pipe_unique)
    with io_send show ?thesis by (intro flow_conserved [OF assms(1)]) (auto intro: own split: if_splits)
  next
    case (io_report)
    then show ?thesis
      by (intro flow_conserved [OF assms(1)]) (auto intro: own simp: of_pipe_exit is_exit_def)
  next
    case (io_recv ev evs)
    then show ?thesis by (intro flow_conserved [OF assms(1)]) (use bound in \<open>auto intro: own\<close>)
  next
    case (io_recv_exit ev evs)
    with assms(1) show ?thesis by (simp add: flow_inv_def receiver_drops_def of_pipe_exit)
  next
    case io_hangup
    with assms(1) show ?thesis by (simp add: flow_inv_def receiver_drops_def)
  qed (use assms(1) in \<open>auto simp: flow_inv_def reader_stops_def split: if_splits\<close>)
qed

section \<open>The exit event\<close>

abbreviation no_exit :: "event list \<Rightarrow> bool" where
  "no_exit evs \<equiv> list_all (\<lambda>ev. \<not> is_exit ev) evs"

definition readers_done :: "cmd_io \<Rightarrow> nat" where
  "readers_done s = length (filter (\<lambda>p. io_reader s p = ReaderDone) [OutPipe, ErrPipe])"

text \<open>The waiter has counted the readers that are through; unless it was late, it reports when both are.\<close>

fun drain_ok :: "waiter_thread \<Rightarrow> nat \<Rightarrow> nat \<Rightarrow> bool \<Rightarrow> bool" where
  "drain_ok AwaitingExit done readers late \<longleftrightarrow> done = readers \<and> \<not> late"
| "drain_ok (Draining n) done readers late \<longleftrightarrow> n + done = readers \<and> \<not> late"
| "drain_ok Reporting done readers late \<longleftrightarrow> late \<or> readers = 2"
| "drain_ok Reported done readers late \<longleftrightarrow> late \<or> readers = 2"

text \<open>Where the exit event is: not sent, queued (as the last one, unless the waiter was late), or received as the last one.\<close>

fun exit_queued :: "exit_info \<Rightarrow> bool \<Rightarrow> event list \<Rightarrow> bool" where
  "exit_queued info late [] \<longleftrightarrow> False"
| "exit_queued info late (ev # evs) \<longleftrightarrow>
     (if is_exit ev then ev = Exit info \<and> no_exit evs \<and> (late \<or> evs = []) else exit_queued info late evs)"

definition exit_inv :: "exit_info \<Rightarrow> cmd_io \<Rightarrow> bool" where
  "exit_inv info s \<longleftrightarrow>
     (\<forall>p ev. io_reader s p = Sending ev \<longrightarrow> \<not> is_exit ev) \<and>
     drain_ok (io_waiter s) (io_done s) (readers_done s) (io_late s) \<and>
     (io_rx s \<longrightarrow> \<not> io_hung_up s \<and> no_exit (io_got s) \<and>
        (if io_waiter s = Reported then exit_queued info (io_late s) (io_queue s) else no_exit (io_queue s))) \<and>
     (\<not> io_rx s \<longrightarrow> io_queue s = [] \<and>
        (if io_hung_up s then no_exit (io_got s)
         else io_waiter s = Reported \<and> (\<exists>xs. io_got s = xs @ [Exit info] \<and> no_exit xs)))"

lemma readers_done_le: "readers_done s \<le> 2"
  by (simp add: readers_done_def)

lemma readers_done_all: "readers_done s = 2 \<Longrightarrow> io_reader s p = ReaderDone"
  by (cases p) (auto simp: readers_done_def split: if_splits)

lemma readers_done_stops: "io_reader s p \<noteq> ReaderDone \<Longrightarrow> readers_done (reader_stops p s) = Suc (readers_done s)"
  by (cases p) (simp_all add: readers_done_def reader_stops_def)

lemma readers_done_upd:
  "io_reader s p \<noteq> ReaderDone \<Longrightarrow> x \<noteq> ReaderDone \<Longrightarrow> io_reader t = (io_reader s)(p := x) \<Longrightarrow> readers_done t = readers_done s"
  "io_reader t = io_reader s \<Longrightarrow> readers_done t = readers_done s"
  by (cases p) (simp_all add: readers_done_def)

lemma exit_stops:
  assumes "exit_inv info s" and "io_reader s p \<noteq> ReaderDone"
  shows "exit_inv info (reader_stops p s)"
proof -
  have "readers_done s < 2" using assms(2) readers_done_le [of s] readers_done_all [of s p] by (cases "readers_done s = 2") auto
  with assms readers_done_stops [OF assms(2)] show ?thesis
    by (cases "io_waiter s") (auto simp: exit_inv_def reader_stops_def readers_done_def split: if_splits)
qed

lemma exit_queued_snoc: "exit_queued info True evs \<Longrightarrow> \<not> is_exit ev \<Longrightarrow> exit_queued info True (evs @ [ev])"
  by (induction evs) auto

lemma exit_queued_last: "no_exit evs \<Longrightarrow> exit_queued info late (evs @ [Exit info])"
  by (induction evs) (auto simp: is_exit_def)

lemma exit_step:
  assumes inv: "exit_inv info s" and "io_step info s t"
  shows "exit_inv info t"
  using assms(2)
proof cases
  case (io_read p ev rest)
  moreover have "readers_done t = readers_done s" by (rule readers_done_upd(1)) (use io_read in auto)
  moreover have "\<not> is_exit ev" using reader_turn_pipe [OF io_read(3)] of_pipe_exit by blast
  ultimately show ?thesis using inv by (auto simp: exit_inv_def)
next
  case (io_eof p rest)
  then show ?thesis using exit_stops [OF inv, of p] by simp
next
  case (io_send p ev)
  have rd: "readers_done t = readers_done s" by (rule readers_done_upd(1)) (use io_send in auto)
  have "readers_done s \<noteq> 2" using readers_done_all [of s p] io_send by auto
  then have "io_waiter s = Reported \<Longrightarrow> io_late s" using inv by (auto simp: exit_inv_def)
  moreover have "\<not> is_exit ev" using inv io_send by (auto simp: exit_inv_def)
  ultimately show ?thesis using inv io_send rd by (auto simp: exit_inv_def exit_queued_snoc)
next
  case (io_send_err p ev)
  then show ?thesis using exit_stops [OF inv, of p] by simp
next
  case (io_drain n d)
  then show ?thesis using inv by (auto simp: exit_inv_def readers_done_def)
next
  case io_drained
  then show ?thesis using inv readers_done_le [of s] by (auto simp: exit_inv_def readers_done_def)
next
  case io_report
  then show ?thesis using inv by (auto simp: exit_inv_def readers_done_def exit_queued_last)
next
  case (io_recv ev evs)
  then show ?thesis using inv by (auto simp: exit_inv_def readers_done_def)
next
  case (io_recv_exit ev evs)
  then have "io_waiter s = Reported" "ev = Exit info"
    using inv by (auto simp: exit_inv_def split: if_splits)
  with io_recv_exit show ?thesis using inv by (auto simp: exit_inv_def receiver_drops_def readers_done_def)
next
  case io_hangup
  then show ?thesis using inv by (auto simp: exit_inv_def receiver_drops_def readers_done_def)
qed (use inv in \<open>auto simp: exit_inv_def readers_done_def\<close>)

text \<open>Everything has arrived when the exit event has and the waiter was not late; standard input is fed in order.\<close>

definition complete_inv :: "(strm \<Rightarrow> reader) \<Rightarrow> cmd_io \<Rightarrow> bool" where
  "complete_inv pipes s \<longleftrightarrow> (\<not> io_rx s \<and> \<not> io_hung_up s \<and> \<not> io_late s \<longrightarrow>
     (\<forall>p. filter (of_pipe p) (io_got s) = reader_events (make_event p) (pipes p)))"

fun feed_ok :: "string \<Rightarrow> feeder_thread \<Rightarrow> string \<Rightarrow> bool \<Rightarrow> bool" where
  "feed_ok input (Feeding bs) fed broken \<longleftrightarrow> fed @ bs = input \<and> \<not> broken"
| "feed_ok input StdinClosed fed broken \<longleftrightarrow> (if broken then prefix fed input else fed = input)"

definition io_inv :: "(strm \<Rightarrow> reader) \<Rightarrow> string \<Rightarrow> exit_info \<Rightarrow> cmd_io \<Rightarrow> bool" where
  "io_inv pipes input info s \<longleftrightarrow> flow_inv pipes s \<and> exit_inv info s \<and> complete_inv pipes s \<and>
     feed_ok input (io_stdin s) (io_fed s) (io_broken s)"

lemma complete_step:
  assumes flow: "flow_inv pipes s" and inv: "exit_inv info s" and com: "complete_inv pipes s" and "io_step info s t"
  shows "complete_inv pipes t"
  using assms(4)
proof cases
  case (io_recv_exit ev evs)
  have "filter (of_pipe p) (io_got t) = reader_events (make_event p) (pipes p)" if "\<not> io_late s" for p
  proof -
    have rep: "io_waiter s = Reported" using inv io_recv_exit by (auto simp: exit_inv_def split: if_splits)
    then have "io_reader s p = ReaderDone" using inv that readers_done_all [of s p] by (simp add: exit_inv_def)
    moreover have "evs = []" using inv io_recv_exit rep that by (simp add: exit_inv_def)
    moreover have "filter (of_pipe p) (io_got s @ io_queue s) @ to_come s p = reader_events (make_event p) (pipes p)"
      using flow io_recv_exit(2) by (simp add: flow_inv_def)
    ultimately show ?thesis using io_recv_exit of_pipe_exit [of ev p] by (simp add: receiver_drops_def)
  qed
  then show ?thesis using io_recv_exit by (simp add: complete_inv_def receiver_drops_def)
qed (use com inv in \<open>auto simp: complete_inv_def receiver_drops_def reader_stops_def exit_inv_def\<close>)

lemma feed_step:
  "feed_ok input (io_stdin s) (io_fed s) (io_broken s) \<Longrightarrow> io_step info s t \<Longrightarrow> feed_ok input (io_stdin t) (io_fed t) (io_broken t)"
  by (erule io_step.cases) (auto simp: receiver_drops_def reader_stops_def)

interpretation io: inductive_invariant "\<lambda>s. s = io_start pipes open_ends input" "io_step info" "io_inv pipes (opt_or input []) info"
proof unfold_locales
  show "io_inv pipes (opt_or input []) info s" if "s = io_start pipes open_ends input" for s
    using that by (auto simp: io_inv_def flow_inv_def exit_inv_def complete_inv_def io_start_def readers_done_def opt_or_def OUTPUT_QUEUE_CHUNKS_def
        split: option.split)
  show "io_inv pipes (opt_or input []) info t" if "io_inv pipes (opt_or input []) info s" "io_step info s t" for s t
    using that flow_step exit_step complete_step feed_step unfolding io_inv_def by blast
qed

text \<open>
  C13: the client of a command gets its output, all of it before the exit event, unless the waiter gave up waiting. In every interleaving of the
  threads around a command: at most 64 events are buffered; for each of the two pipes what has been received is the beginning of
  what its reader reads, in order; an exit event is the command's and nothing comes after it; once it has come and the waiter was
  not cut short by its two seconds, everything both pipes delivered has come. The command's standard input is given the text of the request, in order, and all of it
  unless the command closes its end.
\<close>

theorem output_before_exit:
  assumes "io_reach pipes open_ends input info s"
  shows "length (io_queue s) \<le> 64 \<and>
    (\<forall>p. prefix (filter (of_pipe p) (io_got s)) (reader_events (make_event p) (pipes p))) \<and>
    (\<forall>xs ev ys. io_got s = xs @ ev # ys \<and> is_exit ev \<longrightarrow> ev = Exit info \<and> ys = [] \<and>
       (io_late s \<or> (\<forall>p. filter (of_pipe p) (io_got s) = reader_events (make_event p) (pipes p)))) \<and>
    prefix (io_fed s) (opt_or input []) \<and>
    (io_stdin s = StdinClosed \<and> \<not> io_broken s \<longrightarrow> io_fed s = opt_or input [])"
proof -
  have inv: "io_inv pipes (opt_or input []) info s" using io.reach_inv assms by (simp add: io_reach_def)
  have "ev = Exit info \<and> ys = [] \<and> \<not> io_rx s \<and> \<not> io_hung_up s" if got: "io_got s = xs @ ev # ys" "is_exit ev" for xs ev ys
  proof -
    have "\<not> no_exit (io_got s)" using got by simp
    then obtain zs where "io_got s = zs @ [Exit info]" "no_exit zs" "\<not> io_rx s" "\<not> io_hung_up s"
      using inv by (cases "io_rx s"; cases "io_hung_up s") (auto simp: io_inv_def exit_inv_def)
    with got show ?thesis by (auto simp: append_eq_append_conv2 append_eq_Cons_conv Cons_eq_append_conv)
  qed
  moreover have "prefix (io_fed s) (opt_or input []) \<and> (io_stdin s = StdinClosed \<and> \<not> io_broken s \<longrightarrow> io_fed s = opt_or input [])"
    using inv by (cases "io_stdin s") (auto simp: io_inv_def split: if_splits dest: prefixI [OF sym])
  moreover have "io_late s \<or> (\<forall>p. filter (of_pipe p) (io_got s) = reader_events (make_event p) (pipes p))" if "\<not> io_rx s" "\<not> io_hung_up s"
    using inv that unfolding io_inv_def complete_inv_def by blast
  moreover have "length (io_queue s) \<le> 64" "\<forall>p. prefix (filter (of_pipe p) (io_got s)) (reader_events (make_event p) (pipes p))"
    using inv by (simp_all add: io_inv_def flow_inv_def OUTPUT_QUEUE_CHUNKS_def)
  ultimately show ?thesis by blast
qed

section \<open>Every thread ends\<close>

fun reader_work :: "reader_thread \<Rightarrow> nat" where
  "reader_work Reading = 1"
| "reader_work (Sending ev) = 3"
| "reader_work ReaderDone = 0"

fun feeder_work :: "feeder_thread \<Rightarrow> nat" where
  "feeder_work (Feeding bs) = Suc (length bs)"
| "feeder_work StdinClosed = 0"

fun waiter_work :: "waiter_thread \<Rightarrow> nat" where
  "waiter_work AwaitingExit = 6"
| "waiter_work (Draining n) = 5 - n"
| "waiter_work Reporting = 2"
| "waiter_work Reported = 0"

definition pipe_work :: "cmd_io \<Rightarrow> strm \<Rightarrow> nat" where
  "pipe_work s p = 4 * rd_size (io_pipe s p) + reader_work (io_reader s p)"

definition io_work :: "cmd_io \<Rightarrow> nat" where
  "io_work s = pipe_work s OutPipe + pipe_work s ErrPipe + feeder_work (io_stdin s) + waiter_work (io_waiter s) +
     length (io_queue s) + (if io_rx s then 1 else 0)"

lemma pipe_work_one:
  assumes "\<And>q. q \<noteq> p \<Longrightarrow> pipe_work t q = pipe_work s q" and "pipe_work t p + k < pipe_work s p"
  shows "pipe_work t OutPipe + pipe_work t ErrPipe + k < pipe_work s OutPipe + pipe_work s ErrPipe"
  using assms by (cases p) fastforce+

lemma io_work_less: "io_step info s t \<Longrightarrow> io_work t < io_work s"
proof (induction rule: io_step.cases)
  case (io_read s' p ev rest)
  then have "pipe_work t OutPipe + pipe_work t ErrPipe + 0 < pipe_work s OutPipe + pipe_work s ErrPipe"
    by (intro pipe_work_one [where p = p]) (auto simp: pipe_work_def dest: reader_turn_size)
  with io_read show ?case by (simp add: io_work_def)
next
  case (io_eof s' p rest)
  then have "pipe_work t OutPipe + pipe_work t ErrPipe + 0 < pipe_work s OutPipe + pipe_work s ErrPipe"
    by (intro pipe_work_one [where p = p]) (auto simp: pipe_work_def reader_stops_def)
  with io_eof show ?case by (simp add: io_work_def reader_stops_def)
next
  case (io_send s' p ev)
  then have "pipe_work t OutPipe + pipe_work t ErrPipe + 1 < pipe_work s OutPipe + pipe_work s ErrPipe"
    by (intro pipe_work_one [where p = p]) (auto simp: pipe_work_def)
  with io_send show ?case by (simp add: io_work_def)
next
  case (io_send_err s' p ev)
  then have "pipe_work t OutPipe + pipe_work t ErrPipe + 0 < pipe_work s OutPipe + pipe_work s ErrPipe"
    by (intro pipe_work_one [where p = p]) (auto simp: pipe_work_def reader_stops_def)
  with io_send_err show ?case by (simp add: io_work_def reader_stops_def)
qed (auto simp: io_work_def pipe_work_def receiver_drops_def)

text \<open>As long as the receiver lives some thread can go on, without the client having to go away.\<close>

lemma io_progress:
  assumes "exit_inv info s" and "io_rx s"
  shows "\<exists>t. io_step info s t \<and> io_hung_up t = io_hung_up s"
proof (cases "io_waiter s")
  case AwaitingExit
  from io_exit [OF this] show ?thesis by force
next
  case (Draining n)
  have "n \<le> 2" using assms(1) Draining readers_done_le [of s] by (simp add: exit_inv_def)
  then show ?thesis
    using io_timeout [OF Draining, of info] io_drained [of s info] Draining by (cases "n = 2") force+
next
  case Reporting
  show ?thesis
  proof (cases "length (io_queue s) < OUTPUT_QUEUE_CHUNKS")
    case True
    from io_report [OF Reporting assms(2) this] show ?thesis by force
  next
    case False
    then obtain ev evs where q: "io_queue s = ev # evs" by (cases "io_queue s") (auto simp: OUTPUT_QUEUE_CHUNKS_def)
    then have "\<not> is_exit ev" using assms Reporting by (simp add: exit_inv_def)
    from io_recv [OF assms(2) q this] show ?thesis by force
  qed
next
  case Reported
  then have "exit_queued info (io_late s) (io_queue s)" using assms by (simp add: exit_inv_def)
  then obtain ev evs where q: "io_queue s = ev # evs" by (cases "io_queue s") auto
  show ?thesis
    using io_recv [OF assms(2) q] io_recv_exit [OF assms(2) q] by (cases "is_exit ev") (force simp: receiver_drops_def)+
qed

lemma feeder_progress: "io_stdin s \<noteq> StdinClosed \<Longrightarrow> \<exists>t. io_step info s t \<and> io_hung_up t = io_hung_up s"
  using io_fed_all [of s info] io_epipe [of s _ info] by (cases "io_stdin s"; cases "io_stdin s = Feeding []") force+

lemma waiter_progress:
  assumes "exit_inv info s" and "\<not> io_rx s" and "io_waiter s \<noteq> Reported"
  shows "\<exists>t. io_step info s t \<and> io_hung_up t = io_hung_up s"
proof (cases "io_waiter s")
  case (Draining n)
  have "n \<le> 2" using assms(1) Draining readers_done_le [of s] by (simp add: exit_inv_def)
  then show ?thesis
    using io_timeout [OF Draining, of info] io_drained [of s info] Draining by (cases "n = 2") force+
qed (use assms io_exit [of s info] io_report_err [of s info] in force)+

lemma reader_progress:
  assumes "\<not> io_rx s" and "io_reader s p \<noteq> ReaderDone" and "\<not> (io_held s p \<and> io_pipe s p = [] \<and> io_reader s p = Reading)"
  shows "\<exists>t. io_step info s t \<and> io_hung_up t = io_hung_up s"
proof (cases "io_reader s p")
  case Reading
  obtain x rest where x: "reader_turn (make_event p) (io_pipe s p) = (x, rest)" by fastforce
  show ?thesis
    using io_read [OF Reading, of _ rest info] io_eof [OF Reading, of rest info] assms(3) Reading x
    by (cases x) (force simp: reader_stops_def)+
next
  case (Sending ev)
  from io_send_err [OF this assms(1), of info] show ?thesis by (force simp: reader_stops_def)
qed (use assms in simp)

text \<open>
  C14: the threads around a command end and the client is told. No run of them goes on forever. When nothing but a hang-up could happen any
  more, the receiver is gone and so are the waiter and the thread behind standard input; a reader is left only where a
  descendant of the command still holds the pipe open and has nothing in it; and unless the client hung up, the last event it got is the
  exit event.
\<close>

theorem command_io_ends:
  assumes "io_reach pipes open_ends input info s"
  shows "\<not> (\<exists>run. run 0 = s \<and> (\<forall>i. io_step info (run i) (run (Suc i)))) \<and>
    ((\<forall>t. io_step info s t \<longrightarrow> io_hung_up t \<noteq> io_hung_up s) \<longrightarrow>
       \<not> io_rx s \<and> io_waiter s = Reported \<and> io_stdin s = StdinClosed \<and>
       (\<forall>p. io_reader s p = ReaderDone \<or> io_held s p \<and> io_pipe s p = [] \<and> io_reader s p = Reading) \<and>
       (io_hung_up s \<or> (\<exists>evs. io_got s = evs @ [Exit info])))"
proof -
  have inv: "exit_inv info s" using io.reach_inv assms by (auto simp: io_reach_def io_inv_def)
  have "\<not> (\<forall>i. io_step info (run i) (run (Suc i)))" for run
  proof
    assume "\<forall>i. io_step info (run i) (run (Suc i))"
    then have "\<forall>i. (run (Suc i), run i) \<in> measure io_work" by (auto dest: io_work_less)
    then show False using wf_measure [of io_work] by (auto simp: wf_iff_no_infinite_down_chain)
  qed
  moreover have "?thesis" if "\<exists>t. io_step info s t \<and> io_hung_up t = io_hung_up s"
    using that calculation by blast
  moreover have "\<not> io_rx s \<Longrightarrow> \<not> io_hung_up s \<Longrightarrow> \<exists>evs. io_got s = evs @ [Exit info]"
    using inv by (auto simp: exit_inv_def)
  ultimately show ?thesis
    using io_progress [OF inv] feeder_progress [of s info] waiter_progress [OF inv] reader_progress [of s _ info] by meson
qed

section \<open>What the events say\<close>

lemma reader_events_ascii:
  assumes "rd_clean r" and "list_all is_ascii (rd_bytes r)"
  shows "\<exists>ds. reader_events mk r = map mk ds \<and> concat ds = rd_bytes r"
  using assms
proof (induction mk r rule: reader_events.induct)
  case (1 mk r)
  obtain bs r1 where rd: "rd_read (32 * 1024) r = (Inr bs, r1)" "rd_clean r1" "rd_bytes r = bs @ rd_bytes r1"
    "bs = [] \<longleftrightarrow> rd_bytes r = []"
    by (rule rd_read_clean [OF 1(2), of "32 * 1024"]) simp
  show ?case
  proof (cases "bs = []")
    case True
    with rd show ?thesis by (intro exI [of _ "[]"]) (simp add: reader_events.simps [of mk r] reader_turn_def)
  next
    case False
    obtain ds where ds: "reader_events mk r1 = map mk ds" "concat ds = rd_bytes r1"
      using 1(1) [of "Some (mk (from_utf8_lossy bs))" r1] rd False 1(3) by (auto simp: reader_turn_def)
    have "from_utf8_lossy bs = bs" using 1(3) rd(3) by (simp add: from_utf8_lossy_id is_utf8_ascii)
    with rd ds False show ?thesis by (intro exI [of _ "bs # ds"]) (simp add: reader_events.simps [of mk r] reader_turn_def)
  qed
qed

text \<open>
  ASCII output arrives intact. However the pipe delivers a command's output and whichever stream it is, the
  texts of the events put together are exactly the bytes the command wrote.
\<close>

theorem output_intact:
  assumes "rd_clean r" and "list_all is_ascii (rd_bytes r)"
  shows "\<exists>ds es. reader_events Stdout r = map Stdout ds \<and> reader_events Stderr r = map Stderr es \<and>
    concat ds = rd_bytes r \<and> concat es = rd_bytes r"
  using reader_events_ascii [OF assms, of Stdout] reader_events_ascii [OF assms, of Stderr] by blast

theorem output_intact_witness:
  "\<exists>ds. reader_events Stdout [Chunk ''a'', Chunk ''bc''] = map Stdout ds \<and> concat ds = ''abc''"
  using output_intact [of "[Chunk ''a'', Chunk ''bc'']"] by (auto simp: is_ascii_def byte_def)

text \<open>
  A character of two bytes, written at once and valid UTF-8, but delivered by two reads: both halves are
  replaced, and the text that reaches the client differs from what the command wrote.
\<close>

theorem split_character_lost:
  "is_utf8 [CHR 0xC3, CHR 0xA9] \<and>
   reader_events Stdout [Chunk [CHR 0xC3, CHR 0xA9]] = [Stdout [CHR 0xC3, CHR 0xA9]] \<and>
   reader_events Stdout [Chunk [CHR 0xC3], Chunk [CHR 0xA9]] = [Stdout replacement, Stdout replacement]"
proof -
  have utf8: "utf8_step [CHR 0xC3, CHR 0xA9] = (True, 2)" "utf8_step [CHR 0xC3] = (False, 1)" "utf8_step [CHR 0xA9] = (False, 1)"
    by (simp_all add: utf8_width_def second_ok_def byte_def Let_def)
  have "is_utf8 [CHR 0xC3, CHR 0xA9]" by (subst is_utf8.simps) (simp add: utf8 del: utf8_step.simps)
  moreover have "from_utf8_lossy [CHR 0xC3] = replacement" "from_utf8_lossy [CHR 0xA9] = replacement"
    by (subst from_utf8_lossy.simps, simp add: utf8 del: utf8_step.simps)+
  moreover have "reader_events mk [] = []" "reader_events mk (Chunk [b] # es) = mk (from_utf8_lossy [b]) # reader_events mk es"
    "reader_events mk (Chunk [b, c] # es) = mk (from_utf8_lossy [b, c]) # reader_events mk es" for mk b c es
    by (subst reader_events.simps, simp add: reader_turn_def)+
  ultimately show ?thesis by (simp add: from_utf8_lossy_id)
qed

section \<open>A client that reads slowly\<close>

definition demo_exit :: exit_info where
  "demo_exit = \<lparr>ex_code = Some 0, ex_signal = None, ex_timed_out = False, ex_duration_ms = 5\<rparr>"

text \<open>A command that writes 65 blocks to its standard output and exits; nobody else holds the pipes.\<close>

abbreviation x_block :: event where
  "x_block \<equiv> Stdout ''x''"

definition flood :: "nat \<Rightarrow> reader_thread \<Rightarrow> waiter_thread \<Rightarrow> event list \<Rightarrow> bool \<Rightarrow> event list \<Rightarrow> cmd_io" where
  "flood n r w queue rx got =
     (io_start (\<lambda>p. if p = OutPipe then replicate n (Chunk ''x'') else []) (\<lambda>_. False) None)
       \<lparr>io_reader := (\<lambda>_. Reading)(OutPipe := r), io_waiter := w, io_late := w \<in> {Reporting, Reported}, io_queue := queue, io_rx := rx, io_got := got\<rparr>"

abbreviation flood_reach :: "exit_info \<Rightarrow> cmd_io \<Rightarrow> bool" where
  "flood_reach info \<equiv> io_reach (\<lambda>p. if p = OutPipe then replicate 65 (Chunk ''x'') else []) (\<lambda>_. False) None info"

lemma reach_one: "flood_reach info s \<Longrightarrow> io_step info s t \<Longrightarrow> flood_reach info t"
  unfolding io_reach_def by (rule reach_step)

lemma flood_turn: "reader_turn (make_event OutPipe) (replicate (Suc n) (Chunk ''x'')) = (Some x_block, replicate n (Chunk ''x''))"
proof -
  have "from_utf8_lossy ''x'' = ''x''" by (simp add: from_utf8_lossy_id is_utf8_ascii is_ascii_def byte_def)
  then show ?thesis by (simp add: reader_turn_def)
qed

lemma flood_events: "reader_events (make_event OutPipe) (replicate n (Chunk ''x'')) = replicate n x_block"
proof (induction n)
  case 0
  have "reader_turn (make_event OutPipe) [] = (None, [])" by (simp add: reader_turn_def)
  from reader_events_turn(2) [OF this] show ?case by (simp only: replicate_0)
next
  case (Suc n)
  from reader_events_turn(1) [OF flood_turn] Suc show ?case by (simp only: replicate_Suc)
qed

lemma flood_read: "flood_reach info (flood (Suc n) Reading w q True got) \<Longrightarrow> flood_reach info (flood n (Sending x_block) w q True got)"
  using io_read [of "flood (Suc n) Reading w q True got" OutPipe x_block "replicate n (Chunk ''x'')" info]
  by (elim reach_one) (simp add: flood_def io_start_def flood_turn [simplified] fun_upd_def cong: if_cong)

lemma flood_send:
  "flood_reach info (flood n (Sending x_block) w q True got) \<Longrightarrow> length q < 64 \<Longrightarrow> flood_reach info (flood n Reading w (q @ [x_block]) True got)"
  using io_send [of "flood n (Sending x_block) w q True got" OutPipe x_block info]
  by (elim reach_one) (simp add: flood_def io_start_def OUTPUT_QUEUE_CHUNKS_def fun_upd_def cong: if_cong)

lemma flood_fill:
  "k \<le> 64 \<Longrightarrow> flood_reach info (flood (65 - k) Reading AwaitingExit (replicate k x_block) True [])"
proof (induction k)
  case 0
  have "flood 65 Reading AwaitingExit [] True [] = io_start (\<lambda>p. if p = OutPipe then replicate 65 (Chunk ''x'') else []) (\<lambda>_. False) None"
    by (simp add: flood_def io_start_def fun_upd_def)
  then show ?case by (simp add: io_reach_def reach_init)
next
  case (Suc k)
  then have "65 - k = Suc (65 - Suc k)" by simp
  with Suc have "flood_reach info (flood (65 - Suc k) (Sending x_block) AwaitingExit (replicate k x_block) True [])"
    by (intro flood_read) simp
  from flood_send [OF this] Suc(2) show ?case by (simp add: replicate_append_same)
qed

lemma flood_wait:
  assumes "flood_reach info (flood n r AwaitingExit q True got)"
  shows "flood_reach info (flood n r Reporting q True got)"
proof -
  have "io_step info (flood n r AwaitingExit q True got) (flood n r (Draining 0) q True got)"
    using io_exit [of "flood n r AwaitingExit q True got" info] by (simp add: flood_def io_start_def)
  moreover have "io_step info (flood n r (Draining 0) q True got) (flood n r Reporting q True got)"
    using io_timeout [of "flood n r (Draining 0) q True got" 0 info] by (simp add: flood_def io_start_def)
  ultimately show ?thesis using assms by (blast intro: reach_one)
qed

lemma flood_recv:
  "flood_reach info (flood n r w (x_block # q) True got) \<Longrightarrow> flood_reach info (flood n r w q True (got @ [x_block]))"
  using io_recv [of "flood n r w (x_block # q) True got" x_block q info]
  by (elim reach_one) (simp add: flood_def io_start_def is_exit_def)

lemma flood_empty:
  "flood_reach info (flood n r w (replicate k x_block @ q) True got) \<Longrightarrow> flood_reach info (flood n r w q True (got @ replicate k x_block))"
proof (induction k arbitrary: got)
  case (Suc k)
  then have "flood_reach info (flood n r w (replicate k x_block @ q) True (got @ [x_block]))" by (intro flood_recv) simp
  from Suc(1) [OF this] show ?case by (simp add: replicate_append_same)
qed simp

text \<open>
  What the two seconds cost. \<open>OUTPUT_DRAIN_TIMEOUT\<close> is there for descendants that keep a pipe open, but it also runs while the queue is full because the
  client reads slowly: here nobody holds the pipes, the client never hangs up and reads everything it is sent, and yet it is told the exit
  before the last block, which it never gets.
\<close>

theorem late_exit_truncates:
  "\<exists>s. flood_reach info s \<and> \<not> io_hung_up s \<and> io_got s = replicate 64 x_block @ [Exit info] \<and>
     reader_events (make_event OutPipe) (replicate 65 (Chunk ''x'')) = replicate 65 x_block"
proof -
  have "flood_reach info (flood (65 - 64) Reading AwaitingExit (replicate 64 x_block) True [])" by (rule flood_fill) simp
  then have "flood_reach info (flood 0 (Sending x_block) AwaitingExit (x_block # replicate 63 x_block) True [])"
    using flood_read [of info 0 AwaitingExit "replicate 64 x_block" "[]"] by (simp add: numeral_eq_Suc)
  from flood_recv [OF flood_wait [OF this]]
  have "flood_reach info (flood 0 (Sending x_block) Reporting (replicate 63 x_block) True [x_block])" by simp
  moreover have "io_step info (flood 0 (Sending x_block) Reporting (replicate 63 x_block) True [x_block])
      (flood 0 (Sending x_block) Reported (replicate 63 x_block @ [Exit info]) True [x_block])"
    using io_report [of "flood 0 (Sending x_block) Reporting (replicate 63 x_block) True [x_block]" info]
    by (simp add: flood_def io_start_def OUTPUT_QUEUE_CHUNKS_def)
  ultimately have "flood_reach info (flood 0 (Sending x_block) Reported (replicate 63 x_block @ [Exit info]) True [x_block])"
    by (rule reach_one)
  from flood_empty [OF this]
  have r: "flood_reach info (flood 0 (Sending x_block) Reported [Exit info] True (replicate 64 x_block))"
    by (simp add: numeral_eq_Suc)
  let ?s = "flood 0 (Sending x_block) Reported [] False (replicate 64 x_block @ [Exit info])"
  have "io_step info (flood 0 (Sending x_block) Reported [Exit info] True (replicate 64 x_block)) ?s"
    using io_recv_exit [of "flood 0 (Sending x_block) Reported [Exit info] True (replicate 64 x_block)" "Exit info" "[]" info]
    by (simp add: flood_def io_start_def is_exit_def receiver_drops_def)
  with r have "flood_reach info ?s" by (rule reach_one)
  then show ?thesis by (intro exI [of _ ?s] conjI flood_events) (simp_all add: flood_def io_start_def)
qed

section \<open>Witnesses\<close>

theorem output_before_exit_witness:
  "\<exists>s. flood_reach demo_exit s \<and> io_got s = [x_block] \<and> io_queue s = [x_block] \<and>
     prefix (filter (of_pipe OutPipe) (io_got s)) (replicate 65 x_block) \<and> length (io_queue s) \<le> 64"
proof -
  let ?s = "flood 63 Reading AwaitingExit [x_block] True [x_block]"
  have "flood_reach demo_exit (flood (65 - 2) Reading AwaitingExit (replicate 2 x_block) True [])" by (rule flood_fill) simp
  then have "flood_reach demo_exit (flood 63 Reading AwaitingExit (x_block # [x_block]) True [])" by (simp add: numeral_eq_Suc)
  from flood_recv [OF this] have r: "flood_reach demo_exit ?s" by simp
  note o = output_before_exit [OF r]
  have "length (io_queue ?s) \<le> 64" by (rule conjunct1 [OF o])
  moreover have "prefix (filter (of_pipe OutPipe) (io_got ?s)) (replicate 65 x_block)"
    using conjunct1 [OF conjunct2 [OF o], THEN spec, of OutPipe] by (simp only: if_True simp_thms flood_events)
  ultimately show ?thesis using r by (intro exI [of _ ?s] conjI) (simp_all only: flood_def io_start_def cmd_io.simps)
qed

theorem command_io_ends_witness:
  "\<exists>s. flood_reach demo_exit s \<and> io_queue s = replicate 64 x_block \<and>
     \<not> (\<exists>run. run 0 = s \<and> (\<forall>i. io_step demo_exit (run i) (run (Suc i))))"
proof -
  let ?s = "flood (65 - 64) Reading AwaitingExit (replicate 64 x_block) True []"
  have r: "flood_reach demo_exit ?s" by (rule flood_fill) simp
  have "io_queue ?s = replicate 64 x_block" by (simp add: flood_def io_start_def)
  with r command_io_ends [OF r] show ?thesis by blast
qed

end
