(* ===== verification/Fuzz_Targets.thy ===== *)
theory Fuzz_Targets
  imports Http Fsutil
begin

text \<open>
  The two fuzz targets of the repository, \<open>fuzz/fuzz_targets/request-head.rs\<close> and \<open>fuzz/fuzz_targets/normalize-relative.rs\<close>, as
  functions from the fuzzer's bytes to whether every assertion holds. Fuzzing tries some inputs; the theorem of this theory is that neither target can
  fail on any.
\<close>

section \<open>The head parser\<close>

text \<open>The bytes reshaped into a head that \<open>read_request\<close> could have delivered.\<close>

definition as_head :: "string \<Rightarrow> string" where
  "as_head data =
     take (64 * 1024)
       (case find (\<lambda>i. take 4 (drop i data) = CRLF @ CRLF) [0..<length data] of
          Some at \<Rightarrow> take (at + 4) data
        | None \<Rightarrow> data @ CRLF @ CRLF)"

definition token_byte_of_target :: "char \<Rightarrow> bool" where
  "token_byte_of_target b \<longleftrightarrow> is_ascii_alphanumeric b \<or> b \<in> set ''!#$%&'*+-.^_`|~''"

definition header_assertions :: "string \<times> string \<Rightarrow> bool" where
  "header_assertions h \<longleftrightarrow>
     fst h = to_ascii_lowercase (fst h) \<and> fst h \<noteq> [] \<and> list_all token_byte_of_target (fst h) \<and>
     \<not> contains_str CRLF (snd h)"

definition length_assertion :: "request \<Rightarrow> bool" where
  "length_assertion q \<longleftrightarrow>
     (case hm_get (headers q) ''content-length'' of
        None \<Rightarrow> content_length q = 0
      | Some raw \<Rightarrow> parse_u64 raw = Some (content_length q))"

definition request_head_target :: "string \<Rightarrow> bool" where
  "request_head_target data \<longleftrightarrow>
     (case parse_head (as_head data) of
        Inl _ \<Rightarrow> True
      | Inr q \<Rightarrow>
          parse_head (as_head data) = Inr q \<and>
          rq_method q \<noteq> [] \<and> list_all is_ascii_uppercase (rq_method q) \<and>
          list_all header_assertions (headers q) \<and>
          \<not> (hm_contains_key (headers q) ''content-length'' \<and> hm_contains_key (headers q) ''transfer-encoding'') \<and>
          length_assertion q \<and>
          CHR ''?'' \<notin> set (rq_path q))"

section \<open>The path normaliser\<close>

fun component_assertion :: "component \<Rightarrow> bool" where
  "component_assertion (Normal name) \<longleftrightarrow> name \<noteq> [] \<and> name \<noteq> ''..'' \<and> CHR ''/'' \<notin> set name"
| "component_assertion _ \<longleftrightarrow> False"

text \<open>\<open>Path::starts_with\<close> and the equality of paths compare components; collecting components pushes one after the other.\<close>

definition path_starts_with :: "string \<Rightarrow> string \<Rightarrow> bool" where
  "path_starts_with p base \<longleftrightarrow> prefix (path_components base) (path_components p)"

definition path_eq :: "string \<Rightarrow> string \<Rightarrow> bool" where
  "path_eq p q \<longleftrightarrow> path_components p = path_components q"

fun component_str :: "component \<Rightarrow> string" where
  "component_str RootDir = ''/''"
| "component_str CurDir = ''.''"
| "component_str ParentDir = ''..''"
| "component_str (Normal name) = name"

definition collect_components :: "component list \<Rightarrow> string" where
  "collect_components cs = foldl pb_push [] (map component_str cs)"

definition normalize_target :: "string \<Rightarrow> bool" where
  "normalize_target data \<longleftrightarrow>
     (let raw = from_utf8_lossy data; out = normalize_relative raw; home = ''/home/sbx-1''; joined = pb_push home out in
      list_all component_assertion (path_components out) \<and>
      \<not> prefix ''/'' out \<and> \<not> path_starts_with out ''..'' \<and>
      path_starts_with joined home \<and>
      length (path_components joined) = length (path_components home) + length (path_components out) \<and>
      (is_utf8 out \<longrightarrow> path_eq (normalize_relative out) out) \<and>
      path_eq (collect_components (path_components out)) out)"

section \<open>No input fails\<close>

lemma token_byte_target: "is_token_byte b \<Longrightarrow> token_byte_of_target b"
  by (auto simp: is_token_byte_def token_byte_of_target_def)

lemma value_no_crlf: "\<not> list_ex bad_value_byte v \<Longrightarrow> \<not> contains_str CRLF v"
  by (auto simp: contains_str_iff list_ex_iff CRLF_def bad_value_byte_def ctl_defs byte_def)

lemma header_wf_asserts: "header_wf h \<Longrightarrow> header_assertions h"
  by (auto simp: header_wf_def header_assertions_def value_no_crlf list_all_iff token_byte_target)

lemma length_wf_asserts: "length_wf (headers q) (content_length q) \<Longrightarrow> content_length q \<le> u64_max \<Longrightarrow> length_assertion q"
  by (auto simp: length_wf_def length_assertion_def parse_u64_def from_str_radix_decimal split: option.splits)

lemma segments_join:
  assumes "list_all plain_name xs"
  shows "map seg_component (filter (\<lambda>s. s \<noteq> [] \<and> s \<noteq> ''.'') (split_char (CHR ''/'') (join ''/'' xs))) = map Normal xs"
  using path_components_join [OF assms]
  by (auto simp: path_components_def Let_def Cons_eq_map_conv split: if_splits)

lemma home_components:
  assumes "list_all plain_name xs"
  shows "path_components (pb_push ''/home/sbx-1'' (join ''/'' xs)) = [RootDir, Normal ''home'', Normal ''sbx-1''] @ map Normal xs"
proof -
  let ?j = "join ''/'' xs"
  have "pb_push ''/home/sbx-1'' ?j = [] @ CHR ''/'' # (''home'' @ CHR ''/'' # (''sbx-1'' @ CHR ''/'' # ?j))"
    using plain_join_hd [OF assms] by (auto simp: pb_push_def prefix_slash_iff)
  moreover have "split_char (CHR ''/'') ([] @ CHR ''/'' # (''home'' @ CHR ''/'' # (''sbx-1'' @ CHR ''/'' # ?j))) =
      [] # ''home'' # ''sbx-1'' # split_char (CHR ''/'') ?j"
    by (subst split_char_append, simp)+ simp
  ultimately show ?thesis
    using segments_join [OF assms] by (simp add: path_components_def Let_def)
qed

lemma collect_join: "list_all plain_name xs \<Longrightarrow> collect_components (map Normal xs) = join ''/'' xs"
proof (induction xs rule: rev_induct)
  case (snoc x xs)
  then show ?case using pb_push_join [of xs x] by (simp add: collect_components_def)
qed (simp add: collect_components_def)

lemma normalize_target_holds: "normalize_target data"
proof -
  define p where "p = from_utf8_lossy data"
  define xs where "xs = resolve (path_components p)"
  have xs: "list_all plain_name xs" by (simp add: xs_def resolve_components_plain)
  have out: "normalize_relative p = join ''/'' xs" by (simp add: xs_def normalize_relative_join)
  have again: "normalize_relative (join ''/'' xs) = join ''/'' xs"
    using xs by (simp add: normalize_relative_join [of "join ''/'' xs"] resolve_Normals)
  have "list_all component_assertion (map Normal xs)"
    using xs by (auto simp: list_all_iff plain_name_def)
  moreover have "\<not> prefix ''/'' (join ''/'' xs)" using plain_join_hd [OF xs] by (auto simp: prefix_slash_iff)
  moreover have "path_components ''..'' = [ParentDir]" "path_components ''/home/sbx-1'' = [RootDir, Normal ''home'', Normal ''sbx-1'']"
    by (simp_all add: path_components_def)
  ultimately show ?thesis
    using home_components [OF xs] collect_join [OF xs] xs
    by (auto simp: normalize_target_def p_def [symmetric] out again path_starts_with_def path_eq_def Let_def prefix_def Cons_eq_map_conv)
qed

text \<open>
  C35: no input makes a fuzz target fail. For every byte string, each assertion of the head target (the parse is the same twice, the
  method is an uppercase token, header names are lowercase tokens, no value holds a line break, one framing header at most, the body's length is the
  header's number, no query in the path) and each of the path target (plain components only, relative, never upward, a join onto the home stays in it
  and adds up, idempotent, rebuilt from its components) holds.
\<close>

theorem fuzz_targets_hold: "request_head_target data \<and> normalize_target data"
proof -
  have "request_head_target data"
  proof (cases "parse_head (as_head data)")
    case (Inr q)
    then have "request_wf q" by (rule parse_head_request_wf)
    with Inr show ?thesis
      by (auto simp: request_head_target_def request_wf_def headers_wf_def list_all_iff header_wf_asserts length_wf_asserts)
  qed (simp add: request_head_target_def)
  then show ?thesis using normalize_target_holds by blast
qed

end
