(* ===== verification/File_Transfer.thy ===== *)
theory File_Transfer
  imports Files
begin

unbundle bit_operations_syntax

text \<open>
  Uploads and downloads of \<open>src/files.rs\<close> together. \<open>handle_write\<close> is shown to implement a function on
  the content of the file (\<open>upload\<close>: position, truncation on opening, final size), and ranged uploads of
  the pieces of a file, as a client makes them in parallel, followed by \<open>handle_read\<close> give the file back.

  The kernel's part is a view of one file (\<open>file_view\<close>) with the documented behaviour of the calls on it as
  named hypotheses (\<open>disk_opens\<close>, \<open>disk_writes\<close>, \<open>disk_reads\<close>); \<open>disk_kernel\<close> satisfies them.
\<close>

section \<open>What uploads make of a file\<close>

text \<open>Bytes written at an offset, over what is there and with zeros in a gap; a file cut or padded to a size.\<close>

definition put_at :: "nat \<Rightarrow> string \<Rightarrow> string \<Rightarrow> string" where
  "put_at off bs x =
     (if bs = [] then x
      else take off (x @ replicate (off - length x) (CHR 0x00)) @ bs @ drop (off + length bs) x)"

definition resize :: "nat \<Rightarrow> string \<Rightarrow> string" where
  "resize n x = take n x @ replicate (n - length x) (CHR 0x00)"

text \<open>
  What one upload makes of a file. Without an offset the old content is gone; with one it stays
  around the bytes written. A stated final size is imposed last.
\<close>

definition upload :: "nat option \<Rightarrow> nat option \<Rightarrow> string \<Rightarrow> string option \<Rightarrow> string" where
  "upload offset truncate_to body prior =
     (let x = (case offset of
                 None \<Rightarrow> put_at 0 body []
               | Some off \<Rightarrow> put_at off body (case prior of None \<Rightarrow> [] | Some x \<Rightarrow> x))
      in case truncate_to of None \<Rightarrow> x | Some n \<Rightarrow> resize n x)"

lemma put_at_Nil [simp]: "put_at off [] x = x"
  by (simp add: put_at_def)

lemma length_put_at: "length (put_at off bs x) = (if bs = [] then length x else max (length x) (off + length bs))"
  by (auto simp: put_at_def)

lemma nth_put_at:
  assumes "i < length (put_at off bs x)"
  shows "put_at off bs x ! i =
    (if off \<le> i \<and> i < off + length bs then bs ! (i - off) else if i < length x then x ! i else CHR 0x00)"
  using assms by (auto simp: put_at_def nth_append min_def split: if_splits)

lemma put_at_append: "put_at off (a @ b) x = put_at (off + length a) b (put_at off a x)"
proof (rule nth_equalityI)
  show len: "length (put_at off (a @ b) x) = length (put_at (off + length a) b (put_at off a x))"
    by (auto simp: length_put_at)
  fix i
  assume i: "i < length (put_at off (a @ b) x)"
  with len show "put_at off (a @ b) x ! i = put_at (off + length a) b (put_at off a x) ! i"
    by (auto simp: nth_put_at length_put_at nth_append split: if_splits)
qed

lemma length_resize [simp]: "length (resize n x) = n"
  by (simp add: resize_def)

lemma nth_resize: "i < n \<Longrightarrow> resize n x ! i = (if i < length x then x ! i else CHR 0x00)"
  by (simp add: resize_def nth_append)

text \<open>Ranged uploads of pieces of \<open>whole\<close>: position, bytes, and the final size where it is stated.\<close>

type_synonym piece = "nat \<times> string \<times> nat option"

definition piece_of :: "string \<Rightarrow> piece \<Rightarrow> bool" where
  "piece_of whole = (\<lambda>(off, bs, t).
     off + length bs \<le> length whole \<and> bs = take (length bs) (drop off whole) \<and> (t = None \<or> t = Some (length whole)))"

definition uploads :: "piece list \<Rightarrow> string option \<Rightarrow> string option" where
  "uploads = fold (\<lambda>(off, bs, t) x. Some (upload (Some off) t bs x))"

definition covers :: "piece list \<Rightarrow> nat \<Rightarrow> bool" where
  "covers ps i \<longleftrightarrow> (\<exists>(off, bs, t) \<in> set ps. off \<le> i \<and> i < off + length bs)"

definition sized :: "piece list \<Rightarrow> bool" where
  "sized ps \<longleftrightarrow> (\<exists>(off, bs, t) \<in> set ps. t \<noteq> None)"

text \<open>What the file holds after some pieces.\<close>

definition holds :: "string \<Rightarrow> piece list \<Rightarrow> string option \<Rightarrow> bool" where
  "holds whole ps y \<longleftrightarrow>
     (\<forall>i < length whole. covers ps i \<longrightarrow> (case y of None \<Rightarrow> False | Some x \<Rightarrow> i < length x \<and> x ! i = whole ! i)) \<and>
     (sized ps \<longrightarrow> (case y of None \<Rightarrow> False | Some x \<Rightarrow> length x = length whole))"

lemma holds_upload:
  assumes "holds whole ps y" and "piece_of whole (off, bs, t)"
  shows "holds whole (ps @ [(off, bs, t)]) (Some (upload (Some off) t bs y))"
proof -
  let ?x = "case y of None \<Rightarrow> [] | Some x \<Rightarrow> x" and ?N = "length whole"
  have old: "i < length ?x \<and> ?x ! i = whole ! i" if "i < ?N" "covers ps i" for i
    using assms(1) that by (auto simp: holds_def split: option.splits)
  have len: "length ?x = ?N" if "sized ps" using assms(1) that by (auto simp: holds_def split: option.splits)
  have p: "off + length bs \<le> ?N" "bs = take (length bs) (drop off whole)" "t = None \<or> t = Some ?N"
    using assms(2) by (auto simp: piece_of_def)
  have piece: "bs ! j = whole ! (off + j)" if "j < length bs" for j
    using p(1,2) that by (metis add_leD1 nth_drop nth_take)
  have put: "i < length (put_at off bs ?x) \<and> put_at off bs ?x ! i = whole ! i" if "i < ?N" "covers (ps @ [(off, bs, t)]) i" for i
  proof (cases "off \<le> i \<and> i < off + length bs")
    case True
    then show ?thesis using piece [of "i - off"] by (auto simp: nth_put_at length_put_at)
  next
    case False
    with that have "covers ps i" by (auto simp: covers_def)
    with False old [OF that(1)] show ?thesis by (auto simp: nth_put_at length_put_at)
  qed
  have "length (put_at off bs ?x) = ?N" if "sized ps" using len [OF that] p(1) by (simp add: length_put_at)
  moreover have "sized ps \<or> t \<noteq> None" if "sized (ps @ [(off, bs, t)])" using that by (auto simp: sized_def)
  ultimately show ?thesis using p(3) put by (auto simp: holds_def upload_def nth_resize)
qed

lemma holds_uploads:
  "holds whole done y \<Longrightarrow> list_all (piece_of whole) ps \<Longrightarrow> holds whole (done @ ps) (uploads ps y)"
proof (induction ps arbitrary: "done" y)
  case (Cons p ps)
  obtain off bs t where p: "p = (off, bs, t)" by (cases p)
  from Cons.prems holds_upload [of whole "done" y off bs t] have
    "holds whole (done @ [p]) (Some (upload (Some off) t bs y))" by (simp add: p)
  from Cons.IH [OF this] Cons.prems(2) show ?case by (simp add: uploads_def p)
qed (simp add: uploads_def)

lemma uploads_whole:
  assumes "list_all (piece_of whole) ps" and "\<forall>i < length whole. covers ps i" and "sized ps"
  shows "uploads ps y = Some whole"
proof -
  have "holds whole [] y" by (simp add: holds_def covers_def sized_def)
  from holds_uploads [OF this assms(1)] assms(2,3) show ?thesis
    by (auto simp: holds_def split: option.splits intro: nth_equalityI)
qed

section \<open>The write endpoint\<close>

text \<open>
  One regular file as the system shows it: its content where it exists, the descriptors open on
  it, and the position of each.
\<close>

record 'w file_view =
  fv_content :: "'w \<Rightarrow> string option"
  fv_open :: "'w \<Rightarrow> fd set"
  fv_pos :: "'w \<Rightarrow> fd \<Rightarrow> nat"

abbreviation present :: "string option \<Rightarrow> string" where
  "present y \<equiv> (case y of None \<Rightarrow> [] | Some x \<Rightarrow> x)"

text \<open>
  The documented behaviour of the calls the handlers make on the file at \<open>path\<close>, on a disk that
  does not fail: opening honours \<open>O_CREAT\<close> and \<open>O_TRUNC\<close> and starts at position 0; writes go to the
  position and advance it; \<open>lseek\<close> and \<open>ftruncate\<close> take the sizes an \<open>off_t\<close> can hold; a change of
  mode leaves the content alone; reads are those of \<open>serves_file\<close>.
\<close>

definition disk_opens :: "('w, 'z) kernel_scheme \<Rightarrow> string \<Rightarrow> 'w file_view \<Rightarrow> bool" where
  "disk_opens K path V \<longleftrightarrow>
     (\<forall>fl m w. fl AND O_CREAT \<noteq> 0 \<or> fv_content V w \<noteq> None \<longrightarrow>
        (\<exists>f w'. k_open K path fl m w = (Inr f, w') \<and> f \<in> fv_open V w' \<and> fv_pos V w' f = 0 \<and>
           fv_content V w' = Some (if fl AND O_TRUNC \<noteq> 0 then [] else present (fv_content V w)))) \<and>
     (\<forall>p w. path_parent path = Some p \<longrightarrow> (\<exists>w'. k_create_dir_all K p w = (Inr (), w') \<and> fv_content V w' = fv_content V w))"

definition disk_writes :: "('w, 'z) kernel_scheme \<Rightarrow> 'w file_view \<Rightarrow> bool" where
  "disk_writes K V \<longleftrightarrow> (\<forall>f x w. f \<in> fv_open V w \<and> fv_content V w = Some x \<longrightarrow>
     (\<forall>bs. fv_pos V w f + length bs \<le> off_max \<longrightarrow>
        (\<exists>w'. k_write_all K f bs w = (Inr (), w') \<and> f \<in> fv_open V w' \<and> fv_pos V w' f = fv_pos V w f + length bs \<and>
           fv_content V w' = Some (put_at (fv_pos V w f) bs x))) \<and>
     (\<forall>n \<le> off_max. \<exists>w'. k_seek K f n w = (Inr (), w') \<and> f \<in> fv_open V w' \<and> fv_pos V w' f = n \<and> fv_content V w' = Some x) \<and>
     (\<forall>n \<le> off_max. \<exists>w'. k_set_len K f n w = (Inr (), w') \<and> f \<in> fv_open V w' \<and> fv_content V w' = Some (resize n x)) \<and>
     (\<forall>m. fv_content V (snd (k_fchmod K f m w)) = Some x))"

definition disk_reads :: "('w, 'z) kernel_scheme \<Rightarrow> 'w file_view \<Rightarrow> bool" where
  "disk_reads K V \<longleftrightarrow>
     (\<forall>f x. serves_file K (\<lambda>w. f \<in> fv_open V w \<and> fv_content V w = Some x) f x (\<lambda>w. fv_pos V w f))"

text \<open>The body a connection is about to deliver, the position it goes to, and an upload that can be served.\<close>

definition body_of :: "'w conn \<Rightarrow> string" where
  "body_of c = take (content_length (c_req c)) (rd_bytes (c_rd c))"

definition upload_at :: "'w conn \<Rightarrow> nat" where
  "upload_at c = (case param_u64 (c_req c) ''offset'' of None \<Rightarrow> 0 | Some off \<Rightarrow> off)"

definition upload_ready :: "string \<Rightarrow> 'w conn \<Rightarrow> bool" where
  "upload_ready path c \<longleftrightarrow> hm_get (params (c_req c)) ''path'' = Some path \<and> path \<noteq> [] \<and> body_ready c \<and>
     room (rw_writer (c_rw c)) = None \<and> upload_at c + content_length (c_req c) \<le> off_max \<and>
     (case param_u64 (c_req c) ''truncate_to'' of None \<Rightarrow> True | Some n \<Rightarrow> n \<le> off_max)"

abbreviation file_after :: "'w file_view \<Rightarrow> 'w osw conn \<Rightarrow> string option" where
  "file_after V c \<equiv> fv_content V (kst (c_os c))"

text \<open>The steps of \<open>handle_write\<close> on such a disk, in the order of the code.\<close>

lemma disk_openD:
  assumes "disk_opens K path V" and "fl AND O_CREAT \<noteq> 0 \<or> fv_content V w \<noteq> None"
  obtains f w' where "k_open K path fl m w = (Inr f, w')" "f \<in> fv_open V w'" "fv_pos V w' f = 0"
    "fv_content V w' = Some (if fl AND O_TRUNC \<noteq> 0 then [] else present (fv_content V w))"
  using assms unfolding disk_opens_def by blast

lemma disk_writesD:
  assumes "disk_writes K V" and "f \<in> fv_open V w" and "fv_content V w = Some x"
  shows "fv_pos V w f + length bs \<le> off_max \<Longrightarrow> \<exists>w'. k_write_all K f bs w = (Inr (), w') \<and> f \<in> fv_open V w' \<and>
      fv_pos V w' f = fv_pos V w f + length bs \<and> fv_content V w' = Some (put_at (fv_pos V w f) bs x)"
    and "n \<le> off_max \<Longrightarrow> \<exists>w'. k_seek K f n w = (Inr (), w') \<and> f \<in> fv_open V w' \<and> fv_pos V w' f = n \<and> fv_content V w' = Some x"
    and "n \<le> off_max \<Longrightarrow> \<exists>w'. k_set_len K f n w = (Inr (), w') \<and> f \<in> fv_open V w' \<and> fv_content V w' = Some (resize n x)"
    and "fv_content V (snd (k_fchmod K f m w)) = Some x"
  using assms unfolding disk_writes_def by blast+

lemma open_for_write:
  assumes K: "disk_opens K path V"
  obtains f c' where "os (tg_open_write K (Direct path) mkdir offset) c = (Inr f, c')"
    "f \<in> fv_open V (kst (c_os c'))" "fv_pos V (kst (c_os c')) f = 0"
    "file_after V c' = Some (if offset = None then [] else present (file_after V c))"
    "c_req c' = c_req c" "c_rd c' = c_rd c" "c_rw c' = c_rw c"
proof -
  obtain u where u: "(if mkdir then (case path_parent path of None \<Rightarrow> returnE ()
      | Some parent \<Rightarrow> if parent \<noteq> [] then by_path parent (k_create_dir_all K parent) else returnE ()) else returnE ()) (c_os c) = (Inr (), u)"
    and same: "fv_content V (kst u) = file_after V c"
  proof (cases "mkdir \<and> (\<exists>p. path_parent path = Some p \<and> p \<noteq> [])")
    case True
    then obtain p w' where "path_parent path = Some p" "p \<noteq> []" "k_create_dir_all K p (kst (c_os c)) = (Inr (), w')"
      "fv_content V w' = file_after V c" using K unfolding disk_opens_def by metis
    with True that show ?thesis by (simp add: by_path_def sys_def)
  next
    case False
    with that [of "c_os c"] show ?thesis by (auto simp: returnE_def split: option.splits)
  qed
  let ?fl = "O_WRONLY OR O_CREAT OR O_CLOEXEC OR (if offset = None then O_TRUNC else 0)"
  have fl: "?fl AND O_CREAT \<noteq> 0" "?fl AND O_TRUNC \<noteq> 0 \<longleftrightarrow> offset = None" by (simp_all add: open_flags)
  obtain f w' where "k_open K path ?fl 438 (kst u) = (Inr f, w')" "f \<in> fv_open V w'" "fv_pos V w' f = 0"
    "fv_content V w' = Some (if offset = None then [] else present (fv_content V (kst u)))"
    using disk_openD [OF K disjI1 [OF fl(1)], of 438 "kst u"] unfolding fl(2) by blast
  with u same that show thesis
    by (simp add: os_def thenE_def bindE_run by_path_fd_def sys_fd_def Let_def)
qed

lemma store_body:
  assumes K: "disk_writes K V" and c: "body_ready c" "f \<in> fv_open V (kst (c_os c))" "file_after V c = Some x"
    and off: "fv_pos V (kst (c_os c)) f = off" "off + content_length (c_req c) \<le> off_max"
  obtains c' where "stream_body (\<lambda>chunk. sys (WriteFd f chunk) (k_write_all K f chunk)) c = (Inr (content_length (c_req c)), c')"
    "f \<in> fv_open V (kst (c_os c'))" "file_after V c' = Some (put_at off (body_of c) x)"
    "rd_bytes (c_rd c') = drop (content_length (c_req c)) (rd_bytes (c_rd c))" "c_rw c' = c_rw c"
proof -
  let ?n = "content_length (c_req c)"
  define P where "P acc u \<longleftrightarrow> f \<in> fv_open V (kst u) \<and> fv_pos V (kst u) f = off + length acc \<and>
    fv_content V (kst u) = Some (put_at off acc x)" for acc and u :: "'a osw"
  have len: "length (body_of c) = ?n" using c(1) by (simp add: body_of_def body_ready_def)
  have "\<exists>u'. sys (WriteFd f bs) (k_write_all K f bs) u = (Inr (), u') \<and> P (acc @ bs) u'"
    if p: "P acc u" and le: "length acc + length bs \<le> length (body_of c)" for acc bs u
  proof -
    have "fv_pos V (kst u) f + length bs \<le> off_max" using p le off(2) len by (simp add: P_def)
    with p obtain w' where "k_write_all K f bs (kst u) = (Inr (), w')" "f \<in> fv_open V w'"
      "fv_pos V w' f = fv_pos V (kst u) f + length bs" "fv_content V w' = Some (put_at (fv_pos V (kst u) f) bs (put_at off acc x))"
      unfolding P_def by (metis disk_writesD(1) [OF K])
    with p show ?thesis by (simp add: sys_def P_def put_at_append)
  qed
  moreover have "P [] (c_os c)" using c off(1) by (simp add: P_def)
  ultimately obtain c' where "stream_body (\<lambda>chunk. sys (WriteFd f chunk) (k_write_all K f chunk)) c = (Inr (length (body_of c)), c')"
    "P (body_of c) (c_os c')" "rd_bytes (c_rd c') = drop ?n (rd_bytes (c_rd c))" "c_rw c' = c_rw c"
    using stream_body_delivers [of P "body_of c" "\<lambda>chunk. sys (WriteFd f chunk) (k_write_all K f chunk)" c "drop ?n (rd_bytes (c_rd c))"]
      c(1) len by (auto simp: body_ready_def body_of_def)
  with that len show thesis by (simp add: P_def)
qed

lemma seek_to:
  assumes K: "disk_writes K V" and c: "f \<in> fv_open V (kst (c_os c))" "file_after V c = Some x" "fv_pos V (kst (c_os c)) f = 0"
    and off: "(case offset of None \<Rightarrow> 0 | Some n \<Rightarrow> n) \<le> off_max"
  obtains c' where "(case offset of Some n \<Rightarrow> os (sys (SeekFd f n) (k_seek K f n)) | None \<Rightarrow> returnE ()) c = (Inr (), c')"
    "f \<in> fv_open V (kst (c_os c'))" "file_after V c' = Some x" "fv_pos V (kst (c_os c')) f = (case offset of None \<Rightarrow> 0 | Some n \<Rightarrow> n)"
    "c_req c' = c_req c" "c_rd c' = c_rd c" "c_rw c' = c_rw c"
proof (cases offset)
  case None
  with c that [of c] show thesis by (simp add: returnE_def)
next
  case (Some n)
  with off disk_writesD(2) [OF K c(1,2), of n] obtain w' where
    "k_seek K f n (kst (c_os c)) = (Inr (), w')" "f \<in> fv_open V w'" "fv_pos V w' f = n" "fv_content V w' = Some x" by auto
  with Some that show thesis by (simp add: os_def sys_def)
qed

lemma truncate_to_size:
  assumes K: "disk_writes K V" and c: "f \<in> fv_open V (kst (c_os c))" "file_after V c = Some x"
    and le: "case fin of None \<Rightarrow> True | Some n \<Rightarrow> n \<le> off_max"
  obtains c' where "(case fin of Some n \<Rightarrow> os (sys (SetLen f n) (k_set_len K f n)) | None \<Rightarrow> returnE ()) c = (Inr (), c')"
    "f \<in> fv_open V (kst (c_os c'))" "file_after V c' = Some (case fin of None \<Rightarrow> x | Some n \<Rightarrow> resize n x)"
    "c_rd c' = c_rd c" "c_rw c' = c_rw c"
proof (cases fin)
  case None
  with c that [of c] show thesis by (simp add: returnE_def)
next
  case (Some n)
  with le disk_writesD(3) [OF K c(1,2), of n] obtain w' where
    "k_set_len K f n (kst (c_os c)) = (Inr (), w')" "f \<in> fv_open V w'" "fv_content V w' = Some (resize n x)" by auto
  with Some that show thesis by (simp add: os_def sys_def)
qed

lemma change_mode:
  assumes K: "disk_writes K V" and c: "f \<in> fv_open V (kst (c_os c))" "file_after V c = Some x"
  obtains c' where "(case mode of Some m \<Rightarrow> ignoreE (os (fchmod K f m)) | None \<Rightarrow> returnE ()) c = (Inr (), c')"
    "file_after V c' = Some x" "c_rd c' = c_rd c" "c_rw c' = c_rw c"
proof (cases mode)
  case None
  with c that [of c] show thesis by (simp add: returnE_def)
next
  case (Some m)
  obtain r w' where k: "k_fchmod K f m (kst (c_os c)) = (r, w')" by (cases "k_fchmod K f m (kst (c_os c))")
  with disk_writesD(4) [OF K c, of m] have "fv_content V w' = Some x" by simp
  with Some k that show thesis
    by (cases r) (simp_all add: ignoreE_def catchE_def returnE_def os_def sys_def fchmod_def)
qed

lemma write_json:
  assumes "room (rw_writer (c_rw c)) = None"
  obtains c' where "resp (rw_json C status j) c = (Inr (), c')" "c_os c' = c_os c" "c_rd c' = c_rd c"
    "sent (rw_writer (c_rw c')) = rw_output (c_rw c) @ fixed_response (rw_keep_alive (c_rw c)) status ''application/json'' (to_vec C j)"
proof -
  obtain rw where rw: "rw_json C status j (c_rw c) = (Inr (), rw)" using succeedsD [OF succeeds_rw(2) [of C status j] assms] by auto
  with that show thesis by (simp add: resp_def fixed_response_def rw_fixed_out [OF rw [unfolded rw_json_def]])
qed

lemma open_at:
  assumes disk: "disk_opens K path V" "disk_writes K V" and off: "(case offset of None \<Rightarrow> 0 | Some n \<Rightarrow> n) \<le> off_max"
  obtains f c1 c' where "os (tg_open_write K (Direct path) mkdir offset) c = (Inr f, c1)"
    "(case offset of Some n \<Rightarrow> os (sys (SeekFd f n) (k_seek K f n)) | None \<Rightarrow> returnE ()) c1 = (Inr (), c')"
    "f \<in> fv_open V (kst (c_os c'))" "file_after V c' = Some (if offset = None then [] else present (file_after V c))"
    "fv_pos V (kst (c_os c')) f = (case offset of None \<Rightarrow> 0 | Some n \<Rightarrow> n)"
    "c_req c' = c_req c" "c_rd c' = c_rd c" "c_rw c' = c_rw c"
proof -
  obtain f c1 where c1: "os (tg_open_write K (Direct path) mkdir offset) c = (Inr f, c1)"
    "f \<in> fv_open V (kst (c_os c1))" "fv_pos V (kst (c_os c1)) f = 0"
    "file_after V c1 = Some (if offset = None then [] else present (file_after V c))"
    "c_req c1 = c_req c" "c_rd c1 = c_rd c" "c_rw c1 = c_rw c"
    by (rule open_for_write [OF disk(1)])
  obtain c2 where c2: "(case offset of Some n \<Rightarrow> os (sys (SeekFd f n) (k_seek K f n)) | None \<Rightarrow> returnE ()) c1 = (Inr (), c2)"
    "f \<in> fv_open V (kst (c_os c2))" "file_after V c2 = Some (if offset = None then [] else present (file_after V c))"
    "fv_pos V (kst (c_os c2)) f = (case offset of None \<Rightarrow> 0 | Some n \<Rightarrow> n)"
    "c_req c2 = c_req c1" "c_rd c2 = c_rd c1" "c_rw c2 = c_rw c1"
    by (rule seek_to [OF disk(2) c1(2,4,3) off])
  show thesis by (rule that [OF c1(1) c2(1-4)]) (simp_all add: c1(5-7) c2(5-7))
qed

lemma finish_upload:
  assumes K: "disk_writes K V" and c: "f \<in> fv_open V (kst (c_os c))" "file_after V c = Some x"
    and le: "case fin of None \<Rightarrow> True | Some n \<Rightarrow> n \<le> off_max" and wr: "room (rw_writer (c_rw c)) = None"
  obtains c' where "catchE (case fin of Some n \<Rightarrow> os (sys (SetLen f n) (k_set_len K f n)) | None \<Rightarrow> returnE ())
      (\<lambda>_. thenE (case mode of Some m \<Rightarrow> ignoreE (os (fchmod K f m)) | None \<Rightarrow> returnE ()) (resp (rw_json C 200 j))) h c = (Inr (), c')"
    "file_after V c' = Some (case fin of None \<Rightarrow> x | Some n \<Rightarrow> resize n x)" "c_rd c' = c_rd c"
    "sent (rw_writer (c_rw c')) = rw_output (c_rw c) @ fixed_response (rw_keep_alive (c_rw c)) 200 ''application/json'' (to_vec C j)"
proof -
  obtain c1 where c1: "(case fin of Some n \<Rightarrow> os (sys (SetLen f n) (k_set_len K f n)) | None \<Rightarrow> returnE ()) c = (Inr (), c1)"
    "f \<in> fv_open V (kst (c_os c1))" "file_after V c1 = Some (case fin of None \<Rightarrow> x | Some n \<Rightarrow> resize n x)"
    "c_rd c1 = c_rd c" "c_rw c1 = c_rw c"
    by (rule truncate_to_size [OF K c le])
  obtain c2 where c2: "(case mode of Some m \<Rightarrow> ignoreE (os (fchmod K f m)) | None \<Rightarrow> returnE ()) c1 = (Inr (), c2)"
    "file_after V c2 = Some (case fin of None \<Rightarrow> x | Some n \<Rightarrow> resize n x)" "c_rd c2 = c_rd c1" "c_rw c2 = c_rw c1"
    by (rule change_mode [OF K c1(2,3)])
  have "room (rw_writer (c_rw c2)) = None" using wr c1(5) c2(4) by simp
  then obtain c3 where c3: "resp (rw_json C 200 j) c2 = (Inr (), c3)" "c_os c3 = c_os c2" "c_rd c3 = c_rd c2"
    "sent (rw_writer (c_rw c3)) = rw_output (c_rw c2) @ fixed_response (rw_keep_alive (c_rw c2)) 200 ''application/json'' (to_vec C j)"
    by (rule write_json)
  show thesis
    by (rule that [of c3]) (simp_all add: catchE_run thenE_def bindE_run c1(1,4,5) c2 c3)
qed

lemma upload_stores:
  assumes disk: "disk_opens K path V" "disk_writes K V" and c: "upload_ready path c"
  shows "\<exists>c'. handle_write C K None c = (Inr (), c') \<and>
    file_after V c' = Some (upload (param_u64 (c_req c) ''offset'') (param_u64 (c_req c) ''truncate_to'') (body_of c) (file_after V c)) \<and>
    rd_bytes (c_rd c') = drop (content_length (c_req c)) (rd_bytes (c_rd c)) \<and>
    sent (rw_writer (c_rw c')) = rw_output (c_rw c) @ fixed_response (rw_keep_alive (c_rw c)) 200 ''application/json''
      (to_vec C (JObject [(''path'', JString (lossy path)), (''size'', JNat (content_length (c_req c)))]))"
proof -
  let ?q = "c_req c" and ?mode = "Option.bind (hm_get (params (c_req c)) ''mode'') (from_str_radix 8 u32_max)"
    and ?j = "JObject [(''path'', JString (lossy path)), (''size'', JNat (content_length (c_req c)))]"
  define at fin where "at = param_u64 ?q ''offset''" and "fin = param_u64 ?q ''truncate_to''"
  define y where "y = (if at = None then [] else present (file_after V c))"
  have r: "hm_get (params ?q) ''path'' = Some path" "path \<noteq> []" "body_ready c" "room (rw_writer (c_rw c)) = None"
    and le: "(case at of None \<Rightarrow> 0 | Some n \<Rightarrow> n) + content_length ?q \<le> off_max" "case fin of None \<Rightarrow> True | Some n \<Rightarrow> n \<le> off_max"
    using c by (simp_all add: upload_ready_def upload_at_def at_def fin_def)
  have off: "(case at of None \<Rightarrow> 0 | Some n \<Rightarrow> n) \<le> off_max" using le(1) by linarith
  obtain f c1 c2 where c1: "os (tg_open_write K (Direct path) (bool_param (params ?q) ''mkdir'' True) at) c = (Inr f, c1)"
    and c2: "(case at of Some n \<Rightarrow> os (sys (SeekFd f n) (k_seek K f n)) | None \<Rightarrow> returnE ()) c1 = (Inr (), c2)"
      "f \<in> fv_open V (kst (c_os c2))" "file_after V c2 = Some y" "fv_pos V (kst (c_os c2)) f = (case at of None \<Rightarrow> 0 | Some n \<Rightarrow> n)"
    and e2: "c_req c2 = c_req c" "c_rd c2 = c_rd c" "c_rw c2 = c_rw c"
    unfolding y_def by (rule open_at [OF disk off])
  have b2: "body_ready c2" "body_of c2 = body_of c" using r(3) e2 by (simp_all add: body_ready_def body_of_def)
  obtain c3 where c3: "stream_body (\<lambda>chunk. sys (WriteFd f chunk) (k_write_all K f chunk)) c2 = (Inr (content_length ?q), c3)"
      "f \<in> fv_open V (kst (c_os c3))" "file_after V c3 = Some (put_at (case at of None \<Rightarrow> 0 | Some n \<Rightarrow> n) (body_of c) y)"
    and e3: "rd_bytes (c_rd c3) = drop (content_length ?q) (rd_bytes (c_rd c))" "c_rw c3 = c_rw c"
    by (rule store_body [OF disk(2) b2(1) c2(2-4), unfolded b2(2) e2, OF le(1)])
  have "room (rw_writer (c_rw c3)) = None" using r(4) e3(2) by simp
  note finish = finish_upload [OF disk(2) c3(2,3) le(2) this, of ?mode C ?j
    "\<lambda>e. resp (rw_error C 400 (''cannot truncate '' @ lossy path @ '' to '' @ show_nat (the fin) @ '': '' @ error_text K e))"]
  have up: "upload at fin (body_of c) (file_after V c) =
      (case fin of None \<Rightarrow> put_at (case at of None \<Rightarrow> 0 | Some n \<Rightarrow> n) (body_of c) y
       | Some n \<Rightarrow> resize n (put_at (case at of None \<Rightarrow> 0 | Some n \<Rightarrow> n) (body_of c) y))"
    by (auto simp: upload_def y_def split: option.split)
  have "require_path C K None c = (Inr (Some (Direct path)), c)" using r by (simp add: require_path_def on_req_def returnE_def)
  note run = this c1 [unfolded at_def] c2(1) [unfolded at_def] c3(1)
  show ?thesis
    unfolding at_def [symmetric] fin_def [symmetric] up
    by (rule finish) (simp add: handle_write_def Let_def on_req_def bindE_run catchE_run run fin_def e3 del: tg_open_write.simps)
qed

text \<open>
  C37: the write endpoint implements \<open>upload\<close>. On a disk that works, a request with its body at hand
  is answered 200 with the number of bytes written; the file then holds what \<open>upload\<close> makes of its old
  content, the offset, the stated final size and the exact body; and the read half stands right
  behind the body.
\<close>

theorem upload_refines:
  assumes "disk_opens K path V" and "disk_writes K V" and "upload_ready path c"
  shows "\<exists>c'. handle_write C K None c = (Inr (), c') \<and>
    file_after V c' = Some (upload (param_u64 (c_req c) ''offset'') (param_u64 (c_req c) ''truncate_to'') (body_of c) (file_after V c)) \<and>
    rd_bytes (c_rd c') = drop (content_length (c_req c)) (rd_bytes (c_rd c)) \<and>
    sent (rw_writer (c_rw c')) = rw_output (c_rw c) @ fixed_response (rw_keep_alive (c_rw c)) 200 ''application/json''
      (to_vec C (JObject [(''path'', JString (lossy path)), (''size'', JNat (content_length (c_req c)))]))"
  using assms by (rule upload_stores)

section \<open>A file in pieces\<close>

text \<open>Several uploads to one file, each on its own connection, served one after the other.\<close>

definition piece :: "'w conn \<Rightarrow> piece" where
  "piece c = (upload_at c, body_of c, param_u64 (c_req c) ''truncate_to'')"

fun write_all_in_turn :: "codec \<Rightarrow> ('w, 'z) kernel_scheme \<Rightarrow> 'w osw conn list \<Rightarrow> 'w osw \<Rightarrow> 'w osw" where
  "write_all_in_turn C K [] u = u"
| "write_all_in_turn C K (c # cs) u = write_all_in_turn C K cs (c_os (snd (handle_write C K None (c\<lparr>c_os := u\<rparr>))))"

definition ranged_upload :: "string \<Rightarrow> 'w conn \<Rightarrow> bool" where
  "ranged_upload path c \<longleftrightarrow> upload_ready path c \<and> param_u64 (c_req c) ''offset'' \<noteq> None"

lemma uploads_in_turn:
  assumes disk: "disk_opens K path V" "disk_writes K V" and "list_all (ranged_upload path) cs"
  shows "fv_content V (kst (write_all_in_turn C K cs u)) = uploads (map piece cs) (fv_content V (kst u))"
  using assms(3)
proof (induction cs arbitrary: u)
  case (Cons c cs)
  let ?c = "c\<lparr>c_os := u\<rparr>"
  have "upload_ready path ?c" "param_u64 (c_req c) ''offset'' = Some (upload_at c)" "body_of ?c = body_of c"
    using Cons.prems by (auto simp: ranged_upload_def upload_ready_def upload_at_def body_ready_def body_of_def)
  with upload_stores [OF disk, of ?c C] obtain c' where "handle_write C K None ?c = (Inr (), c')"
    "file_after V c' = Some (upload (Some (upload_at c)) (param_u64 (c_req c) ''truncate_to'') (body_of c) (fv_content V (kst u)))"
    by auto
  with Cons show ?case by (simp add: uploads_def piece_def)
qed (simp add: uploads_def)

lemma download_file:
  assumes disk: "disk_opens K path V" "disk_reads K V" and x: "file_after V d = Some x" "length x \<le> off_max"
    and d: "hm_get (params (c_req d)) ''path'' = Some path" "path \<noteq> []" "room (rw_writer (c_rw d)) = None"
      "\<forall>n. param_u64 (c_req d) ''offset'' = Some n \<longrightarrow> n \<le> off_max"
  shows "\<exists>d'. handle_read C K None d = (Inr (), d') \<and> sent (rw_writer (c_rw d')) = rw_output (c_rw d) @
    fixed_response (rw_keep_alive (c_rw d)) 200 ''application/octet-stream'' (range_of (c_req d) x)"
proof -
  let ?fl = "O_RDONLY OR O_CLOEXEC OR O_NONBLOCK" and ?w = "kst (c_os d)"
  have fl: "?fl AND O_TRUNC = 0" by (simp add: open_flags)
  obtain f w1 where w1: "k_open K path ?fl 438 ?w = (Inr f, w1)" "f \<in> fv_open V w1" "fv_pos V w1 f = 0" "fv_content V w1 = Some x"
    using disk_openD [OF disk(1), of ?fl ?w 438] x(1) fl by auto
  define I where "I w \<longleftrightarrow> f \<in> fv_open V w \<and> fv_content V w = Some x" for w
  have serves: "serves_file K I f x (\<lambda>w. fv_pos V w f)" using disk(2) by (simp add: disk_reads_def I_def [abs_def])
  then obtain md w2 where w2: "k_fstat K f w1 = (Inr md, w2)" "I w2" "is_file md" "fv_pos V w2 f = 0"
    using w1 unfolding serves_file_def I_def by metis
  obtain d2 where d2: "os (tg_open_read K (Direct path)) d = (Inr f, d2)" "kst (c_os d2) = w2" "c_req d2 = c_req d" "c_rw d2 = c_rw d"
    using w1(1) w2(1,3) by (simp add: os_def bindE_run by_path_fd_def sys_fd_def fd_metadata_def sys_def returnE_def)
  have "length x \<le> u64_max" using x(2) by (simp add: off_max_def u64_max_def)
  with send_file_range [OF serves, of d2 C path] d2(2-4) w2 d obtain d' where "send_file C K path f d2 = (Inr (), d')"
    "sent (rw_writer (c_rw d')) = rw_output (c_rw d) @
      fixed_response (rw_keep_alive (c_rw d)) 200 ''application/octet-stream'' (range_of (c_req d) x)" by auto
  moreover have "require_path C K None d = (Inr (Some (Direct path)), d)"
    using d by (simp add: require_path_def on_req_def returnE_def)
  ultimately show ?thesis
    using d2(1) by (simp add: handle_read_def bindE_run catchE_run del: tg_open_read.simps)
qed

text \<open>
  C21: chunked uploads put a file together. If ranged uploads, in any order, carry pieces of \<open>whole\<close>
  that together cover it, and at least one of them states the final size, then whatever the file held
  before, a download afterwards returns exactly the requested range of \<open>whole\<close>: no stale tail, no gap.
\<close>

theorem chunked_upload_download:
  assumes disk: "disk_opens K path V" "disk_writes K V" "disk_reads K V"
    and cs: "list_all (ranged_upload path) cs" "list_all (piece_of whole) (map piece cs)"
      "\<forall>i < length whole. covers (map piece cs) i" "sized (map piece cs)" "length whole \<le> off_max"
    and d: "hm_get (params (c_req d)) ''path'' = Some path" "path \<noteq> []" "room (rw_writer (c_rw d)) = None"
      "\<forall>n. param_u64 (c_req d) ''offset'' = Some n \<longrightarrow> n \<le> off_max"
  shows "\<exists>d'. handle_read C K None (d\<lparr>c_os := write_all_in_turn C K cs u\<rparr>) = (Inr (), d') \<and>
    sent (rw_writer (c_rw d')) = rw_output (c_rw d) @
      fixed_response (rw_keep_alive (c_rw d)) 200 ''application/octet-stream'' (range_of (c_req d) whole)"
proof -
  have "fv_content V (kst (write_all_in_turn C K cs u)) = Some whole"
    using uploads_in_turn [OF disk(1,2) cs(1)] uploads_whole [OF cs(2-4)] by simp
  with download_file [OF disk(1,3), of "d\<lparr>c_os := write_all_in_turn C K cs u\<rparr>" whole C] cs(5) d show ?thesis by simp
qed

section \<open>A working disk\<close>

text \<open>A disk that satisfies the laws, holding one file.\<close>

record disk =
  dk_content :: "string option"
  dk_pos :: "fd \<Rightarrow> nat"

definition disk_view :: "disk file_view" where
  "disk_view = \<lparr>fv_content = dk_content, fv_open = (\<lambda>w. if dk_content w = None then {} else UNIV), fv_pos = dk_pos\<rparr>"

definition disk_kernel :: "disk kernel" where
  "disk_kernel = \<lparr>
     k_openat = (\<lambda>d n fl m. throwE (OsError EPERM)),
     k_mkdirat = (\<lambda>d n m. throwE (OsError EPERM)),
     k_unlinkat = (\<lambda>d n fl. throwE (OsError EPERM)),
     k_dup = (\<lambda>d. throwE (OsError EPERM)),
     k_fchown = (\<lambda>f u. returnE ()),
     k_fchmod = (\<lambda>f m. returnE ()),
     k_fstat = (\<lambda>f w. (Inr \<lparr>md_kind = RegularFile, md_len = length (present (dk_content w)), md_uid = 0, md_mode = 384, md_mtime_ms = None\<rparr>, w)),
     k_readdir = (\<lambda>f. returnE []),
     k_read = (\<lambda>f n w. let bs = take n (drop (dk_pos w f) (present (dk_content w))) in
        (Inr bs, w\<lparr>dk_pos := (dk_pos w)(f := dk_pos w f + length bs)\<rparr>)),
     k_write_all = (\<lambda>f bs w. (Inr (), w\<lparr>dk_content := Some (put_at (dk_pos w f) bs (present (dk_content w))),
        dk_pos := (dk_pos w)(f := dk_pos w f + length bs)\<rparr>)),
     k_seek = (\<lambda>f n w. (Inr (), w\<lparr>dk_pos := (dk_pos w)(f := n)\<rparr>)),
     k_set_len = (\<lambda>f n w. (Inr (), w\<lparr>dk_content := Some (resize n (present (dk_content w)))\<rparr>)),
     k_open = (\<lambda>p fl m w. if fl AND O_CREAT = 0 \<and> dk_content w = None then (Inl (OsError ENOENT), w)
        else (Inr 5, w\<lparr>dk_content := Some (if fl AND O_TRUNC \<noteq> 0 then [] else present (dk_content w)), dk_pos := (dk_pos w)(5 := 0)\<rparr>)),
     k_create_dir_all = (\<lambda>p. returnE ()),
     k_lstat = (\<lambda>p. throwE (OsError EPERM)),
     k_read_dir = (\<lambda>p. returnE []),
     k_remove_dir_all = (\<lambda>p. returnE ()),
     k_remove_dir = (\<lambda>p. returnE ()),
     k_remove_file = (\<lambda>p. returnE ()),
     k_strerror = (\<lambda>n. ''error'')\<rparr>"

lemma disk_kernel_laws: "disk_opens disk_kernel path disk_view" "disk_writes disk_kernel disk_view" "disk_reads disk_kernel disk_view"
proof -
  show "disk_opens disk_kernel path disk_view"
    by (auto simp: disk_opens_def disk_kernel_def disk_view_def returnE_def)
  show "disk_writes disk_kernel disk_view"
    by (auto simp: disk_writes_def disk_kernel_def disk_view_def returnE_def)
  show "disk_reads disk_kernel disk_view"
    by (auto simp: disk_reads_def serves_file_def disk_kernel_def disk_view_def Let_def min_def split: if_splits)
qed

definition upload_conn :: "(string \<times> string) list \<Rightarrow> string \<Rightarrow> disk osw conn" where
  "upload_conn ps body = \<lparr>c_req = \<lparr>rq_method = ''PUT'', rq_path = ''/v1/files/write'', params = ps, raw_query = [], headers = [],
      content_length = length body, body_consumed = 0, rq_keep_alive = True\<rparr>, c_rd = (if body = [] then [] else [Chunk body]),
     c_rw = rw_new open_writer True, c_os = \<lparr>kst = \<lparr>dk_content = None, dk_pos = (\<lambda>_. 0)\<rparr>, log = []\<rparr>\<rparr>"

lemmas upload_eval = upload_conn_def upload_ready_def upload_at_def body_ready_def body_of_def param_u64_def hm_get_def parse_u64_def
  from_str_radix_def to_digit_def str_eval u64_max_def off_max_def rw_new_def open_writer_def

theorem upload_refines_witness:
  "\<exists>c'. handle_write demo_codec disk_kernel None (upload_conn [(''path'', ''/f''), (''offset'', ''2'')] ''xy'') = (Inr (), c') \<and>
     dk_content (kst (c_os c')) = Some [CHR 0x00, CHR 0x00, CHR ''x'', CHR ''y'']"
proof -
  let ?c = "upload_conn [(''path'', ''/f''), (''offset'', ''2'')] ''xy''"
  have "upload_ready ''/f'' ?c" by (simp add: upload_eval)
  from upload_refines [OF disk_kernel_laws(1,2) this, of demo_codec] show ?thesis
    by (auto simp: upload_eval disk_view_def upload_def put_at_def)
qed

theorem chunked_upload_download_witness:
  "\<exists>d'. handle_read demo_codec disk_kernel None ((upload_conn [(''path'', ''/f'')] [])\<lparr>c_os :=
      write_all_in_turn demo_codec disk_kernel
        [upload_conn [(''path'', ''/f''), (''offset'', ''2''), (''truncate_to'', ''3'')] ''c'',
         upload_conn [(''path'', ''/f''), (''offset'', ''0'')] ''ab'']
        \<lparr>kst = \<lparr>dk_content = Some ''stale content'', dk_pos = (\<lambda>_. 0)\<rparr>, log = []\<rparr>\<rparr>) = (Inr (), d') \<and>
    sent (rw_writer (c_rw d')) = fixed_response True 200 ''application/octet-stream'' ''abc''"
proof -
  let ?cs = "[upload_conn [(''path'', ''/f''), (''offset'', ''2''), (''truncate_to'', ''3'')] ''c'',
    upload_conn [(''path'', ''/f''), (''offset'', ''0'')] ''ab'']"
  let ?d = "upload_conn [(''path'', ''/f'')] []"
  have pieces: "map piece ?cs = [(2, ''c'', Some 3), (0, ''ab'', None)]" by (simp add: piece_def upload_eval)
  have ready: "list_all (ranged_upload ''/f'') ?cs" by (simp add: ranged_upload_def upload_eval)
  have "list_all (piece_of ''abc'') (map piece ?cs)" "sized (map piece ?cs)"
    unfolding pieces by (simp_all add: piece_of_def sized_def)
  moreover have "\<forall>i < length ''abc''. covers (map piece ?cs) i" unfolding pieces by (auto simp: covers_def)
  moreover have "length ''abc'' \<le> off_max" "hm_get (params (c_req ?d)) ''path'' = Some ''/f''" "''/f'' \<noteq> []"
    "room (rw_writer (c_rw ?d)) = None" "\<forall>n. param_u64 (c_req ?d) ''offset'' = Some n \<longrightarrow> n \<le> off_max"
    by (simp_all add: upload_eval)
  ultimately have "\<exists>d'. handle_read demo_codec disk_kernel None (?d\<lparr>c_os := write_all_in_turn demo_codec disk_kernel ?cs
        \<lparr>kst = \<lparr>dk_content = Some ''stale content'', dk_pos = (\<lambda>_. 0)\<rparr>, log = []\<rparr>\<rparr>) = (Inr (), d') \<and>
      sent (rw_writer (c_rw d')) = rw_output (c_rw ?d) @
        fixed_response (rw_keep_alive (c_rw ?d)) 200 ''application/octet-stream'' (range_of (c_req ?d) ''abc'')"
    by (intro chunked_upload_download [OF disk_kernel_laws ready])
  moreover have "range_of (c_req ?d) ''abc'' = ''abc''" "rw_output (c_rw ?d) = []" "rw_keep_alive (c_rw ?d)"
    by (simp_all add: range_of_def upload_eval wr_output_def)
  ultimately show ?thesis by simp
qed

end
