(* ===== verification/Proxy_Tunnel.thy ===== *)
theory Proxy_Tunnel
  imports Proxy
begin

text \<open>
  The two threads of a proxied connection, the end of \<open>handle_proxy\<close> in \<open>src/proxy.rs\<close>: \<open>pump\<close> copies from the client to the
  backend, the thread that serves the request copies from the backend to the client, and each shuts sockets down when it is
  through, which is what ends the other one. \<open>tunnel_step\<close> lets them interleave; the sequential \<open>tunnel\<close> of \<open>Proxy\<close> is the schedule
  \<open>tunnel_schedule\<close>.

  The lemmas show that in every interleaving each side receives a prefix of what the other sent, that a client which takes its
  bytes receives the whole answer whatever it does with its own sending side, and that the tunnel ends unless the backend keeps a
  silent connection open or the client stops reading.
\<close>

section \<open>One direction\<close>

text \<open>
  \<open>io::copy\<close>: in \<open>read\<close>, in \<open>write_all\<close> with the bytes not yet written, or over. The receiving side takes every byte, fails after some
  number of them, or stops taking them after some number (so that a write blocks).
\<close>

datatype copy = CopyRead | CopyWrite string | CopyEnd

datatype sink = Takes | Fails nat | Stalls nat

fun sink_takes :: "nat \<Rightarrow> sink \<Rightarrow> sink option" where
  "sink_takes n Takes = Some Takes"
| "sink_takes n (Fails k) = (if n \<le> k then Some (Fails (k - n)) else None)"
| "sink_takes n (Stalls k) = (if n \<le> k then Some (Stalls (k - n)) else None)"

text \<open>
  One direction: what the coming reads find and whether the sender holds its end open when that is over (a read then blocks), the copy,
  the receiving side, and what it has received.
\<close>

record flow =
  fl_src :: reader
  fl_open :: bool
  fl_copy :: copy
  fl_sink :: sink
  fl_out :: string

definition rest_of :: "string \<Rightarrow> reader \<Rightarrow> reader" where
  "rest_of tail es = (if tail = [] then es else Chunk tail # es)"

text \<open>
  One call of the copy. A read may find any part of what has arrived. A socket that was shut down for reading gives end of file,
  whatever is still queued; one that was shut down for writing refuses.
\<close>

inductive copy_step :: "bool \<Rightarrow> bool \<Rightarrow> flow \<Rightarrow> flow \<Rightarrow> bool" for rd_shut wr_shut where
  cp_read: "fl_copy f = CopyRead \<Longrightarrow> fl_src f = Chunk (bs @ tail) # es \<Longrightarrow> bs \<noteq> [] \<Longrightarrow>
     copy_step rd_shut wr_shut f (f\<lparr>fl_copy := CopyWrite bs, fl_src := rest_of tail es\<rparr>)"
| cp_interrupted: "fl_copy f = CopyRead \<Longrightarrow> fl_src f = RdErr e # es \<Longrightarrow> kind e = Interrupted \<Longrightarrow>
     copy_step rd_shut wr_shut f (f\<lparr>fl_src := es\<rparr>)"
| cp_error: "fl_copy f = CopyRead \<Longrightarrow> fl_src f = RdErr e # es \<Longrightarrow> kind e \<noteq> Interrupted \<Longrightarrow>
     copy_step rd_shut wr_shut f (f\<lparr>fl_copy := CopyEnd\<rparr>)"
| cp_eof: "fl_copy f = CopyRead \<Longrightarrow> fl_src f = [] \<and> \<not> fl_open f \<or> (\<exists>es. fl_src f = Chunk [] # es) \<or> rd_shut \<Longrightarrow>
     copy_step rd_shut wr_shut f (f\<lparr>fl_copy := CopyEnd\<rparr>)"
| cp_write: "fl_copy f = CopyWrite (bs @ left) \<Longrightarrow> bs \<noteq> [] \<Longrightarrow> \<not> wr_shut \<Longrightarrow> sink_takes (length bs) (fl_sink f) = Some k \<Longrightarrow>
     copy_step rd_shut wr_shut f
       (f\<lparr>fl_copy := if left = [] then CopyRead else CopyWrite left, fl_out := fl_out f @ bs, fl_sink := k\<rparr>)"
| cp_fail: "fl_copy f = CopyWrite bs \<Longrightarrow> wr_shut \<or> fl_sink f = Fails 0 \<Longrightarrow>
     copy_step rd_shut wr_shut f (f\<lparr>fl_copy := CopyEnd\<rparr>)"

text \<open>What a copy that nothing disturbs carries.\<close>

fun copy_bytes :: "reader \<Rightarrow> string" where
  "copy_bytes [] = []"
| "copy_bytes (RdErr e # es) = (if kind e = Interrupted then copy_bytes es else [])"
| "copy_bytes (Chunk bs # es) = (if bs = [] then [] else bs @ copy_bytes es)"

fun in_hand :: "copy \<Rightarrow> string" where
  "in_hand (CopyWrite bs) = bs"
| "in_hand _ = []"

lemma copy_bytes_rest: "bs \<noteq> [] \<Longrightarrow> copy_bytes (Chunk (bs @ tail) # es) = bs @ copy_bytes (rest_of tail es)"
  by (simp add: rest_of_def)

text \<open>Bytes only move: from the source to the hand, from there to the receiving side.\<close>

definition flow_ok :: "string \<Rightarrow> flow \<Rightarrow> bool" where
  "flow_ok whole f \<longleftrightarrow> fl_copy f \<noteq> CopyWrite [] \<and>
     (if fl_copy f = CopyEnd then prefix (fl_out f) whole else fl_out f @ in_hand (fl_copy f) @ copy_bytes (fl_src f) = whole)"

lemma flow_ok_prefix: "flow_ok whole f \<Longrightarrow> prefix (fl_out f) whole"
  by (auto simp: flow_ok_def split: if_splits)

lemma copy_step_ok:
  assumes "copy_step rs ws f g" and "flow_ok whole f"
  shows "flow_ok whole g"
  using assms(1)
proof cases
  case (cp_read bs tail es)
  then show ?thesis using assms(2) copy_bytes_rest [of bs tail es] by (simp add: flow_ok_def)
qed (use assms(2) in \<open>auto simp: flow_ok_def split: if_splits\<close>)

text \<open>A copy that ended with neither socket shut down and a receiver that takes everything has carried all.\<close>

definition carried :: "string \<Rightarrow> flow \<Rightarrow> bool" where
  "carried whole f \<longleftrightarrow> (fl_sink f = Takes \<and> fl_copy f = CopyEnd \<longrightarrow> fl_out f = whole)"

lemma copy_step_carried:
  assumes "copy_step False False f g" and "flow_ok whole f" and "carried whole f"
  shows "carried whole g"
  using assms by cases (auto simp: flow_ok_def carried_def elim!: sink_takes.elims)

text \<open>A copy makes finitely many calls, and one that cannot go on is over or waits for a peer.\<close>

fun src_left :: "reader \<Rightarrow> nat" where
  "src_left [] = 0"
| "src_left (RdErr e # es) = Suc (src_left es)"
| "src_left (Chunk bs # es) = Suc (2 * length bs + src_left es)"

fun copy_left :: "copy \<Rightarrow> nat" where
  "copy_left CopyRead = 1"
| "copy_left (CopyWrite bs) = Suc (length bs)"
| "copy_left CopyEnd = 0"

definition flow_left :: "flow \<Rightarrow> nat" where
  "flow_left f = src_left (fl_src f) + copy_left (fl_copy f)"

lemma copy_step_left: "copy_step rs ws f g \<Longrightarrow> flow_left g < flow_left f"
  by (cases rule: copy_step.cases, assumption) (auto simp: flow_left_def rest_of_def)

definition waiting :: "bool \<Rightarrow> bool \<Rightarrow> flow \<Rightarrow> bool" where
  "waiting rd_shut wr_shut f \<longleftrightarrow>
     (fl_copy f = CopyRead \<and> fl_src f = [] \<and> fl_open f \<and> \<not> rd_shut) \<or>
     (\<exists>bs. fl_copy f = CopyWrite bs \<and> fl_sink f = Stalls 0 \<and> \<not> wr_shut)"

lemma sink_progress: "0 < n \<Longrightarrow> k \<noteq> Fails 0 \<Longrightarrow> k \<noteq> Stalls 0 \<Longrightarrow> \<exists>j. sink_takes 1 k = Some j"
  by (cases k) auto

lemma copy_progress:
  assumes "flow_ok whole f" and "fl_copy f \<noteq> CopyEnd" and "\<not> waiting rs ws f"
  shows "\<exists>g. copy_step rs ws f g"
proof (cases "fl_copy f")
  case CopyRead
  show ?thesis
  proof (cases "fl_src f")
    case Nil
    with CopyRead assms(3) show ?thesis by (auto simp: waiting_def intro: cp_eof)
  next
    case (Cons ev es)
    show ?thesis
    proof (cases ev)
      case (RdErr e)
      with Cons CopyRead show ?thesis by (cases "kind e = Interrupted") (auto intro: cp_interrupted cp_error)
    next
      case (Chunk bs)
      with Cons CopyRead cp_read [of f bs "[]" es] show ?thesis by (cases "bs = []") (auto intro: cp_eof)
    qed
  qed
next
  case (CopyWrite bs)
  then obtain b bs' where bs: "bs = [b] @ bs'" using assms(1) by (cases bs) (auto simp: flow_ok_def)
  show ?thesis
  proof (cases "ws \<or> fl_sink f = Fails 0")
    case True
    with CopyWrite show ?thesis by (auto intro: cp_fail)
  next
    case False
    with CopyWrite assms(3) have "fl_sink f \<noteq> Stalls 0" by (auto simp: waiting_def)
    with False obtain k where "sink_takes (length [b]) (fl_sink f) = Some k" using sink_progress by fastforce
    with CopyWrite bs False cp_write [of f "[b]" bs' ws k] show ?thesis by fastforce
  qed
qed (use assms in simp)

section \<open>The two threads\<close>

text \<open>
  Where the two threads are: in the copy, before each of their two calls of \<open>shutdown\<close>, and for the thread that serves the
  request in \<open>pump.join()\<close> and past it.
\<close>

datatype pump = PumpCopy | PumpShutBackend | PumpShutClient | PumpDone
datatype proxy_main = MainCopy | MainShutBackend | MainShutClient | MainJoin | MainReturned

record tunnel_state =
  tn_up :: flow
  tn_down :: flow
  tn_pump :: pump
  tn_main :: proxy_main
  tn_client_rd_shut :: bool
  tn_client_wr_shut :: bool
  tn_backend_rd_shut :: bool
  tn_backend_wr_shut :: bool

inductive tunnel_step :: "tunnel_state \<Rightarrow> tunnel_state \<Rightarrow> bool" where
  tn_pump_copy: "tn_pump s = PumpCopy \<Longrightarrow> copy_step (tn_client_rd_shut s) (tn_backend_wr_shut s) (tn_up s) f \<Longrightarrow>
     tunnel_step s (s\<lparr>tn_up := f\<rparr>)"
| tn_pump_ends: "tn_pump s = PumpCopy \<Longrightarrow> fl_copy (tn_up s) = CopyEnd \<Longrightarrow> tunnel_step s (s\<lparr>tn_pump := PumpShutBackend\<rparr>)"
| tn_pump_backend: "tn_pump s = PumpShutBackend \<Longrightarrow> tunnel_step s (s\<lparr>tn_pump := PumpShutClient, tn_backend_wr_shut := True\<rparr>)"
| tn_pump_client: "tn_pump s = PumpShutClient \<Longrightarrow> tunnel_step s (s\<lparr>tn_pump := PumpDone, tn_client_rd_shut := True\<rparr>)"
| tn_main_copy: "tn_main s = MainCopy \<Longrightarrow> copy_step (tn_backend_rd_shut s) (tn_client_wr_shut s) (tn_down s) f \<Longrightarrow>
     tunnel_step s (s\<lparr>tn_down := f\<rparr>)"
| tn_main_ends: "tn_main s = MainCopy \<Longrightarrow> fl_copy (tn_down s) = CopyEnd \<Longrightarrow> tunnel_step s (s\<lparr>tn_main := MainShutBackend\<rparr>)"
| tn_main_backend: "tn_main s = MainShutBackend \<Longrightarrow>
     tunnel_step s (s\<lparr>tn_main := MainShutClient, tn_backend_rd_shut := True, tn_backend_wr_shut := True\<rparr>)"
| tn_main_client: "tn_main s = MainShutClient \<Longrightarrow>
     tunnel_step s (s\<lparr>tn_main := MainJoin, tn_client_rd_shut := True, tn_client_wr_shut := True\<rparr>)"
| tn_main_join: "tn_main s = MainJoin \<Longrightarrow> tn_pump s = PumpDone \<Longrightarrow> tunnel_step s (s\<lparr>tn_main := MainReturned\<rparr>)"

definition flow_start :: "reader \<Rightarrow> bool \<Rightarrow> sink \<Rightarrow> flow" where
  "flow_start src open_end k = \<lparr>fl_src = src, fl_open = open_end, fl_copy = CopyRead, fl_sink = k, fl_out = []\<rparr>"

definition tunnel_start :: "flow \<Rightarrow> flow \<Rightarrow> tunnel_state" where
  "tunnel_start up down = \<lparr>tn_up = up, tn_down = down, tn_pump = PumpCopy, tn_main = MainCopy,
     tn_client_rd_shut = False, tn_client_wr_shut = False, tn_backend_rd_shut = False, tn_backend_wr_shut = False\<rparr>"

definition tunnel_init :: "string \<Rightarrow> string \<Rightarrow> tunnel_state \<Rightarrow> bool" where
  "tunnel_init up down s \<longleftrightarrow> (\<exists>r o1 k1 q o2 k2. s = tunnel_start (flow_start r o1 k1) (flow_start q o2 k2) \<and>
     copy_bytes r = up \<and> copy_bytes q = down)"

text \<open>
  Until the serving thread shuts sockets down, only the pump has, and only after its own copy. From \<open>pump.join()\<close> on, the pump's
  two sockets are shut down, so that it cannot block.
\<close>

definition tunnel_inv :: "string \<Rightarrow> string \<Rightarrow> tunnel_state \<Rightarrow> bool" where
  "tunnel_inv up down s \<longleftrightarrow> flow_ok up (tn_up s) \<and> flow_ok down (tn_down s) \<and>
     carried down (tn_down s) \<and>
     (tn_main s \<in> {MainCopy, MainShutBackend} \<longrightarrow> carried up (tn_up s) \<and> \<not> tn_backend_rd_shut s \<and> \<not> tn_client_wr_shut s) \<and>
     (tn_pump s = PumpCopy \<and> tn_main s \<in> {MainCopy, MainShutBackend} \<longrightarrow> \<not> tn_client_rd_shut s \<and> \<not> tn_backend_wr_shut s) \<and>
     (tn_pump s = PumpCopy \<or> fl_copy (tn_up s) = CopyEnd) \<and>
     (tn_main s = MainCopy \<or> fl_copy (tn_down s) = CopyEnd) \<and>
     (tn_main s \<in> {MainShutClient, MainJoin, MainReturned} \<longrightarrow> tn_backend_wr_shut s) \<and>
     (tn_main s \<in> {MainJoin, MainReturned} \<longrightarrow> tn_client_rd_shut s) \<and>
     (tn_main s = MainReturned \<longrightarrow> tn_pump s = PumpDone)"

lemma tunnel_inv_step:
  assumes inv: "tunnel_inv up down s" and "tunnel_step s t"
  shows "tunnel_inv up down t"
  using assms(2)
proof cases
  case (tn_pump_copy f)
  moreover have "flow_ok up f" using inv tn_pump_copy copy_step_ok by (auto simp: tunnel_inv_def)
  moreover have "carried up f" if "tn_main s \<in> {MainCopy, MainShutBackend}"
    using inv that tn_pump_copy copy_step_carried [of "tn_up s" f up] by (auto simp: tunnel_inv_def)
  ultimately show ?thesis using inv by (auto simp: tunnel_inv_def)
next
  case (tn_main_copy f)
  moreover have "flow_ok down f" using inv tn_main_copy copy_step_ok by (auto simp: tunnel_inv_def)
  moreover have "carried down f"
    using inv tn_main_copy copy_step_carried [of "tn_down s" f down] by (auto simp: tunnel_inv_def)
  ultimately show ?thesis using inv by (auto simp: tunnel_inv_def)
qed (use inv in \<open>auto simp: tunnel_inv_def\<close>)

lemma tunnel_inv_init: "tunnel_init up down s \<Longrightarrow> tunnel_inv up down s"
  by (auto simp: tunnel_init_def tunnel_start_def flow_start_def tunnel_inv_def flow_ok_def carried_def)

interpretation tun: inductive_invariant "tunnel_init up down" tunnel_step "tunnel_inv up down" for up down
  by unfold_locales (rule tunnel_inv_init tunnel_inv_step; assumption)+

text \<open>Every step brings the end nearer.\<close>

fun pump_left :: "pump \<Rightarrow> nat" where
  "pump_left PumpCopy = 3" | "pump_left PumpShutBackend = 2" | "pump_left PumpShutClient = 1" | "pump_left PumpDone = 0"

fun main_left :: "proxy_main \<Rightarrow> nat" where
  "main_left MainCopy = 4" | "main_left MainShutBackend = 3" | "main_left MainShutClient = 2"
| "main_left MainJoin = 1" | "main_left MainReturned = 0"

definition tunnel_left :: "tunnel_state \<Rightarrow> nat" where
  "tunnel_left s = flow_left (tn_up s) + flow_left (tn_down s) + pump_left (tn_pump s) + main_left (tn_main s)"

lemma tunnel_step_left: "tunnel_step s t \<Longrightarrow> tunnel_left t < tunnel_left s"
  by (cases rule: tunnel_step.cases, assumption) (auto simp: tunnel_left_def dest: copy_step_left)

lemma tunnel_steps_bound: "(tunnel_step ^^ n) s t \<Longrightarrow> n + tunnel_left t \<le> tunnel_left s"
  by (induction n arbitrary: t) (auto dest!: tunnel_step_left, force)

lemma tunnel_stuck:
  assumes inv: "tunnel_inv up down s" and stuck: "\<nexists>t. tunnel_step s t"
  shows "tn_main s = MainReturned \<and> tn_pump s = PumpDone \<or> tn_main s = MainCopy \<and> waiting False False (tn_down s)"
proof (cases "tn_main s")
  case MainCopy
  have shut: "\<not> tn_backend_rd_shut s" "\<not> tn_client_wr_shut s" "flow_ok down (tn_down s)"
    using inv MainCopy by (auto simp: tunnel_inv_def)
  have "fl_copy (tn_down s) \<noteq> CopyEnd" using stuck MainCopy by (auto dest: tn_main_ends)
  then have "waiting False False (tn_down s)"
    using copy_progress [OF shut(3), of False False] stuck tn_main_copy [OF MainCopy] shut(1,2) by auto
  with MainCopy show ?thesis by simp
next
  case MainJoin
  have shut: "tn_client_rd_shut s" "tn_backend_wr_shut s" "flow_ok up (tn_up s)"
    using inv MainJoin by (auto simp: tunnel_inv_def)
  have "\<not> waiting True True (tn_up s)" by (simp add: waiting_def)
  then have "fl_copy (tn_up s) = CopyEnd \<or> (\<exists>g. copy_step True True (tn_up s) g)" using copy_progress [OF shut(3)] by blast
  with stuck shut(1,2) have "tn_pump s \<noteq> PumpCopy" by (metis (full_types) tn_pump_ends tn_pump_copy)
  with stuck tn_main_join [OF MainJoin] have False
    by (cases "tn_pump s") (auto dest: tn_pump_backend tn_pump_client)
  then show ?thesis ..
qed (use inv stuck in \<open>auto simp: tunnel_inv_def dest: tn_main_backend tn_main_client\<close>)

text \<open>
  C29: a proxied connection never garbles or invents bytes. In every interleaving of the two threads, with partial reads and writes,
  errors and shutdowns, the backend has received a prefix of what the client sent and the client a prefix of what the backend
  sent. When the proxy returns, a client that takes its bytes has the whole answer, even if it closed its own sending side long before; and while
  the answer is still coming, a pump that is through has delivered everything the client sent.
\<close>

theorem tunnel_delivers:
  assumes "reach (tunnel_init up down) tunnel_step s"
  shows "prefix (fl_out (tn_up s)) up \<and> prefix (fl_out (tn_down s)) down \<and>
    (tn_main s = MainReturned \<and> fl_sink (tn_down s) = Takes \<longrightarrow> fl_out (tn_down s) = down) \<and>
    (tn_main s = MainCopy \<and> tn_pump s \<noteq> PumpCopy \<and> fl_sink (tn_up s) = Takes \<longrightarrow> fl_out (tn_up s) = up)"
proof -
  note inv = tun.reach_inv [OF assms, unfolded tunnel_inv_def carried_def]
  have "prefix (fl_out (tn_up s)) up" "prefix (fl_out (tn_down s)) down" using inv flow_ok_prefix by simp_all
  moreover have "fl_out (tn_down s) = down" if "tn_main s = MainReturned \<and> fl_sink (tn_down s) = Takes"
    using inv that by simp
  moreover have "fl_out (tn_up s) = up" if "tn_main s = MainCopy \<and> tn_pump s \<noteq> PumpCopy \<and> fl_sink (tn_up s) = Takes"
    using inv that by simp
  ultimately show ?thesis by blast
qed

text \<open>
  C30: a proxied connection ends. From every reachable state only boundedly many steps are possible; and if none is, both threads are
  through, or the serving thread waits for a backend that keeps a silent connection open or for a client that has stopped
  reading. A client that is merely idle, or a backend that has stopped reading, does not keep the tunnel up once the backend closes.
\<close>

theorem tunnel_ends:
  assumes "reach (tunnel_init up down) tunnel_step s"
  shows "(\<forall>n t. (tunnel_step ^^ n) s t \<longrightarrow> n \<le> tunnel_left s) \<and>
    ((\<nexists>t. tunnel_step s t) \<longrightarrow>
       tn_main s = MainReturned \<and> tn_pump s = PumpDone \<or> tn_main s = MainCopy \<and> waiting False False (tn_down s))"
  using tunnel_stuck [OF tun.reach_inv [OF assms]] tunnel_steps_bound by (meson add_leD1)

section \<open>The schedule of the sequential definition\<close>

lemma copy_bytes_clean: "rd_clean r \<Longrightarrow> copy_bytes r = rd_bytes r"
  by (induction r rule: rd_clean.induct) auto

lemma copy_run:
  assumes "fl_src f = r" and "rd_clean r" and "\<not> fl_open f" and "fl_sink f = Takes" and "fl_copy f = CopyRead"
  shows "(copy_step False False)\<^sup>*\<^sup>* f (f\<lparr>fl_src := [], fl_copy := CopyEnd, fl_out := fl_out f @ rd_bytes r\<rparr>)"
  using assms
proof (induction r arbitrary: f rule: rd_clean.induct)
  case 1
  have "f\<lparr>fl_src := [], fl_copy := CopyEnd, fl_out := fl_out f @ rd_bytes []\<rparr> = f\<lparr>fl_copy := CopyEnd\<rparr>"
    using 1(1) by (cases f) simp
  moreover have "copy_step False False f (f\<lparr>fl_copy := CopyEnd\<rparr>)" using 1 by (intro cp_eof) auto
  ultimately show ?case by simp
next
  case (3 bs es)
  let ?f1 = "f\<lparr>fl_copy := CopyWrite bs, fl_src := es\<rparr>"
  let ?f2 = "?f1\<lparr>fl_copy := CopyRead, fl_out := fl_out f @ bs, fl_sink := Takes\<rparr>"
  have "copy_step False False f ?f1" using cp_read [of f bs "[]" es] 3 by (simp add: rest_of_def)
  moreover have "copy_step False False ?f1 ?f2" using cp_write [of ?f1 bs "[]" False Takes] 3 by simp
  moreover have "(copy_step False False)\<^sup>*\<^sup>* ?f2 (?f2\<lparr>fl_src := [], fl_copy := CopyEnd, fl_out := fl_out ?f2 @ rd_bytes es\<rparr>)"
    using 3 by (intro "3.IH") simp_all
  moreover have "?f2\<lparr>fl_src := [], fl_copy := CopyEnd, fl_out := fl_out ?f2 @ rd_bytes es\<rparr> =
      f\<lparr>fl_src := [], fl_copy := CopyEnd, fl_out := fl_out f @ rd_bytes (Chunk bs # es)\<rparr>"
    using 3(5) by (cases f) simp
  ultimately show ?case by (metis (no_types, lifting) converse_rtranclp_into_rtranclp)
qed simp

text \<open>The run in which the pump goes first.\<close>

lemma pump_runs:
  assumes "(copy_step False False)\<^sup>*\<^sup>* (tn_up s) f" and "tn_pump s = PumpCopy" "\<not> tn_client_rd_shut s" "\<not> tn_backend_wr_shut s"
  shows "tunnel_step\<^sup>*\<^sup>* s (s\<lparr>tn_up := f\<rparr>)"
  using assms(1)
proof (induction rule: rtranclp_induct)
  case (step g h)
  with tn_pump_copy [of "s\<lparr>tn_up := g\<rparr>" h] assms(2-) show ?case by (simp add: rtranclp.rtrancl_into_rtrancl)
qed simp

lemma main_runs:
  assumes "(copy_step False False)\<^sup>*\<^sup>* (tn_down s) f" and "tn_main s = MainCopy" "\<not> tn_backend_rd_shut s" "\<not> tn_client_wr_shut s"
  shows "tunnel_step\<^sup>*\<^sup>* s (s\<lparr>tn_down := f\<rparr>)"
  using assms(1)
proof (induction rule: rtranclp_induct)
  case (step g h)
  with tn_main_copy [of "s\<lparr>tn_down := g\<rparr>" h] assms(2-) show ?case by (simp add: rtranclp.rtrancl_into_rtrancl)
qed simp

lemma tunnel_schedule:
  assumes "rd_clean up" and "rd_clean down"
  shows "\<exists>t. tunnel_step\<^sup>*\<^sup>* (tunnel_start (flow_start up False Takes) (flow_start down False Takes)) t \<and>
    tn_main t = MainReturned \<and> fl_out (tn_up t) = rd_bytes up \<and> fl_out (tn_down t) = rd_bytes down \<and>
    fl_sink (tn_up t) = Takes \<and> fl_sink (tn_down t) = Takes"
proof -
  let ?s0 = "tunnel_start (flow_start up False Takes) (flow_start down False Takes)"
  define f g where "f = (flow_start up False Takes)\<lparr>fl_src := [], fl_copy := CopyEnd, fl_out := rd_bytes up\<rparr>"
    and "g = (flow_start down False Takes)\<lparr>fl_src := [], fl_copy := CopyEnd, fl_out := rd_bytes down\<rparr>"
  let ?s1 = "?s0\<lparr>tn_up := f\<rparr>"
  have fg: "(copy_step False False)\<^sup>*\<^sup>* (tn_up ?s0) f" "(copy_step False False)\<^sup>*\<^sup>* (tn_down ?s0) g"
    using copy_run [of "flow_start up False Takes" up] copy_run [of "flow_start down False Takes" down] assms
    by (simp_all add: f_def g_def flow_start_def tunnel_start_def)
  have r1: "tunnel_step\<^sup>*\<^sup>* ?s0 ?s1" by (rule pump_runs [OF fg(1)]) (simp_all add: tunnel_start_def)
  let ?s2 = "?s1\<lparr>tn_pump := PumpShutBackend\<rparr>" and ?s3 = "?s1\<lparr>tn_pump := PumpShutClient, tn_backend_wr_shut := True\<rparr>"
  let ?s4 = "?s1\<lparr>tn_pump := PumpDone, tn_backend_wr_shut := True, tn_client_rd_shut := True\<rparr>"
  have p: "tunnel_step ?s1 ?s2" "tunnel_step ?s2 ?s3" "tunnel_step ?s3 ?s4"
    using tn_pump_ends [of ?s1] tn_pump_backend [of ?s2] tn_pump_client [of ?s3] by (simp_all add: tunnel_start_def f_def)
  let ?s5 = "?s4\<lparr>tn_down := g\<rparr>"
  have r2: "tunnel_step\<^sup>*\<^sup>* ?s4 ?s5" using fg(2) by (intro main_runs) (simp_all add: tunnel_start_def)
  let ?s6 = "?s5\<lparr>tn_main := MainShutBackend\<rparr>"
  let ?s7 = "?s5\<lparr>tn_main := MainShutClient, tn_backend_rd_shut := True, tn_backend_wr_shut := True\<rparr>"
  let ?s8 = "?s7\<lparr>tn_main := MainJoin, tn_client_rd_shut := True, tn_client_wr_shut := True\<rparr>"
  let ?s9 = "?s8\<lparr>tn_main := MainReturned\<rparr>"
  have m: "tunnel_step ?s5 ?s6" "tunnel_step ?s6 ?s7" "tunnel_step ?s7 ?s8" "tunnel_step ?s8 ?s9"
    using tn_main_ends [of ?s5] tn_main_backend [of ?s6] tn_main_client [of ?s7] tn_main_join [of ?s8]
    by (simp_all add: tunnel_start_def g_def)
  have "tunnel_step\<^sup>*\<^sup>* ?s0 ?s9"
    using r1 p r2 m by (meson rtranclp.rtrancl_into_rtrancl rtranclp_trans)
  then show ?thesis by (intro exI [of _ ?s9]) (simp add: f_def g_def flow_start_def)
qed
section \<open>Witnesses\<close>

lemma tunnel_example:
  obtains s where "reach (tunnel_init ''ping'' ''pong'') tunnel_step s" "tn_main s = MainReturned" "tn_pump s = PumpDone"
    "fl_sink (tn_down s) = Takes"
proof -
  let ?s = "tunnel_start (flow_start [Chunk ''pi'', Chunk ''ng''] False Takes) (flow_start [Chunk ''pong''] False Takes)"
  have "tunnel_init ''ping'' ''pong'' ?s"
    unfolding tunnel_init_def by (intro exI conjI, rule refl) simp_all
  then have r: "reach (tunnel_init ''ping'' ''pong'') tunnel_step ?s" by (rule reach_init)
  obtain t where t: "tunnel_step\<^sup>*\<^sup>* ?s t" "tn_main t = MainReturned" "fl_sink (tn_down t) = Takes"
    using tunnel_schedule [of "[Chunk ''pi'', Chunk ''ng'']" "[Chunk ''pong'']"] by auto
  have "reach (tunnel_init ''ping'' ''pong'') tunnel_step t" using r t(1) by (rule reach_steps)
  moreover from tun.reach_inv [OF this] t(2) have "tn_pump t = PumpDone" by (simp add: tunnel_inv_def)
  ultimately show thesis using that t by blast
qed

theorem tunnel_delivers_witness:
  "\<exists>s. reach (tunnel_init ''ping'' ''pong'') tunnel_step s \<and> tn_main s = MainReturned \<and> fl_out (tn_down s) = ''pong''"
proof -
  obtain s where s: "reach (tunnel_init ''ping'' ''pong'') tunnel_step s" "tn_main s = MainReturned" "fl_sink (tn_down s) = Takes"
    by (rule tunnel_example)
  with tunnel_delivers [OF s(1)] show ?thesis by blast
qed

text \<open>A client that stays connected without a word, and a backend that answers and closes.\<close>

theorem tunnel_ends_witness:
  "\<exists>s. tunnel_init [] ''pong'' s \<and> fl_open (tn_up s) \<and> (\<nexists>t. (tunnel_step ^^ 19) s t) \<and> (\<exists>t. tunnel_step s t)"
proof -
  let ?s = "tunnel_start (flow_start [] True Takes) (flow_start [Chunk ''pong''] False Takes)"
  have i: "tunnel_init [] ''pong'' ?s"
    unfolding tunnel_init_def by (intro exI conjI, rule refl) simp_all
  have "tunnel_left ?s = 18" by (simp add: tunnel_left_def tunnel_start_def flow_start_def flow_left_def)
  moreover have "\<not> (tn_main ?s = MainReturned)" "\<not> waiting False False (tn_down ?s)"
    by (simp_all add: tunnel_start_def flow_start_def waiting_def)
  ultimately have "\<nexists>t. (tunnel_step ^^ 19) ?s t" "\<exists>t. tunnel_step ?s t"
    using tunnel_ends [OF reach_init, OF i] by fastforce+
  moreover have "fl_open (tn_up ?s)" by (simp add: tunnel_start_def flow_start_def)
  ultimately show ?thesis using i by blast
qed

end
