(* ===== verification/Fs_Scope.thy ===== *)
theory Fs_Scope
  imports Files
begin

text \<open>
  What the file endpoints of a sandbox can change on disk. \<open>Files\<close> shows which calls the handlers make; here the calls of the log are tied
  to the state of the operating system, and the documented meaning of the descriptor-relative calls (\<open>unix_fs\<close>) turns the discipline
  of the log into a statement on inodes: nothing outside the home changes, while the processes of the sandbox rearrange what is inside.
\<close>

unbundle bit_operations_syntax

section \<open>From the log to the file system\<close>

text \<open>
  \<open>performs K c r w v\<close>: the call \<open>c\<close>, made in state \<open>w\<close>, returns the descriptor \<open>r\<close> and leaves \<open>v\<close>. The one path the handlers open is the
  home, with the flags of \<open>ScopedRoot::open\<close>.
\<close>

definition fd_of :: "fd result \<Rightarrow> fd option" where
  "fd_of x = (case x of Inl _ \<Rightarrow> None | Inr f \<Rightarrow> Some f)"

definition HOME_FLAGS :: flags where
  "HOME_FLAGS = O_RDONLY OR O_DIRECTORY OR O_CLOEXEC OR O_NOFOLLOW"

fun performs :: "('w, 'z) kernel_scheme \<Rightarrow> fs_call \<Rightarrow> fd option \<Rightarrow> 'w \<Rightarrow> 'w \<Rightarrow> bool" where
  "performs K (Openat d n fl m) r w v \<longleftrightarrow> r = fd_of (fst (k_openat K d n fl m w)) \<and> v = snd (k_openat K d n fl m w)"
| "performs K (Dup d) r w v \<longleftrightarrow> r = fd_of (fst (k_dup K d w)) \<and> v = snd (k_dup K d w)"
| "performs K (ByPath p) r w v \<longleftrightarrow> r = fd_of (fst (k_open K p HOME_FLAGS 0 w)) \<and> v = snd (k_open K p HOME_FLAGS 0 w)"
| "performs K (Mkdirat d n m) r w v \<longleftrightarrow> r = None \<and> v = snd (k_mkdirat K d n m w)"
| "performs K (Unlinkat d n fl) r w v \<longleftrightarrow> r = None \<and> v = snd (k_unlinkat K d n fl w)"
| "performs K (Fchown f u) r w v \<longleftrightarrow> r = None \<and> v = snd (k_fchown K f u w)"
| "performs K (Fchmod f m) r w v \<longleftrightarrow> r = None \<and> v = snd (k_fchmod K f m w)"
| "performs K (Fstat f) r w v \<longleftrightarrow> r = None \<and> v = snd (k_fstat K f w)"
| "performs K (Readdir f) r w v \<longleftrightarrow> r = None \<and> v = snd (k_readdir K f w)"
| "performs K (ReadFd f n) r w v \<longleftrightarrow> r = None \<and> v = snd (k_read K f n w)"
| "performs K (WriteFd f bs) r w v \<longleftrightarrow> r = None \<and> v = snd (k_write_all K f bs w)"
| "performs K (SeekFd f n) r w v \<longleftrightarrow> r = None \<and> v = snd (k_seek K f n w)"
| "performs K (SetLen f n) r w v \<longleftrightarrow> r = None \<and> v = snd (k_set_len K f n w)"
| "performs K c r w v \<longleftrightarrow> False"

fun performs_all :: "('w, 'z) kernel_scheme \<Rightarrow> (fs_call \<times> fd option) list \<Rightarrow> 'w \<Rightarrow> 'w \<Rightarrow> bool" where
  "performs_all K [] w v \<longleftrightarrow> v = w"
| "performs_all K ((c, r) # es) w v \<longleftrightarrow> (\<exists>u. performs K c r w u \<and> performs_all K es u v)"

lemma performs_append: "performs_all K (a @ b) w v \<longleftrightarrow> (\<exists>u. performs_all K a w u \<and> performs_all K b u v)"
  by (induction a arbitrary: w) (simp, auto, blast+)

text \<open>The state after is what the calls added to the log make of the state before.\<close>

definition logged :: "('w, 'z) kernel_scheme \<Rightarrow> 'w osw \<Rightarrow> 'w osw \<Rightarrow> bool" where
  "logged K s t \<longleftrightarrow> (\<exists>new. log t = log s @ new \<and> performs_all K new (kst s) (kst t))"

interpretation lg: frame_relation "logged K" for K
proof
  show "logged K s s" for s by (auto simp: logged_def)
  show "logged K s u" if "logged K s t" "logged K t u" for s t u
    using that unfolding logged_def by (metis append.assoc performs_append)
qed

lemma logged_sys: "(\<And>w. performs K c None w (snd (m w))) \<Longrightarrow> keeps (logged K) (sys c m)"
  by (auto simp: keeps_def sys_def logged_def split: prod.split) (metis snd_conv)

lemma logged_sys_fd: "(\<And>w. performs K c (fd_of (fst (m w))) w (snd (m w))) \<Longrightarrow> keeps (logged K) (sys_fd c m)"
  by (auto simp: keeps_def sys_fd_def logged_def fd_of_def split: prod.split) (metis fst_conv snd_conv)

lemma logged_wrappers:
  "keeps (logged K) (open_at K d n fl m)" "keeps (logged K) (mkdir_at K d n m)" "keeps (logged K) (unlink_at K d n b)"
  "keeps (logged K) (fchown K f u)" "keeps (logged K) (fchmod K f m)" "keeps (logged K) (fd_metadata K f)"
  "keeps (logged K) (read_dir_fd K f)" "keeps (logged K) (dup_dir K root)" "keeps (logged K) (scoped_open K home uid)"
  unfolding open_at_def mkdir_at_def unlink_at_def fchown_def fchmod_def fd_metadata_def read_dir_fd_def dup_dir_def
    scoped_open_def Let_def
  by (intro lg.keeps_intros logged_sys logged_sys_fd; simp add: HOME_FLAGS_def)+

lemma logged_opens: "keeps (logged K) (open_dir_at K d n)" "keeps (logged K) (open_path_at K d n)"
  unfolding open_dir_at_def open_path_at_def by (rule logged_wrappers)+

lemmas logged_intros = lg.keeps_intros logged_wrappers logged_opens

lemma logged_walk: "keeps (logged K) (walk K uid create p cs)"
proof (induction cs arbitrary: p)
  case (Cons c cs)
  then show ?case unfolding walk.simps by (intro logged_intros)
qed (simp add: lg.keeps_returnE)

lemma logged_locate: "keeps (logged K) (locate K root rel create)"
  unfolding locate_def Let_def by (intro logged_intros logged_walk)

lemma logged_list_entries: "keeps (logged K) (list_entries K root rel dir es)"
  by (induction K root rel dir es rule: list_entries.induct) (auto intro!: logged_intros)

lemma logged_remove_files: "keeps (logged K) (remove_files K dir es sub)"
  by (induction K dir es sub rule: remove_files.induct) (auto intro!: logged_intros)

lemma logged_remove_subdirs: "(\<And>f. keeps (logged K) (rec f)) \<Longrightarrow> keeps (logged K) (remove_subdirs K rec dir ns)"
  by (induction ns) (auto split: option.split intro!: logged_intros)

lemma logged_remove_dir: "keeps (logged K) (remove_dir_contents fuel K dir)"
  by (induction fuel arbitrary: dir) (auto intro!: logged_intros logged_remove_files logged_remove_subdirs)

lemma logged_scoped:
  "keeps (logged K) (sr_open_read K root rel)" "keeps (logged K) (sr_open_write K root rel cp off)"
  "keeps (logged K) (sr_metadata K root rel)" "keeps (logged K) (sr_list K root rel)"
  "keeps (logged K) (sr_delete fuel K root rel recursive)" "keeps (logged K) (sr_mkdir_all K root rel)"
  unfolding sr_open_read_def sr_open_write_def sr_metadata_def sr_list_def sr_delete_def sr_mkdir_all_def Let_def
  by (auto split: option.split intro!: logged_intros logged_locate logged_list_entries logged_remove_dir)

section \<open>The handlers\<close>

definition conn_logged :: "('w, 'z) kernel_scheme \<Rightarrow> 'w osw conn \<Rightarrow> 'w osw conn \<Rightarrow> bool" where
  "conn_logged K c d \<longleftrightarrow> logged K (c_os c) (c_os d)"

interpretation cl: frame_relation "conn_logged K" for K
  by unfold_locales (auto simp: conn_logged_def intro: lg.R_refl lg.R_trans)

lemma conn_os: "keeps (logged K) m \<Longrightarrow> keeps (conn_logged K) (os m)"
  by (auto simp: keeps_def os_def conn_logged_def split: prod.split) (metis snd_conv)

lemma conn_resp: "keeps (conn_logged K) (resp m)"
  by (simp add: keeps_def resp_def conn_logged_def lg.R_refl split: prod.split)

lemma conn_on_req: "(\<And>q. keeps (conn_logged K) (g q)) \<Longrightarrow> keeps (conn_logged K) (on_req g)"
  by (simp add: keeps_def on_req_def)

lemmas logged_conn_intros = cl.keeps_intros conn_resp conn_on_req

lemma logged_fd_calls:
  "keeps (logged K) (sys (ReadFd f n) (k_read K f n))" "keeps (logged K) (sys (WriteFd f bs) (k_write_all K f bs))"
  "keeps (logged K) (sys (SeekFd f n) (k_seek K f n))" "keeps (logged K) (sys (SetLen f n) (k_set_len K f n))"
  by (auto intro: logged_sys)

lemma conn_read_loop: "keeps (conn_logged K) (read_loop K f buf remaining)"
proof (induction remaining rule: less_induct)
  case (less remaining)
  let ?rd = "os (sys (ReadFd f (min buf remaining)) (k_read K f (min buf remaining)))"
  have eq: "read_loop K f buf remaining =
    (if 0 < remaining then bindE ?rd (\<lambda>bs. if bs = [] then returnE remaining
       else bindE (resp (rw_raw bs)) (\<lambda>_. read_loop K f buf (remaining - length bs)))
     else returnE remaining)"
    by (rule ext, subst read_loop.simps) (auto simp: bindE_def returnE_def split: prod.split sum.split)
  have "keeps (conn_logged K) (read_loop K f buf (remaining - length bs))" if "bs \<noteq> []" "0 < remaining" for bs :: string
    using that less by (cases bs) auto
  then have "keeps (conn_logged K) (if bs = [] then returnE remaining
      else bindE (resp (rw_raw bs)) (\<lambda>_. read_loop K f buf (remaining - length bs)))" if "0 < remaining" for bs
    using that by (cases "bs = []") (auto intro!: logged_conn_intros)
  then show ?case unfolding eq by (cases "0 < remaining") (auto intro!: cl.keeps_bindE cl.keeps_returnE conn_os logged_fd_calls split del: if_split)
qed

lemma logged_stream_loop:
  assumes "stream_loop f remaining consumed r w = (res, n, r', w')" and "\<And>bs. keeps (logged K) (f bs)"
  shows "logged K w w'"
  using assms
proof (induction f remaining consumed r w arbitrary: res n r' w' rule: stream_loop.induct)
  case (1 f remaining consumed r w)
  show ?case
  proof (cases "\<exists>bs r1. 0 < remaining \<and> rd_read (min (64 * 1024) remaining) r = (Inr bs, r1) \<and> bs \<noteq> []")
    case False
    with 1(2) have "w' = w"
      by (auto simp: stream_loop.simps [of f remaining consumed r w] split: if_splits prod.splits sum.splits)
    then show ?thesis by (simp add: lg.R_refl)
  next
    case True
    then obtain bs r1 where bs: "0 < remaining" "rd_read (min (64 * 1024) remaining) r = (Inr bs, r1)" "bs \<noteq> []"
      by blast
    obtain x w1 where x: "f bs w = (x, w1)" by (cases "f bs w")
    then have w1: "logged K w w1" using 1(3) [of bs] by (metis keeps_def snd_conv)
    show ?thesis
    proof (cases x)
      case (Inl e)
      with 1(2) bs x w1 show ?thesis by (simp add: stream_loop.simps [of f remaining consumed r w])
    next
      case (Inr u)
      have "stream_loop f (remaining - length bs) (consumed + length bs) r1 w1 = (res, n, r', w')"
        using 1(2) bs x Inr by (simp add: stream_loop.simps [of f remaining consumed r w])
      then have "logged K w1 w'"
        using 1(1) [OF bs(1) bs(2) [symmetric] refl bs(3) x [symmetric] Inr _ 1(3)] by metis
      with w1 show ?thesis by (rule lg.R_trans)
    qed
  qed
qed

lemma conn_stream_body:
  assumes "\<And>bs. keeps (logged K) (f bs)"
  shows "keeps (conn_logged K) (stream_body f)"
  using logged_stream_loop [OF _ assms] by (auto simp: keeps_def conn_logged_def stream_body_def Let_def split: prod.split)

lemma conn_require_path:
  assumes "\<And>root rel. keeps (conn_logged K) (f (Scoped root rel))"
  shows "keeps (conn_logged K) (bindE (require_path C K (Some sbx)) (\<lambda>tgt. case tgt of None \<Rightarrow> returnE y | Some t \<Rightarrow> f t))"
proof -
  let ?err = "\<lambda>st msg. bindE (thenE (resp (rw_error C st msg)) (returnE None)) (\<lambda>tgt. case tgt of None \<Rightarrow> returnE y | Some t \<Rightarrow> f t)"
  have req: "keeps (conn_logged K) (require_path C K (Some sbx))"
    unfolding require_path_def by (auto split: option.split intro!: logged_conn_intros conn_os logged_wrappers)
  show ?thesis
    unfolding keeps_def
  proof
    fix c
    obtain r c1 where r: "require_path C K (Some sbx) c = (r, c1)" by (cases "require_path C K (Some sbx) c")
    then have c1: "conn_logged K c c1" using req by (metis keeps_def snd_conv)
    show "conn_logged K c (snd (bindE (require_path C K (Some sbx)) (\<lambda>tgt. case tgt of None \<Rightarrow> returnE y | Some t \<Rightarrow> f t) c))"
      using r
    proof (cases rule: require_path_calls)
      case (opened root rel)
      with r assms [of root rel] have "conn_logged K c1 (snd (f (Scoped root rel) c1))" by (simp add: keeps_def)
      with c1 opened r show ?thesis by (auto simp: bindE_run intro: cl.R_trans)
    next
      case early
      with r c1 show ?thesis by (cases r) (auto simp: bindE_run returnE_def split: option.splits)
    next
      case refused
      with r c1 show ?thesis by (cases r) (auto simp: bindE_run returnE_def split: option.splits)
    qed
  qed
qed

lemma conn_send_file: "keeps (conn_logged K) (send_file C K display f)"
  unfolding send_file_def Let_def by (intro logged_conn_intros conn_os logged_wrappers logged_fd_calls conn_read_loop)

lemmas handler_intros = logged_conn_intros conn_os logged_scoped logged_fd_calls logged_wrappers conn_send_file conn_stream_body

lemma handlers_logged:
  "keeps (conn_logged K) (handle_read C K (Some sbx))" "keeps (conn_logged K) (handle_write C K (Some sbx))"
  "keeps (conn_logged K) (handle_list C K (Some sbx))" "keeps (conn_logged K) (handle_stat C K (Some sbx))"
  "keeps (conn_logged K) (handle_delete fuel C K (Some sbx))" "keeps (conn_logged K) (handle_mkdir C K (Some sbx))"
proof -
  show "keeps (conn_logged K) (handle_read C K (Some sbx))"
    unfolding handle_read_def by (rule conn_require_path) (auto intro!: handler_intros)
  show "keeps (conn_logged K) (handle_write C K (Some sbx))"
    unfolding handle_write_def Let_def
    by (rule conn_require_path) (auto split: option.split intro!: handler_intros)
  show "keeps (conn_logged K) (handle_list C K (Some sbx))"
    unfolding handle_list_def Let_def by (rule conn_require_path) (auto split: prod.split intro!: handler_intros)
  show "keeps (conn_logged K) (handle_stat C K (Some sbx))"
    unfolding handle_stat_def by (rule conn_require_path) (auto intro!: handler_intros)
  show "keeps (conn_logged K) (handle_delete fuel C K (Some sbx))"
    unfolding handle_delete_def Let_def by (rule conn_require_path) (auto split: option.split intro!: handler_intros)
  show "keeps (conn_logged K) (handle_mkdir C K (Some sbx))"
    unfolding handle_mkdir_def by (rule conn_require_path) (auto intro!: handler_intros)
qed

section \<open>What a disciplined call can reach\<close>

text \<open>
  A file system seen as inodes: what an inode holds, where a name in a directory leads, and the inode behind a descriptor. \<open>targets\<close> are
  the inodes a call that follows no link may change or return.
\<close>

record ('w, 'n) tree_view =
  tv_node :: "'w \<Rightarrow> nat \<Rightarrow> 'n option"
  tv_entry :: "'n \<Rightarrow> string \<Rightarrow> nat option"
  tv_inode :: "'w \<Rightarrow> fd \<Rightarrow> nat option"

definition child :: "('w, 'n) tree_view \<Rightarrow> 'w \<Rightarrow> nat \<Rightarrow> string \<Rightarrow> nat option" where
  "child V w i n = Option.bind (tv_node V w i) (\<lambda>x. tv_entry V x n)"

fun targets :: "('w, 'n) tree_view \<Rightarrow> 'w \<Rightarrow> fs_call \<Rightarrow> nat set" where
  "targets V w (Openat d n fl m) = {i. tv_inode V w d = Some i \<or> (\<exists>j. tv_inode V w d = Some j \<and> child V w j n = Some i)}"
| "targets V w (Mkdirat d n m) = {i. tv_inode V w d = Some i}"
| "targets V w (Unlinkat d n fl) = {i. tv_inode V w d = Some i \<or> (\<exists>j. tv_inode V w d = Some j \<and> child V w j n = Some i)}"
| "targets V w (Dup d) = {i. tv_inode V w d = Some i}"
| "targets V w (Fchown d u) = {i. tv_inode V w d = Some i}"
| "targets V w (Fchmod d m) = {i. tv_inode V w d = Some i}"
| "targets V w (WriteFd d b) = {i. tv_inode V w d = Some i}"
| "targets V w (SetLen d n) = {i. tv_inode V w d = Some i}"
| "targets V w c = {}"

text \<open>
  What happens between the start and the end of a call may change only the inodes of \<open>A\<close>, new names lead to inodes of \<open>A\<close> or to new
  inodes, no descriptor changes its inode but the one the call returns, and that one is an inode of \<open>A\<close> or a new one.
\<close>

definition reaches :: "('w, 'n) tree_view \<Rightarrow> nat set \<Rightarrow> fd option \<Rightarrow> 'w \<Rightarrow> 'w \<Rightarrow> bool" where
  "reaches V A r w v \<longleftrightarrow>
     (\<forall>i. tv_node V w i \<noteq> None \<and> i \<notin> A \<longrightarrow> tv_node V v i = tv_node V w i) \<and>
     (\<forall>i n j. child V v i n = Some j \<longrightarrow> child V w i n = Some j \<or> j \<in> A \<or> tv_node V w j = None) \<and>
     (\<forall>f. r \<noteq> Some f \<longrightarrow> tv_inode V v f = tv_inode V w f) \<and>
     (\<forall>f j. r = Some f \<and> tv_inode V v f = Some j \<longrightarrow> j \<in> A \<or> tv_node V w j = None)"

inductive below :: "('w, 'n) tree_view \<Rightarrow> 'w \<Rightarrow> nat \<Rightarrow> nat \<Rightarrow> bool" for V w h where
  below_self: "below V w h h"
| below_child: "below V w h i \<Longrightarrow> child V w i n = Some j \<Longrightarrow> below V w h j"

text \<open>
  A disciplined call changes what it names; meanwhile the processes of the sandbox may change everything below the home \<open>h\<close>, which is
  what Landlock leaves them: contents, names, links put in the place of directories. Opening the home by its path finds \<open>h\<close>, whose path the
  sandbox cannot change.
\<close>

definition unix_fs :: "('w, 'z) kernel_scheme \<Rightarrow> ('w, 'n) tree_view \<Rightarrow> nat \<Rightarrow> bool" where
  "unix_fs K V h \<longleftrightarrow> (\<forall>S c r w v. call_ok S c \<and> performs K c r w v \<longrightarrow> reaches V (targets V w c \<union> {i. below V w h i}) r w v)"

definition opens_home :: "('w, 'z) kernel_scheme \<Rightarrow> ('w, 'n) tree_view \<Rightarrow> string \<Rightarrow> nat \<Rightarrow> 'w \<Rightarrow> bool" where
  "opens_home K V home h w \<longleftrightarrow> (\<forall>r v. performs K (ByPath home) r w v \<longrightarrow>
     reaches V {i. below V w h i} r w v \<and> (\<forall>f. r = Some f \<longrightarrow> tv_inode V v f = Some h))"

definition scope_inv :: "('w, 'n) tree_view \<Rightarrow> nat \<Rightarrow> 'w \<Rightarrow> nat set \<Rightarrow> fd set \<Rightarrow> 'w \<Rightarrow> bool" where
  "scope_inv V h w0 A S w \<longleftrightarrow> h \<in> A \<and>
     (\<forall>i. i \<notin> A \<longrightarrow> tv_node V w0 i \<noteq> None \<and> tv_node V w i = tv_node V w0 i) \<and>
     (\<forall>f \<in> S. \<forall>j. tv_inode V w f = Some j \<longrightarrow> j \<in> A) \<and>
     (\<forall>i \<in> A. \<forall>n j. child V w i n = Some j \<longrightarrow> j \<in> A)"

lemma below_inside:
  assumes "scope_inv V h w0 A S w" and "below V w h i"
  shows "i \<in> A"
  using assms(2) by induction (use assms(1) in \<open>auto simp: scope_inv_def\<close>)

lemma targets_inside:
  assumes "scope_inv V h w0 A S w" and "call_ok S c"
  shows "targets V w c \<subseteq> A"
  using assms by (cases c) (auto simp: scope_inv_def)

lemma scope_reaches:
  assumes inv: "scope_inv V h w0 A S w" and law: "reaches V B r w v" and B: "B \<subseteq> A"
  shows "scope_inv V h w0 A (case r of None \<Rightarrow> S | Some f \<Rightarrow> insert f S) v"
proof -
  note law = law [unfolded reaches_def]
  have exist: "i \<in> A \<or> tv_node V w i \<noteq> None" for i using inv by (metis scope_inv_def)
  have "tv_node V w0 i \<noteq> None \<and> tv_node V v i = tv_node V w0 i" if "i \<notin> A" for i
  proof -
    have "tv_node V v i = tv_node V w i" using law B exist [of i] that by blast
    with inv that show ?thesis by (simp add: scope_inv_def)
  qed
  moreover have "j \<in> A" if "i \<in> A" "child V v i n = Some j" for i n j
  proof -
    have "child V w i n = Some j \<or> j \<in> B \<or> tv_node V w j = None" using law that(2) by simp
    then show ?thesis using inv that(1) exist [of j] B unfolding scope_inv_def by (metis subsetD)
  qed
  moreover have "j \<in> A" if "f \<in> (case r of None \<Rightarrow> S | Some f \<Rightarrow> insert f S)" "tv_inode V v f = Some j" for f j
  proof (cases "r = Some f")
    case True
    then have "j \<in> B \<or> tv_node V w j = None" using law that(2) by simp
    then show ?thesis using B exist [of j] by auto
  next
    case False
    with that(1) have "f \<in> S" by (auto split: option.splits)
    with False law inv that(2) show ?thesis by (auto simp: scope_inv_def)
  qed
  moreover have "h \<in> A" using inv by (simp add: scope_inv_def)
  ultimately show ?thesis by (simp add: scope_inv_def)
qed

lemma scope_steps:
  assumes K: "unix_fs K V h"
  shows "scope_inv V h w0 A S w \<Longrightarrow> disciplined S es \<Longrightarrow> performs_all K es w v \<Longrightarrow> scope_inv V h w0 A (known S es) v"
proof (induction S es arbitrary: w rule: disciplined.induct)
  case (2 S c r es)
  then obtain u where u: "performs K c r w u" "performs_all K es u v" and c: "call_ok S c" by auto
  have "reaches V (targets V w c \<union> {i. below V w h i}) r w u" using K c u(1) by (auto simp: unix_fs_def)
  moreover have "targets V w c \<union> {i. below V w h i} \<subseteq> A" using targets_inside [OF 2(2) c] below_inside [OF 2(2)] by auto
  ultimately have "scope_inv V h w0 A (case r of None \<Rightarrow> S | Some f \<Rightarrow> insert f S) u" by (rule scope_reaches [OF 2(2)])
  with 2 u(2) show ?case by auto
qed simp

lemma scope_start: "scope_inv V h w {j. below V w h j \<or> tv_node V w j = None} {} w"
  by (auto simp: scope_inv_def child_def intro: below_self below_child)

lemma confined_keeps_outside:
  assumes K: "unix_fs K V h" and home: "opens_home K V home h (kst (c_os c))" and m: "confined_to home m"
    and lg: "keeps (conn_logged K) m" and out: "\<not> below V (kst (c_os c)) h i" "tv_node V (kst (c_os c)) i \<noteq> None"
  shows "tv_node V (kst (c_os (snd (m c)))) i = tv_node V (kst (c_os c)) i"
proof -
  let ?w = "kst (c_os c)" and ?v = "kst (c_os (snd (m c)))"
  let ?A = "{j. below V ?w h j \<or> tv_node V ?w j = None}"
  obtain new where new: "calls (snd (m c)) = calls c @ new" "performs_all K new ?w ?v"
    using lg by (auto simp: keeps_def conn_logged_def logged_def)
  have kept: "tv_node V ?v i = tv_node V ?w i" if "scope_inv V h ?w ?A S ?v" for S
    using that out by (simp add: scope_inv_def)
  have opened: "scope_inv V h ?w ?A (case r of None \<Rightarrow> {} | Some f \<Rightarrow> {f}) u" if "performs K (ByPath home) r ?w u" for r u
  proof -
    have "reaches V {i. below V ?w h i} r ?w u" using home that unfolding opens_home_def by blast
    then show ?thesis by (rule scope_reaches [OF scope_start]) auto
  qed
  from m obtain new' where "calls (snd (m c)) = calls c @ new'" "new' = [] \<or> new' = [(ByPath home, None)] \<or>
      (\<exists>d rest. new' = (ByPath home, Some d) # rest \<and> disciplined {d} rest)"
    unfolding confined_to_def by blast
  then consider "new = []" | "new = [(ByPath home, None)]" | d rest where "new = (ByPath home, Some d) # rest" "disciplined {d} rest"
    using new(1) by auto
  then show ?thesis
  proof cases
    case 1
    with new show ?thesis by simp
  next
    case 2
    with new(2) opened [of None ?v] show ?thesis by (auto intro: kept simp del: performs.simps)
  next
    case (3 d rest)
    then obtain u where u: "performs K (ByPath home) (Some d) ?w u" "performs_all K rest u ?v"
      using new(2) by (auto simp del: performs.simps)
    from opened [OF u(1)] have "scope_inv V h ?w ?A {d} u" by simp
    from scope_steps [OF K this 3(2) u(2)] show ?thesis by (rule kept)
  qed
qed

text \<open>
  C5: nothing outside the home of a sandbox changes through its file endpoints. On a file system whose descriptor-relative calls do what they
  are documented to do, and while the processes of the sandbox change whatever they like below the home, no request to any of the six
  endpoints changes an inode that existed before and was not below the home.
\<close>

theorem files_keep_outside:
  assumes "readdir_plain K" and "unix_fs K V h" and "opens_home K V (e_home sbx) h (kst (c_os c))"
    and "\<not> below V (kst (c_os c)) h i" and "tv_node V (kst (c_os c)) i \<noteq> None"
    and "c' \<in> {snd (handle_read C K (Some sbx) c), snd (handle_write C K (Some sbx) c), snd (handle_list C K (Some sbx) c),
      snd (handle_stat C K (Some sbx) c), snd (handle_delete fuel C K (Some sbx) c), snd (handle_mkdir C K (Some sbx) c)}"
  shows "tv_node V (kst (c_os c')) i = tv_node V (kst (c_os c)) i"
proof -
  note keep = confined_keeps_outside [OF assms(2,3) _ _ assms(4,5)]
  from assms(6) show ?thesis by (auto intro!: keep handlers_confined [OF assms(1)] handlers_logged simp del: sum.case)
qed

end
