(* ===== verification/Fs_Secrecy.thy ===== *)
theory Fs_Secrecy
  imports Fs_Scope
begin

text \<open>
  What the file endpoints of a sandbox can learn about the disk. \<open>tracks\<close> relates the same code run on two kernels; the locale
  \<open>tracking_kernels\<close> carries it through all functions of \<open>fsutil.rs\<close> and \<open>files.rs\<close>. The kernel that makes every call in two states at
  once (\<open>pair_kernel\<close>) is interpreted twice, once for each state, so that the discipline of \<open>Files\<close> on that one kernel becomes a statement
  on two runs: what the calls below the home cannot tell apart, no request can.
\<close>

section \<open>Two runs of the same code\<close>

text \<open>
  In related states, \<open>n\<close> does what \<open>m\<close> does, as long as \<open>m\<close> ends well. \<open>ok\<close> is a flag in the state of \<open>m\<close> that is never set again.
\<close>

definition tracks :: "('s \<Rightarrow> bool) \<Rightarrow> ('s \<Rightarrow> 't \<Rightarrow> bool) \<Rightarrow> ('s, 'a) io \<Rightarrow> ('t, 'a) io \<Rightarrow> bool" where
  "tracks ok R m n \<longleftrightarrow> (\<forall>s. ok (snd (m s)) \<longrightarrow> ok s) \<and>
     (\<forall>s t. R s t \<and> ok (snd (m s)) \<longrightarrow> fst (m s) = fst (n t) \<and> R (snd (m s)) (snd (n t)))"

lemma tracks_returnE: "tracks ok R (returnE x) (returnE x)"
  by (simp add: tracks_def returnE_def)

lemma tracks_throwE: "tracks ok R (throwE e) (throwE e)"
  by (simp add: tracks_def throwE_def)

lemma tracks_liftR: "tracks ok R (liftR r) (liftR r)"
  by (simp add: tracks_def liftR_def)

lemma tracksD: "tracks ok R m n \<Longrightarrow> R s t \<Longrightarrow> m s = (r, s') \<Longrightarrow> ok s' \<Longrightarrow> \<exists>t'. n t = (r, t') \<and> R s' t'"
  unfolding tracks_def by (metis fst_conv prod.collapse snd_conv)

lemma tracks_back: "tracks ok R m n \<Longrightarrow> m s = (r, s') \<Longrightarrow> ok s' \<Longrightarrow> ok s"
  unfolding tracks_def by (metis snd_conv)

lemma tracksI:
  assumes "\<And>s r s'. m s = (r, s') \<Longrightarrow> ok s' \<Longrightarrow> ok s"
    and "\<And>s t r s'. R s t \<Longrightarrow> m s = (r, s') \<Longrightarrow> ok s' \<Longrightarrow> \<exists>t'. n t = (r, t') \<and> R s' t'"
  shows "tracks ok R m n"
  unfolding tracks_def by (metis assms fst_conv prod.collapse snd_conv)

lemma tracks_catchE:
  assumes m: "tracks ok R m n" and f: "\<And>x. tracks ok R (f x) (g x)" and h: "\<And>e. tracks ok R (h e) (k e)"
  shows "tracks ok R (catchE m f h) (catchE n g k)"
proof (rule tracksI)
  fix s r s' assume run: "catchE m f h s = (r, s')" "ok s'"
  obtain x s1 where x: "m s = (x, s1)" by fastforce
  then have "ok s1" using run tracks_back [OF f] tracks_back [OF h] by (cases x) (auto simp: catchE_def)
  then show "ok s" using tracks_back [OF m x] by simp
next
  fix s t r s' assume st: "R s t" and run: "catchE m f h s = (r, s')" "ok s'"
  obtain x s1 where x: "m s = (x, s1)" by fastforce
  then have "ok s1" using run tracks_back [OF f] tracks_back [OF h] by (cases x) (auto simp: catchE_def)
  then obtain t1 where t1: "n t = (x, t1)" "R s1 t1" using tracksD [OF m st x] by blast
  with x run show "\<exists>t'. catchE n g k t = (r, t') \<and> R s' t'"
    using tracksD [OF f t1(2)] tracksD [OF h t1(2)] by (cases x) (auto simp: catchE_def)
qed

lemma bindE_catchE: "bindE m f = catchE m f throwE"
  by (auto simp: fun_eq_iff bindE_def catchE_def throwE_def split: prod.split sum.split)

lemma tracks_bindE: "tracks ok R m n \<Longrightarrow> (\<And>x. tracks ok R (f x) (g x)) \<Longrightarrow> tracks ok R (bindE m f) (bindE n g)"
  unfolding bindE_catchE by (rule tracks_catchE) (auto intro: tracks_throwE)

lemma tracks_thenE: "tracks ok R m n \<Longrightarrow> tracks ok R k l \<Longrightarrow> tracks ok R (thenE m k) (thenE n l)"
  unfolding thenE_def by (rule tracks_bindE)

lemma tracks_ignoreE: "tracks ok R m n \<Longrightarrow> tracks ok R (ignoreE m) (ignoreE n)"
  by (simp add: tracks_def ignoreE_def)

lemma tracks_if: "(b \<Longrightarrow> tracks ok R m n) \<Longrightarrow> (\<not> b \<Longrightarrow> tracks ok R k l) \<Longrightarrow> tracks ok R (if b then m else k) (if b then n else l)"
  by simp

lemma tracks_option:
  "tracks ok R m n \<Longrightarrow> (\<And>x. tracks ok R (f x) (g x)) \<Longrightarrow>
   tracks ok R (case y of None \<Rightarrow> m | Some x \<Rightarrow> f x) (case y of None \<Rightarrow> n | Some x \<Rightarrow> g x)"
  by (cases y) auto

lemma tracks_prod: "(\<And>a b. tracks ok R (f a b) (g a b)) \<Longrightarrow> tracks ok R (case p of (a, b) \<Rightarrow> f a b) (case p of (a, b) \<Rightarrow> g a b)"
  by (cases p) auto

lemmas tracks_intros = tracks_returnE tracks_throwE tracks_liftR tracks_bindE tracks_thenE tracks_catchE tracks_ignoreE
  tracks_if tracks_option tracks_prod

definition os_ok :: "('w \<Rightarrow> bool) \<Rightarrow> 'w osw \<Rightarrow> bool" where
  "os_ok ok s \<longleftrightarrow> ok (kst s)"

definition os_rel :: "('v \<Rightarrow> 'w \<Rightarrow> bool) \<Rightarrow> 'v osw \<Rightarrow> 'w osw \<Rightarrow> bool" where
  "os_rel P s t \<longleftrightarrow> P (kst s) (kst t) \<and> log s = log t"

lemma tracks_sys:
  assumes "tracks ok P m n"
  shows "tracks (os_ok ok) (os_rel P) (sys c m) (sys c n)"
proof (rule tracksI)
  show "os_ok ok s" if "sys c m s = (r, s')" "os_ok ok s'" for s r s'
    using that tracks_back [OF assms] by (auto simp: sys_def os_ok_def split: prod.splits)
  show "\<exists>t'. sys c n t = (r, t') \<and> os_rel P s' t'"
    if "os_rel P s t" "sys c m s = (r, s')" "os_ok ok s'" for s t r s'
    using that tracksD [OF assms, of "kst s" "kst t"] by (auto simp: sys_def os_ok_def os_rel_def split: prod.splits)
qed

lemma tracks_sys_fd:
  assumes "tracks ok P m n"
  shows "tracks (os_ok ok) (os_rel P) (sys_fd c m) (sys_fd c n)"
proof (rule tracksI)
  show "os_ok ok s" if "sys_fd c m s = (r, s')" "os_ok ok s'" for s r s'
    using that tracks_back [OF assms] by (auto simp: sys_fd_def os_ok_def split: prod.splits)
  show "\<exists>t'. sys_fd c n t = (r, t') \<and> os_rel P s' t'"
    if "os_rel P s t" "sys_fd c m s = (r, s')" "os_ok ok s'" for s t r s'
    using that tracksD [OF assms, of "kst s" "kst t"] by (auto simp: sys_fd_def os_ok_def os_rel_def split: prod.splits)
qed

text \<open>Every call of one kernel goes along with the same call of the other.\<close>

definition kernels_track :: "('v \<Rightarrow> bool) \<Rightarrow> ('v \<Rightarrow> 'w \<Rightarrow> bool) \<Rightarrow> ('v, 'y) kernel_scheme \<Rightarrow> ('w, 'z) kernel_scheme \<Rightarrow> bool" where
  "kernels_track ok P K L \<longleftrightarrow>
     (\<forall>d n fl m. tracks ok P (k_openat K d n fl m) (k_openat L d n fl m)) \<and>
     (\<forall>d n m. tracks ok P (k_mkdirat K d n m) (k_mkdirat L d n m)) \<and>
     (\<forall>d n fl. tracks ok P (k_unlinkat K d n fl) (k_unlinkat L d n fl)) \<and>
     (\<forall>d. tracks ok P (k_dup K d) (k_dup L d)) \<and>
     (\<forall>f u. tracks ok P (k_fchown K f u) (k_fchown L f u)) \<and> (\<forall>f m. tracks ok P (k_fchmod K f m) (k_fchmod L f m)) \<and>
     (\<forall>f. tracks ok P (k_fstat K f) (k_fstat L f)) \<and> (\<forall>f. tracks ok P (k_readdir K f) (k_readdir L f)) \<and>
     (\<forall>f n. tracks ok P (k_read K f n) (k_read L f n)) \<and> (\<forall>f bs. tracks ok P (k_write_all K f bs) (k_write_all L f bs)) \<and>
     (\<forall>f n. tracks ok P (k_seek K f n) (k_seek L f n)) \<and> (\<forall>f n. tracks ok P (k_set_len K f n) (k_set_len L f n)) \<and>
     (\<forall>p fl m. tracks ok P (k_open K p fl m) (k_open L p fl m)) \<and>
     (\<forall>p. tracks ok P (k_create_dir_all K p) (k_create_dir_all L p)) \<and> (\<forall>p. tracks ok P (k_lstat K p) (k_lstat L p)) \<and>
     (\<forall>p. tracks ok P (k_read_dir K p) (k_read_dir L p)) \<and> (\<forall>p. tracks ok P (k_remove_dir_all K p) (k_remove_dir_all L p)) \<and>
     (\<forall>p. tracks ok P (k_remove_dir K p) (k_remove_dir L p)) \<and> (\<forall>p. tracks ok P (k_remove_file K p) (k_remove_file L p)) \<and>
     k_strerror K = k_strerror L"

definition conn_ok :: "('w \<Rightarrow> bool) \<Rightarrow> 'w osw conn \<Rightarrow> bool" where
  "conn_ok ok c \<longleftrightarrow> os_ok ok (c_os c)"

definition conn_rel :: "('v \<Rightarrow> 'w \<Rightarrow> bool) \<Rightarrow> 'v osw conn \<Rightarrow> 'w osw conn \<Rightarrow> bool" where
  "conn_rel P c d \<longleftrightarrow> c_req c = c_req d \<and> c_rd c = c_rd d \<and> c_rw c = c_rw d \<and> os_rel P (c_os c) (c_os d)"

lemma tracks_resp: "tracks (conn_ok ok) (conn_rel P) (resp m) (resp m)"
  by (auto simp: tracks_def resp_def conn_ok_def conn_rel_def split: prod.split)

lemma tracks_on_req: "(\<And>q. tracks (conn_ok ok) (conn_rel P) (g q) (h q)) \<Longrightarrow> tracks (conn_ok ok) (conn_rel P) (on_req g) (on_req h)"
  unfolding tracks_def on_req_def by (metis conn_rel_def)

lemma tracks_os:
  assumes "tracks (os_ok ok) (os_rel P) m n"
  shows "tracks (conn_ok ok) (conn_rel P) (os m) (os n)"
proof (rule tracksI)
  show "conn_ok ok c" if "os m c = (r, c')" "conn_ok ok c'" for c r c'
    using that tracks_back [OF assms] by (auto simp: os_def conn_ok_def split: prod.splits)
  show "\<exists>d'. os n d = (r, d') \<and> conn_rel P c' d'"
    if "conn_rel P c d" "os m c = (r, c')" "conn_ok ok c'" for c d r c'
    using that tracksD [OF assms, of "c_os c" "c_os d"] by (auto simp: os_def conn_ok_def conn_rel_def split: prod.splits)
qed

text \<open>The loop over a request body, with its writes tracking each other.\<close>

lemma stream_loop_back:
  assumes "stream_loop f remaining consumed r w = (res, k, r', w')" and "os_ok ok w'"
    and "\<And>bs. tracks (os_ok ok) (os_rel P) (f bs) (g bs)"
  shows "os_ok ok w"
  using assms
proof (induction f remaining consumed r w arbitrary: res k r' w' rule: stream_loop.induct)
  case (1 f remaining consumed r w)
  show ?case
  proof (cases "\<exists>bs r1 w1. 0 < remaining \<and> rd_read (min (64 * 1024) remaining) r = (Inr bs, r1) \<and> bs \<noteq> [] \<and> f bs w = (Inr (), w1)")
    case True
    then obtain bs r1 w1 where bs: "0 < remaining" "rd_read (min (64 * 1024) remaining) r = (Inr bs, r1)" "bs \<noteq> []" "f bs w = (Inr (), w1)"
      by blast
    then have "stream_loop f (remaining - length bs) (consumed + length bs) r1 w1 = (res, k, r', w')"
      using 1(2) by (simp add: stream_loop.simps [of f remaining consumed r w])
    with bs have "os_ok ok w1" using "1.IH" "1.prems"(2,3) by metis
    with bs(4) show ?thesis using tracks_back [OF "1.prems"(3)] by blast
  next
    case False
    then have "w' = w \<or> (\<exists>bs e. f bs w = (Inl e, w'))"
      using 1(2) by (auto simp: stream_loop.simps [of f remaining consumed r w] split: if_splits prod.splits sum.splits)
    then show ?thesis using 1(3) tracks_back [OF "1.prems"(3)] by blast
  qed
qed

lemma stream_loop_tracks:
  assumes "stream_loop f remaining consumed r w = (res, k, r', w')" and "os_ok ok w'" and "os_rel P w v"
    and "\<And>bs. tracks (os_ok ok) (os_rel P) (f bs) (g bs)"
  shows "\<exists>v'. stream_loop g remaining consumed r v = (res, k, r', v') \<and> os_rel P w' v'"
  using assms
proof (induction f remaining consumed r w arbitrary: res k r' w' v rule: stream_loop.induct)
  case (1 f remaining consumed r w)
  note tr = "1.prems"(4)
  show ?case
  proof (cases "\<exists>bs r1. 0 < remaining \<and> rd_read (min (64 * 1024) remaining) r = (Inr bs, r1) \<and> bs \<noteq> []")
    case False
    with 1(2,4) show ?thesis
      by (auto simp: stream_loop.simps [of f remaining consumed r w] stream_loop.simps [of g remaining consumed r v]
        split: if_splits prod.splits sum.splits)
  next
    case True
    then obtain bs r1 where bs: "0 < remaining" "rd_read (min (64 * 1024) remaining) r = (Inr bs, r1)" "bs \<noteq> []" by blast
    obtain x w1 where x: "f bs w = (x, w1)" by fastforce
    show ?thesis
    proof (cases x)
      case (Inl e)
      with 1(2) bs x have "w' = w1" "res = Inl e" "k = consumed" "r' = r1"
        by (simp_all add: stream_loop.simps [of f remaining consumed r w])
      moreover from this obtain v1 where "g bs v = (Inl e, v1)" "os_rel P w1 v1"
        using tracksD [OF tr 1(4) x] 1(3) Inl by auto
      ultimately show ?thesis using bs by (simp add: stream_loop.simps [of g remaining consumed r v])
    next
      case (Inr u)
      have run: "stream_loop f (remaining - length bs) (consumed + length bs) r1 w1 = (res, k, r', w')"
        using 1(2) bs x Inr by (simp add: stream_loop.simps [of f remaining consumed r w])
      then have "os_ok ok w1" by (rule stream_loop_back [OF _ 1(3)]) (rule tr)
      then obtain v1 where v1: "g bs v = (Inr u, v1)" "os_rel P w1 v1" using tracksD [OF tr 1(4) x] Inr by auto
      have "\<exists>v'. stream_loop g (remaining - length bs) (consumed + length bs) r1 v1 = (res, k, r', v') \<and> os_rel P w' v'"
        using "1.IH" [OF bs(1) bs(2) [symmetric] refl bs(3) x [symmetric] Inr run 1(3) v1(2) tr] .
      with bs v1(1) show ?thesis by (simp add: stream_loop.simps [of g remaining consumed r v])
    qed
  qed
qed

lemma tracks_stream_body:
  assumes "\<And>bs. tracks (os_ok ok) (os_rel P) (f bs) (g bs)"
  shows "tracks (conn_ok ok) (conn_rel P) (stream_body f) (stream_body g)"
proof (rule tracksI)
  show "conn_ok ok c" if "stream_body f c = (r, c')" "conn_ok ok c'" for c r c'
    using that stream_loop_back [OF _ _ assms] by (auto simp: stream_body_def Let_def conn_ok_def split: prod.splits)
  show "\<exists>d'. stream_body g d = (r, d') \<and> conn_rel P c' d'"
    if "conn_rel P c d" "stream_body f c = (r, c')" "conn_ok ok c'" for c d r c'
  proof -
    obtain res k r1 w' where l: "stream_loop f (content_length (c_req c) - body_consumed (c_req c)) (body_consumed (c_req c)) (c_rd c) (c_os c)
      = (res, k, r1, w')" by (metis prod_cases4)
    with that have "os_ok ok w'" "os_rel P (c_os c) (c_os d)" by (auto simp: stream_body_def Let_def conn_ok_def conn_rel_def)
    then obtain v' where "stream_loop g (content_length (c_req c) - body_consumed (c_req c)) (body_consumed (c_req c)) (c_rd c) (c_os d)
      = (res, k, r1, v')" "os_rel P w' v'" using stream_loop_tracks [OF l _ _ assms] by blast
    with l that show ?thesis by (auto simp: stream_body_def Let_def conn_rel_def)
  qed
qed

section \<open>The handlers on two kernels\<close>

locale tracking_kernels =
  fixes ok :: "'v \<Rightarrow> bool" and P :: "'v \<Rightarrow> 'w \<Rightarrow> bool" and K :: "('v, 'y) kernel_scheme" and L :: "('w, 'z) kernel_scheme"
  assumes KL: "kernels_track ok P K L"
begin

abbreviation same :: "('v osw, 'a) io \<Rightarrow> ('w osw, 'a) io \<Rightarrow> bool" where
  "same \<equiv> tracks (os_ok ok) (os_rel P)"

lemma error_same: "error_text K = error_text L"
proof
  have "k_strerror K = k_strerror L" using KL by (simp add: kernels_track_def)
  then show "error_text K e = error_text L e" for e by (cases e) simp_all
qed

lemma calls_same:
  "tracks ok P (k_openat K d n fl m) (k_openat L d n fl m)" "tracks ok P (k_mkdirat K d n m) (k_mkdirat L d n m)"
  "tracks ok P (k_unlinkat K d n k) (k_unlinkat L d n k)" "tracks ok P (k_dup K d) (k_dup L d)"
  "tracks ok P (k_fchown K f u) (k_fchown L f u)" "tracks ok P (k_fchmod K f m) (k_fchmod L f m)"
  "tracks ok P (k_fstat K f) (k_fstat L f)" "tracks ok P (k_readdir K f) (k_readdir L f)"
  "tracks ok P (k_read K f l) (k_read L f l)" "tracks ok P (k_write_all K f bs) (k_write_all L f bs)"
  "tracks ok P (k_seek K f l) (k_seek L f l)" "tracks ok P (k_set_len K f l) (k_set_len L f l)"
  "tracks ok P (k_open K p fl m) (k_open L p fl m)"
  "tracks ok P (k_create_dir_all K p) (k_create_dir_all L p)" "tracks ok P (k_lstat K p) (k_lstat L p)"
  "tracks ok P (k_read_dir K p) (k_read_dir L p)" "tracks ok P (k_remove_dir_all K p) (k_remove_dir_all L p)"
  "tracks ok P (k_remove_dir K p) (k_remove_dir L p)" "tracks ok P (k_remove_file K p) (k_remove_file L p)"
  using KL by (simp_all add: kernels_track_def)

lemmas sys_same = tracks_sys [OF calls_same(2)] tracks_sys [OF calls_same(3)] tracks_sys [OF calls_same(5)] tracks_sys [OF calls_same(6)]
  tracks_sys [OF calls_same(7)] tracks_sys [OF calls_same(8)] tracks_sys [OF calls_same(9)] tracks_sys [OF calls_same(10)]
  tracks_sys [OF calls_same(11)] tracks_sys [OF calls_same(12)] tracks_sys [OF calls_same(14)] tracks_sys [OF calls_same(15)]
  tracks_sys [OF calls_same(16)] tracks_sys [OF calls_same(17)] tracks_sys [OF calls_same(18)] tracks_sys [OF calls_same(19)]
  tracks_sys_fd [OF calls_same(1)] tracks_sys_fd [OF calls_same(4)] tracks_sys_fd [OF calls_same(13)]

lemma wrappers_same:
  "same (open_at K d n fl m) (open_at L d n fl m)" "same (mkdir_at K d n m) (mkdir_at L d n m)" "same (unlink_at K d n b) (unlink_at L d n b)"
  "same (fchown K f u) (fchown L f u)" "same (fchmod K f m) (fchmod L f m)" "same (fd_metadata K f) (fd_metadata L f)"
  "same (read_dir_fd K f) (read_dir_fd L f)" "same (dup_dir K root) (dup_dir L root)" "same (scoped_open K home u) (scoped_open L home u)"
  unfolding open_at_def mkdir_at_def unlink_at_def fchown_def fchmod_def fd_metadata_def read_dir_fd_def dup_dir_def
    scoped_open_def Let_def
  by (intro tracks_intros sys_same)+

lemma opens_same: "same (open_dir_at K d n) (open_dir_at L d n)" "same (open_path_at K d n) (open_path_at L d n)"
  unfolding open_dir_at_def open_path_at_def by (rule wrappers_same)+

lemmas same_intros = tracks_intros wrappers_same opens_same sys_same

lemma walk_same: "same (walk K uid create p cs) (walk L uid create p cs)"
proof (induction cs arbitrary: p)
  case (Cons c cs)
  show ?case unfolding walk.simps by (intro same_intros Cons)
qed (simp add: tracks_returnE)

lemma locate_same: "same (locate K root rel create) (locate L root rel create)"
  unfolding locate_def Let_def by (intro same_intros walk_same)

lemma list_entries_same: "same (list_entries K root rel dir es) (list_entries L root rel dir es)"
proof (induction es)
  case (Cons x es)
  then show ?case by (cases x) (auto intro!: same_intros)
qed (simp add: tracks_returnE)

lemma remove_files_same: "same (remove_files K dir es sub) (remove_files L dir es sub)"
proof (induction es arbitrary: sub)
  case (Cons x es)
  then show ?case by (cases x) (auto intro!: same_intros)
qed (simp add: tracks_returnE)

lemma remove_subdirs_same: "(\<And>f. same (rec f) (rec' f)) \<Longrightarrow> same (remove_subdirs K rec dir ns) (remove_subdirs L rec' dir ns)"
  by (induction ns) (auto intro!: same_intros)

lemma remove_dir_same: "same (remove_dir_contents fuel K dir) (remove_dir_contents fuel L dir)"
  by (induction fuel arbitrary: dir) (auto intro!: same_intros remove_files_same remove_subdirs_same)

lemma scoped_same:
  "same (sr_open_read K root rel) (sr_open_read L root rel)" "same (sr_open_write K root rel cp off) (sr_open_write L root rel cp off)"
  "same (sr_metadata K root rel) (sr_metadata L root rel)" "same (sr_list K root rel) (sr_list L root rel)"
  "same (sr_delete fuel K root rel recursive) (sr_delete fuel L root rel recursive)" "same (sr_mkdir_all K root rel) (sr_mkdir_all L root rel)"
  unfolding sr_open_read_def sr_open_write_def sr_metadata_def sr_list_def sr_delete_def sr_mkdir_all_def Let_def
  by (intro same_intros locate_same list_entries_same remove_dir_same)+

lemma target_same:
  "same (tg_open_read K t) (tg_open_read L t)" "same (tg_open_write K t cp off) (tg_open_write L t cp off)"
  "same (tg_metadata K t) (tg_metadata L t)" "same (tg_list K t) (tg_list L t)"
  "same (tg_delete fuel K t recursive) (tg_delete fuel L t recursive)" "same (tg_mkdir_all K t) (tg_mkdir_all L t)"
  by (cases t; auto simp: by_path_def by_path_fd_def Let_def simp del: if_split intro!: same_intros scoped_same)+

abbreviation conn_same :: "('v osw conn, 'a) io \<Rightarrow> ('w osw conn, 'a) io \<Rightarrow> bool" where
  "conn_same \<equiv> tracks (conn_ok ok) (conn_rel P)"

lemma require_path_same: "conn_same (require_path C K sb) (require_path C L sb)"
  unfolding require_path_def error_same by (intro tracks_on_req tracks_intros tracks_resp tracks_os wrappers_same)

lemma read_loop_same: "conn_same (read_loop K f buf remaining) (read_loop L f buf remaining)"
proof (induction remaining rule: less_induct)
  case (less remaining)
  have eq: "read_loop M f buf remaining =
    (if 0 < remaining then bindE (os (sys (ReadFd f (min buf remaining)) (k_read M f (min buf remaining)))) (\<lambda>bs. if bs = [] then returnE remaining
       else bindE (resp (rw_raw bs)) (\<lambda>_. read_loop M f buf (remaining - length bs)))
     else returnE remaining)" for M :: "('s, 't) kernel_scheme"
    by (rule ext, subst read_loop.simps) (auto simp: bindE_def returnE_def split: prod.split sum.split)
  have "conn_same (read_loop K f buf (remaining - length bs)) (read_loop L f buf (remaining - length bs))"
    if "bs \<noteq> []" "0 < remaining" for bs :: string
    using that less by (cases bs) auto
  then show ?case unfolding eq [of K] eq [of L]
    by (intro tracks_if tracks_bindE tracks_returnE tracks_os sys_same tracks_resp)
qed

lemma send_file_same: "conn_same (send_file C K display f) (send_file C L display f)"
  unfolding send_file_def Let_def
  by (intro tracks_intros tracks_on_req tracks_resp tracks_os wrappers_same sys_same read_loop_same)

lemma fs_error_same: "fs_error C K = fs_error C L"
  by (simp add: fs_error_def fun_eq_iff error_same)

lemmas handler_same = tracks_intros tracks_on_req tracks_resp tracks_os require_path_same target_same send_file_same
  tracks_stream_body sys_same wrappers_same

lemma handlers_same:
  "conn_same (handle_read C K sb) (handle_read C L sb)" "conn_same (handle_write C K sb) (handle_write C L sb)"
  "conn_same (handle_list C K sb) (handle_list C L sb)" "conn_same (handle_stat C K sb) (handle_stat C L sb)"
  "conn_same (handle_delete fuel C K sb) (handle_delete fuel C L sb)" "conn_same (handle_mkdir C K sb) (handle_mkdir C L sb)"
  unfolding handle_read_def handle_write_def handle_list_def handle_stat_def handle_delete_def handle_mkdir_def Let_def
    error_same fs_error_same
  by (intro handler_same)+

end

section \<open>Two worlds at once\<close>

text \<open>
  \<open>pair_kernel K\<close> makes every call in two states, answers with the result of the first, and remembers whether the results have
  been the same so far. Code that runs on it runs in the first state; and as long as the results are the same, in the second.
\<close>

definition pair_call :: "('w, 'a) io \<Rightarrow> ('w \<times> 'w \<times> bool, 'a) io" where
  "pair_call m x = (case x of (w, v, b) \<Rightarrow> (fst (m w), snd (m w), snd (m v), b \<and> fst (m w) = fst (m v)))"

definition pair_kernel :: "('w, 'z) kernel_scheme \<Rightarrow> ('w \<times> 'w \<times> bool) kernel" where
  "pair_kernel K = \<lparr>
     k_openat = (\<lambda>d n fl m. pair_call (k_openat K d n fl m)), k_mkdirat = (\<lambda>d n m. pair_call (k_mkdirat K d n m)),
     k_unlinkat = (\<lambda>d n fl. pair_call (k_unlinkat K d n fl)), k_dup = (\<lambda>d. pair_call (k_dup K d)),
     k_fchown = (\<lambda>f u. pair_call (k_fchown K f u)), k_fchmod = (\<lambda>f m. pair_call (k_fchmod K f m)),
     k_fstat = (\<lambda>f. pair_call (k_fstat K f)), k_readdir = (\<lambda>f. pair_call (k_readdir K f)),
     k_read = (\<lambda>f n. pair_call (k_read K f n)), k_write_all = (\<lambda>f bs. pair_call (k_write_all K f bs)),
     k_seek = (\<lambda>f n. pair_call (k_seek K f n)), k_set_len = (\<lambda>f n. pair_call (k_set_len K f n)),
     k_open = (\<lambda>p fl m. pair_call (k_open K p fl m)), k_create_dir_all = (\<lambda>p. pair_call (k_create_dir_all K p)),
     k_lstat = (\<lambda>p. pair_call (k_lstat K p)), k_read_dir = (\<lambda>p. pair_call (k_read_dir K p)),
     k_remove_dir_all = (\<lambda>p. pair_call (k_remove_dir_all K p)), k_remove_dir = (\<lambda>p. pair_call (k_remove_dir K p)),
     k_remove_file = (\<lambda>p. pair_call (k_remove_file K p)), k_strerror = k_strerror K\<rparr>"

definition left_of :: "'w \<times> 'w \<times> bool \<Rightarrow> 'w \<Rightarrow> bool" where "left_of x w \<longleftrightarrow> fst x = w"
definition right_of :: "'w \<times> 'w \<times> bool \<Rightarrow> 'w \<Rightarrow> bool" where "right_of x v \<longleftrightarrow> fst (snd x) = v"
definition agreed :: "'w \<times> 'w \<times> bool \<Rightarrow> bool" where "agreed x \<longleftrightarrow> snd (snd x)"

lemma pair_call_tracks: "tracks (\<lambda>_. True) left_of (pair_call m) m" "tracks agreed right_of (pair_call m) m"
  by (auto simp: tracks_def pair_call_def left_of_def right_of_def agreed_def split: prod.splits)

interpretation left: tracking_kernels "\<lambda>_. True" left_of "pair_kernel K" K for K
  by unfold_locales (simp add: kernels_track_def pair_kernel_def pair_call_tracks)

interpretation right: tracking_kernels agreed right_of "pair_kernel K" K for K
  by unfold_locales (simp add: kernels_track_def pair_kernel_def pair_call_tracks)

lemma pair_readdir: "readdir_plain K \<Longrightarrow> readdir_plain (pair_kernel K)"
  unfolding readdir_plain_def pair_kernel_def by (auto simp: pair_call_def) (metis prod.collapse)

text \<open>
  \<open>E S w v\<close> relates states that the calls on the descriptors of \<open>S\<close> cannot tell apart: opening the home, and then every disciplined
  call, has the same result in both and leaves related states.
\<close>

definition alike :: "('w, 'z) kernel_scheme \<Rightarrow> string \<Rightarrow> (fd set \<Rightarrow> 'w \<Rightarrow> 'w \<Rightarrow> bool) \<Rightarrow> bool" where
  "alike K home E \<longleftrightarrow> (\<forall>S c r w v x. (call_ok S c \<or> S = {} \<and> c = ByPath home) \<and> E S w v \<and> performs (pair_kernel K) c r (w, v, True) x \<longrightarrow>
     agreed x \<and> E (case r of None \<Rightarrow> S | Some f \<Rightarrow> insert f S) (fst x) (fst (snd x)))"

lemma alikeD:
  assumes "alike K home E" and "call_ok S c \<or> S = {} \<and> c = ByPath home" and "E S w v" and "performs (pair_kernel K) c r (w, v, True) x"
  obtains w' v' where "x = (w', v', True)" "E (case r of None \<Rightarrow> S | Some f \<Rightarrow> insert f S) w' v'"
proof -
  have "agreed x \<and> E (case r of None \<Rightarrow> S | Some f \<Rightarrow> insert f S) (fst x) (fst (snd x))"
    using assms unfolding alike_def by blast
  then show thesis using that [of "fst x" "fst (snd x)"] by (cases x) (simp add: agreed_def)
qed

lemma alike_steps:
  assumes K: "alike K home E"
  shows "E S w v \<Longrightarrow> disciplined S es \<Longrightarrow> performs_all (pair_kernel K) es (w, v, True) x \<Longrightarrow> agreed x"
proof (induction S es arbitrary: w v rule: disciplined.induct)
  case (2 S c r es)
  then obtain u where u: "performs (pair_kernel K) c r (w, v, True) u" "performs_all (pair_kernel K) es u x" and c: "call_ok S c" by auto
  obtain w' v' where "u = (w', v', True)" "E (case r of None \<Rightarrow> S | Some f \<Rightarrow> insert f S) w' v'"
    using alikeD [OF K _ 2(2) u(1)] c by blast
  with 2 u(2) show ?case by auto
qed (simp add: agreed_def)

lemma confined_agrees:
  assumes K: "alike K home E" and m: "confined_to home m" and lg: "keeps (conn_logged (pair_kernel K)) m"
    and c: "kst (c_os c) = (w, v, True)" and E: "E {} w v"
  shows "agreed (kst (c_os (snd (m c))))"
proof -
  let ?x = "kst (c_os (snd (m c)))"
  obtain new where new: "calls (snd (m c)) = calls c @ new" "performs_all (pair_kernel K) new (w, v, True) ?x"
    using lg unfolding keeps_def conn_logged_def logged_def c [symmetric] by blast
  from m obtain new' where "calls (snd (m c)) = calls c @ new'" "new' = [] \<or> new' = [(ByPath home, None)] \<or>
      (\<exists>d rest. new' = (ByPath home, Some d) # rest \<and> disciplined {d} rest)"
    unfolding confined_to_def by blast
  then consider "new = []" | "new = [(ByPath home, None)]" | d rest where "new = (ByPath home, Some d) # rest" "disciplined {d} rest"
    using new(1) by auto
  then show ?thesis
  proof cases
    case 1
    with new(2) show ?thesis by (simp add: agreed_def)
  next
    case 2
    with new(2) obtain u where "performs (pair_kernel K) (ByPath home) None (w, v, True) u" "u = ?x" by (auto simp del: performs.simps)
    then have "performs (pair_kernel K) (ByPath home) None (w, v, True) ?x" by metis
    then show ?thesis using alikeD [OF K _ E] by (metis agreed_def snd_conv)
  next
    case (3 d rest)
    then obtain u where u: "performs (pair_kernel K) (ByPath home) (Some d) (w, v, True) u" "performs_all (pair_kernel K) rest u ?x"
      using new(2) by (auto simp del: performs.simps)
    obtain w' v' where "u = (w', v', True)" "E {d} w' v'" using alikeD [OF K _ E u(1)] by auto
    with alike_steps [OF K _ 3(2)] u(2) show ?thesis by blast
  qed
qed

definition same_answer :: "('w conn, 'a) io \<Rightarrow> 'w conn \<Rightarrow> 'w conn \<Rightarrow> bool" where
  "same_answer m c d \<longleftrightarrow> fst (m c) = fst (m d) \<and> c_rw (snd (m c)) = c_rw (snd (m d)) \<and> c_rd (snd (m c)) = c_rd (snd (m d))"

definition in_state :: "'w osw conn \<Rightarrow> 'v \<Rightarrow> 'v osw conn" where
  "in_state c v = \<lparr>c_req = c_req c, c_rd = c_rd c, c_rw = c_rw c, c_os = \<lparr>kst = v, log = log (c_os c)\<rparr>\<rparr>"

lemma agreed_same_answer:
  assumes l: "tracks (conn_ok (\<lambda>_. True)) (conn_rel left_of) m2 m" and r: "tracks (conn_ok agreed) (conn_rel right_of) m2 m"
    and flag: "agreed (kst (c_os (snd (m2 (in_state c (kst (c_os c), v, True))))))"
  shows "same_answer m c (in_state c v)"
proof -
  let ?c2 = "in_state c (kst (c_os c), v, True)"
  obtain x c3 where run: "m2 ?c2 = (x, c3)" by fastforce
  have "conn_rel left_of ?c2 c" "conn_rel right_of ?c2 (in_state c v)"
    by (simp_all add: conn_rel_def os_rel_def in_state_def left_of_def right_of_def)
  moreover have "conn_ok (\<lambda>_. True) c3" "conn_ok agreed c3" using flag run by (simp_all add: conn_ok_def os_ok_def)
  ultimately obtain d e where "m c = (x, d)" "conn_rel left_of c3 d" "m (in_state c v) = (x, e)" "conn_rel right_of c3 e"
    using tracksD [OF l _ run] tracksD [OF r _ run] by metis
  then show ?thesis by (simp add: same_answer_def conn_rel_def)
qed

text \<open>
  C6: the file endpoints of a sandbox reveal nothing outside its home. Take two states of the file system that opening the home and disciplined
  calls below it cannot tell apart, say with different secrets elsewhere. Then every request to each of the six endpoints is answered
  with the same bytes and leaves the connection in the same state, links planted in the home notwithstanding.
\<close>

theorem files_reveal_home_only:
  assumes "readdir_plain K" and "alike K (e_home sbx) E" and "E {} (kst (c_os c)) v"
  shows "same_answer (handle_read C K (Some sbx)) c (in_state c v) \<and> same_answer (handle_write C K (Some sbx)) c (in_state c v) \<and>
    same_answer (handle_list C K (Some sbx)) c (in_state c v) \<and> same_answer (handle_stat C K (Some sbx)) c (in_state c v) \<and>
    same_answer (handle_delete fuel C K (Some sbx)) c (in_state c v) \<and> same_answer (handle_mkdir C K (Some sbx)) c (in_state c v)"
proof -
  have pair: "kst (c_os (in_state c (kst (c_os c), v, True))) = (kst (c_os c), v, True)" by (simp add: in_state_def)
  note agreed = confined_agrees [OF assms(2) _ _ pair assms(3)]
  note confined = handlers_confined [OF pair_readdir [OF assms(1)], of sbx]
  show ?thesis
    by (intro conjI agreed_same_answer [OF left.handlers_same(1) right.handlers_same(1)]
        agreed_same_answer [OF left.handlers_same(2) right.handlers_same(2)] agreed_same_answer [OF left.handlers_same(3) right.handlers_same(3)]
        agreed_same_answer [OF left.handlers_same(4) right.handlers_same(4)] agreed_same_answer [OF left.handlers_same(5) right.handlers_same(5)]
        agreed_same_answer [OF left.handlers_same(6) right.handlers_same(6)] agreed confined handlers_logged)
qed

end
