(* ===== verification/Mem_Fs.thy ===== *)
theory Mem_Fs
  imports Fs_Scope File_Transfer
begin

text \<open>
  A file system in memory: inodes with names, contents, owners and modes, and descriptors with a position. It is no part of the server; it
  instantiates the calls of \<open>Kernel\<close> with what \<open>open(2)\<close>, \<open>mkdirat(2)\<close> and the others document, shows that the hypotheses of
  \<open>Fs_Scope\<close> can hold (\<open>mem_unix_fs\<close>), and is what the unit tests of the repository run on in \<open>Fs_Tests\<close>. Permissions are not checked (the
  server runs as root) and time stands still.
\<close>

unbundle bit_operations_syntax

section \<open>Inodes and descriptors\<close>

definition ENXIO :: nat where "ENXIO = 6"
definition EBADF :: nat where "EBADF = 9"
definition ENOSYS :: nat where "ENOSYS = 38"
definition ENOTEMPTY :: nat where "ENOTEMPTY = 39"

record minode =
  mi_kind :: file_kind
  mi_data :: string
  mi_dir :: "(string \<times> nat) list"
  mi_uid :: nat
  mi_mode :: nat

record mem =
  m_inodes :: "minode list"
  m_fds :: "(nat \<times> nat) list"

definition m_node :: "mem \<Rightarrow> nat \<Rightarrow> minode option" where
  "m_node w i = (if i < length (m_inodes w) then Some (m_inodes w ! i) else None)"

definition m_fd :: "mem \<Rightarrow> fd \<Rightarrow> nat option" where
  "m_fd w f = (if f < length (m_fds w) then Some (fst (m_fds w ! f)) else None)"

definition entry_of :: "minode \<Rightarrow> string \<Rightarrow> nat option" where
  "entry_of x n = (if mi_kind x = Directory then map_of (mi_dir x) n else None)"

text \<open>
  Descriptors are never reused. A new inode is entered under a name in directory \<open>d\<close>. \<open>open_inode\<close> is what \<open>openat\<close> does with the
  inode it found: with \<open>O_PATH\<close> anything opens, otherwise a link is not followed and a socket or an idle fifo refuses.
\<close>

definition m_open :: "nat \<Rightarrow> mem \<Rightarrow> fd result \<times> mem" where
  "m_open i w = (Inr (length (m_fds w)), w\<lparr>m_fds := m_fds w @ [(i, 0)]\<rparr>)"

definition new_inode :: "minode \<Rightarrow> nat \<Rightarrow> string \<Rightarrow> mem \<Rightarrow> mem" where
  "new_inode x d n w = w\<lparr>m_inodes := (m_inodes w)[d := (m_inodes w ! d)\<lparr>mi_dir := mi_dir (m_inodes w ! d) @ [(n, length (m_inodes w))]\<rparr>] @ [x]\<rparr>"

definition set_inode :: "nat \<Rightarrow> (minode \<Rightarrow> minode) \<Rightarrow> mem \<Rightarrow> mem" where
  "set_inode i g w = w\<lparr>m_inodes := (m_inodes w)[i := g (m_inodes w ! i)]\<rparr>"

definition fails :: "nat \<Rightarrow> ('w, 'a) io" where
  "fails e w = (Inl (OsError e), w)"

definition m_dir :: "fd \<Rightarrow> (nat \<Rightarrow> minode \<Rightarrow> (mem, 'a) io) \<Rightarrow> (mem, 'a) io" where
  "m_dir d g w = (case m_fd w d of
     None \<Rightarrow> fails EBADF w
   | Some i \<Rightarrow> (case m_node w i of
       None \<Rightarrow> fails ENOENT w
     | Some x \<Rightarrow> if mi_kind x = Directory then g i x w else fails ENOTDIR w))"

definition m_file :: "fd \<Rightarrow> (nat \<Rightarrow> minode \<Rightarrow> (mem, 'a) io) \<Rightarrow> (mem, 'a) io" where
  "m_file f g w = (case m_fd w f of
     None \<Rightarrow> fails EBADF w
   | Some i \<Rightarrow> (case m_node w i of None \<Rightarrow> fails ENOENT w | Some x \<Rightarrow> g i x w))"

definition file_inode :: "nat \<Rightarrow> minode" where
  "file_inode mode = \<lparr>mi_kind = RegularFile, mi_data = [], mi_dir = [], mi_uid = 0, mi_mode = mode\<rparr>"

definition dir_inode :: "nat \<Rightarrow> minode" where
  "dir_inode mode = \<lparr>mi_kind = Directory, mi_data = [], mi_dir = [], mi_uid = 0, mi_mode = mode\<rparr>"

definition has :: "flags \<Rightarrow> flags \<Rightarrow> bool" where "has fl b \<longleftrightarrow> fl AND b = b"

definition open_inode :: "flags \<Rightarrow> nat \<Rightarrow> minode \<Rightarrow> (mem, fd) io" where
  "open_inode fl j y =
     (if has fl O_PATH then m_open j
      else if mi_kind y = Symlink then fails ELOOP
      else if has fl O_DIRECTORY \<and> mi_kind y \<noteq> Directory then fails ENOTDIR
      else if has fl O_WRONLY \<and> mi_kind y = Directory then fails EISDIR
      else if mi_kind y = UnixSocket \<or> mi_kind y = SpecialFile \<and> has fl O_WRONLY then fails ENXIO
      else if has fl O_TRUNC \<and> mi_kind y = RegularFile then (\<lambda>w. m_open j (set_inode j (mi_data_update (\<lambda>_. [])) w))
      else m_open j)"

definition m_openat :: "fd \<Rightarrow> string \<Rightarrow> flags \<Rightarrow> nat \<Rightarrow> (mem, fd) io" where
  "m_openat d n fl mode = m_dir d (\<lambda>i x w.
     (case entry_of x n of
        Some j \<Rightarrow> (case m_node w j of None \<Rightarrow> fails ENOENT w | Some y \<Rightarrow> open_inode fl j y w)
      | None \<Rightarrow>
          if has fl O_CREAT then m_open (length (m_inodes w)) (new_inode (file_inode mode) i n w) else fails ENOENT w))"

definition m_mkdirat :: "fd \<Rightarrow> string \<Rightarrow> nat \<Rightarrow> (mem, unit) io" where
  "m_mkdirat d n mode = m_dir d (\<lambda>i x w.
     if entry_of x n \<noteq> None then fails EEXIST w else (Inr (), new_inode (dir_inode mode) i n w))"

definition m_unlinkat :: "fd \<Rightarrow> string \<Rightarrow> nat \<Rightarrow> (mem, unit) io" where
  "m_unlinkat d n fl = m_dir d (\<lambda>i x w.
     (case Option.bind (entry_of x n) (m_node w) of
        None \<Rightarrow> fails ENOENT w
      | Some y \<Rightarrow>
          if fl = AT_REMOVEDIR \<and> mi_kind y \<noteq> Directory then fails ENOTDIR w
          else if fl = AT_REMOVEDIR \<and> mi_dir y \<noteq> [] then fails ENOTEMPTY w
          else if fl \<noteq> AT_REMOVEDIR \<and> mi_kind y = Directory then fails EISDIR w
          else (Inr (), set_inode i (mi_dir_update (filter (\<lambda>e. fst e \<noteq> n))) w)))"

definition m_stat :: "minode \<Rightarrow> metadata" where
  "m_stat x = \<lparr>md_kind = mi_kind x, md_len = length (mi_data x), md_uid = mi_uid x, md_mode = mi_mode x, md_mtime_ms = None\<rparr>"

text \<open>Resolution of a whole path, links included, with the limit of forty steps; opening by path.\<close>

fun namei :: "nat \<Rightarrow> mem \<Rightarrow> nat \<Rightarrow> string list \<Rightarrow> nat option" where
  "namei 0 w i cs = None"
| "namei (Suc k) w i [] = Some i"
| "namei (Suc k) w i (c # cs) =
     (case Option.bind (m_node w i) (\<lambda>x. entry_of x c) of
        None \<Rightarrow> None
      | Some j \<Rightarrow>
          (case m_node w j of
             Some y \<Rightarrow>
               if mi_kind y = Symlink \<and> cs \<noteq> []
               then namei k w (if prefix ''/'' (mi_data y) then 0 else i) (components_of (mi_data y) @ cs)
               else namei k w j cs
           | None \<Rightarrow> None))"

definition m_open_path :: "string \<Rightarrow> flags \<Rightarrow> nat \<Rightarrow> (mem, fd) io" where
  "m_open_path p fl mode w =
     (case namei 40 w 0 (components_of p) of
        None \<Rightarrow> fails ENOENT w
      | Some j \<Rightarrow> (case m_node w j of None \<Rightarrow> fails ENOENT w | Some y \<Rightarrow> open_inode (fl AND NOT O_TRUNC) j y w))"

definition mem_kernel :: "mem kernel" where
  "mem_kernel = \<lparr>
     k_openat = m_openat, k_mkdirat = m_mkdirat, k_unlinkat = m_unlinkat,
     k_dup = (\<lambda>d. m_file d (\<lambda>i x. m_open i)),
     k_fchown = (\<lambda>f u. m_file f (\<lambda>i x w. (Inr (), set_inode i (mi_uid_update (\<lambda>_. u)) w))),
     k_fchmod = (\<lambda>f m. m_file f (\<lambda>i x w. (Inr (), set_inode i (mi_mode_update (\<lambda>_. m)) w))),
     k_fstat = (\<lambda>f. m_file f (\<lambda>i x. returnE (m_stat x))),
     k_readdir = (\<lambda>f. m_dir f (\<lambda>i x. returnE (map (Inr \<circ> fst) (filter (\<lambda>e. plain_name (fst e)) (mi_dir x))))),
     k_read = (\<lambda>f n. m_file f (\<lambda>i x w. let p = snd (m_fds w ! f); bs = take n (drop p (mi_data x))
        in (Inr bs, w\<lparr>m_fds := (m_fds w)[f := (i, p + length bs)]\<rparr>))),
     k_write_all = (\<lambda>f bs. m_file f (\<lambda>i x w. let p = snd (m_fds w ! f)
        in (Inr (), (set_inode i (mi_data_update (put_at p bs)) w)\<lparr>m_fds := (m_fds w)[f := (i, p + length bs)]\<rparr>))),
     k_seek = (\<lambda>f n. m_file f (\<lambda>i x w. (Inr (), w\<lparr>m_fds := (m_fds w)[f := (i, n)]\<rparr>))),
     k_set_len = (\<lambda>f n. m_file f (\<lambda>i x w. (Inr (), set_inode i (mi_data_update (resize n)) w))),
     k_open = m_open_path,
     k_create_dir_all = (\<lambda>p. fails ENOSYS), k_lstat = (\<lambda>p. fails ENOSYS), k_read_dir = (\<lambda>p. fails ENOSYS),
     k_remove_dir_all = (\<lambda>p. fails ENOSYS), k_remove_dir = (\<lambda>p. fails ENOSYS), k_remove_file = (\<lambda>p. fails ENOSYS),
     k_strerror = (\<lambda>n. ''error'')\<rparr>"

section \<open>The calls change what they name\<close>

definition mem_view :: "(mem, minode) tree_view" where
  "mem_view = \<lparr>tv_node = m_node, tv_entry = entry_of, tv_inode = m_fd\<rparr>"

lemma mem_sel [simp]: "tv_node mem_view = m_node" "tv_inode mem_view = m_fd" "tv_entry mem_view = entry_of"
  "child mem_view w i n = Option.bind (m_node w i) (\<lambda>x. entry_of x n)"
  by (simp_all add: mem_view_def child_def)

lemma nth_update_any: "xs[d := v] ! i = (if i = d \<and> d < length xs then v else xs ! i)"
  by (cases "d < length xs") (auto simp: list_update_beyond not_less)

lemma node_set [simp]: "m_node (set_inode i g w) k = (if k = i then map_option g (m_node w i) else m_node w k)"
  by (auto simp: m_node_def set_inode_def nth_update_any)

lemma node_new [simp]: "m_node (new_inode x d n w) k =
    (if k = length (m_inodes w) then Some x
     else if k = d then map_option (mi_dir_update (\<lambda>l. l @ [(n, length (m_inodes w))])) (m_node w d)
     else m_node w k)"
  by (auto simp: m_node_def new_inode_def nth_append nth_update_any)

lemma node_open: "m_node (snd (m_open j w)) = m_node w" "fst (m_open j w) = Inr (length (m_fds w))"
  "m_fd (snd (m_open j w)) f = (if f = length (m_fds w) then Some j else m_fd w f)"
  by (auto simp: m_node_def m_open_def m_fd_def nth_append fun_eq_iff)

lemma fd_same [simp]: "m_fds (set_inode i g w) = m_fds w" "m_fds (new_inode x d n w) = m_fds w"
  "m_fd (set_inode i g w) = m_fd w" "m_fd (new_inode x d n w) = m_fd w"
  by (simp_all add: set_inode_def new_inode_def m_fd_def fun_eq_iff)

lemma node_beyond: "m_node w (length (m_inodes w)) = None"
  by (simp add: m_node_def)

lemma entry_new: "entry_of (mi_dir_update (\<lambda>l. l @ [(n, j)]) x) m = Some k \<Longrightarrow> entry_of x m = Some k \<or> k = j"
  by (auto simp: entry_of_def map_add_Some_iff split: if_splits)

abbreviation mreach :: "nat set \<Rightarrow> fd option \<Rightarrow> mem \<Rightarrow> mem \<Rightarrow> bool" where
  "mreach \<equiv> reaches mem_view"

lemma mreach_refl: "mreach A None w w"
  by (auto simp: reaches_def)

lemma mreach_set:
  assumes "i \<in> A" and g: "\<And>x n j. entry_of (g x) n = Some j \<Longrightarrow> entry_of x n = Some j"
  shows "mreach A None w (set_inode i g w)"
proof -
  have "child mem_view w k n = Some j" if "child mem_view (set_inode i g w) k n = Some j" for k n j
  proof (cases "k = i")
    case True
    with that obtain x where "m_node w i = Some x" "entry_of (g x) n = Some j" by (cases "m_node w i") auto
    with True g [of x n j] show ?thesis by simp
  qed (use that in simp)
  with assms(1) show ?thesis by (simp add: reaches_def del: mem_sel(4))
qed

lemma mreach_new:
  assumes "d \<in> A" and "mi_dir x = []"
  shows "mreach A None w (new_inode x d n w)"
proof -
  have "child mem_view w k m = Some j \<or> j \<in> A \<or> m_node w j = None" if "child mem_view (new_inode x d n w) k m = Some j" for k m j
  proof (cases "k = d \<and> k \<noteq> length (m_inodes w)")
    case True
    with that obtain y where "m_node w d = Some y" "entry_of (mi_dir_update (\<lambda>l. l @ [(n, length (m_inodes w))]) y) m = Some j"
      by (cases "m_node w d") auto
    with True show ?thesis using entry_new [of n "length (m_inodes w)" y m j] by (auto simp: node_beyond)
  next
    case False
    with that assms(2) show ?thesis by (auto simp: entry_of_def split: if_splits)
  qed
  with assms(1) show ?thesis by (auto simp: reaches_def node_beyond simp del: mem_sel(4))
qed

lemma mreach_open:
  assumes "mreach A None w u" and "j \<in> A \<or> m_node w j = None" and "m_fd u = m_fd w"
  shows "mreach A (Some (length (m_fds u))) w (snd (m_open j u))"
  using assms by (auto simp: reaches_def node_open)

lemma mreach_pos:
  assumes "mreach A None w v" and "m_fd w f = Some i" and "m_fds v = m_fds w"
  shows "mreach A None w (v\<lparr>m_fds := (m_fds w)[f := (i, p)]\<rparr>)"
proof -
  have "m_node (v\<lparr>m_fds := (m_fds w)[f := (i, p)]\<rparr>) = m_node v" by (simp add: m_node_def fun_eq_iff)
  moreover have "m_fd (v\<lparr>m_fds := (m_fds w)[f := (i, p)]\<rparr>) = m_fd w"
    using assms(2) by (auto simp: m_fd_def nth_update_any fun_eq_iff split: if_splits)
  moreover have "m_fd v = m_fd w" using assms(3) by (simp add: m_fd_def fun_eq_iff)
  ultimately show ?thesis using assms(1) by (simp add: reaches_def)
qed

lemma step_fails: "mreach A None w (snd (fails e w))" "fd_of (fst (fails e w :: fd result \<times> mem)) = None"
  by (simp_all add: fails_def mreach_refl fd_of_def)

lemma m_file_cases:
  obtains "m_file f g w = fails EBADF w" | "m_file f g w = fails ENOENT w"
  | i x where "m_fd w f = Some i" "m_node w i = Some x" "m_file f g w = g i x w"
  by (cases "m_fd w f"; cases "m_node w (the (m_fd w f))") (auto simp: m_file_def)

lemma m_dir_cases:
  obtains e where "m_dir f g w = fails e w"
  | i x where "m_fd w f = Some i" "m_node w i = Some x" "mi_kind x = Directory" "m_dir f g w = g i x w"
  by (cases "m_fd w f"; cases "m_node w (the (m_fd w f))"; cases "mi_kind (the (m_node w (the (m_fd w f)))) = Directory")
     (auto simp: m_dir_def)

lemma m_file_reach:
  assumes "\<And>i x. m_fd w f = Some i \<Longrightarrow> m_node w i = Some x \<Longrightarrow> mreach A None w (snd (g i x w))"
  shows "mreach A None w (snd (m_file f g w))"
  by (rule m_file_cases [of f g w]) (auto simp: step_fails assms)

lemma m_dir_reach:
  assumes "\<And>i x. m_fd w f = Some i \<Longrightarrow> m_node w i = Some x \<Longrightarrow> mreach A None w (snd (g i x w))"
  shows "mreach A None w (snd (m_dir f g w))"
  by (rule m_dir_cases [of f g w]) (auto simp: step_fails assms)

lemma mreach_fails: "mreach A (fd_of (fst (fails e w))) w (snd (fails e w))"
  by (simp add: fails_def mreach_refl fd_of_def)

lemma mreach_opened:
  assumes "mreach A None w u" and "j \<in> A \<or> m_node w j = None" and "m_fd u = m_fd w"
  shows "mreach A (fd_of (fst (m_open j u))) w (snd (m_open j u))"
  using mreach_open [OF assms] by (simp add: fd_of_def node_open)

lemma entry_data [simp]: "entry_of (mi_data_update g x) = entry_of x" "entry_of (mi_uid_update u x) = entry_of x"
  "entry_of (mi_mode_update m x) = entry_of x"
  by (simp_all add: entry_of_def fun_eq_iff)

lemma mreach_open_inode:
  assumes "j \<in> A"
  shows "mreach A (fd_of (fst (open_inode fl j y w))) w (snd (open_inode fl j y w))"
  unfolding open_inode_def using assms
  by (auto intro!: mreach_fails mreach_opened mreach_refl mreach_set)

lemma mreach_openat:
  "mreach (targets mem_view w (Openat d n fl m)) (fd_of (fst (m_openat d n fl m w))) w (snd (m_openat d n fl m w))"
  unfolding m_openat_def
proof (rule m_dir_cases)
  fix i x
  let ?g = "\<lambda>i x w. case entry_of x n of
        Some j \<Rightarrow> (case m_node w j of None \<Rightarrow> fails ENOENT w | Some y \<Rightarrow> open_inode fl j y w)
      | None \<Rightarrow> if has fl O_CREAT then m_open (length (m_inodes w)) (new_inode (file_inode m) i n w) else fails ENOENT w"
  assume i: "m_fd w d = Some i" "m_node w i = Some x" and eq: "m_dir d ?g w = ?g i x w"
  show "mreach (targets mem_view w (Openat d n fl m)) (fd_of (fst (m_dir d ?g w))) w (snd (m_dir d ?g w))"
  proof (cases "entry_of x n")
    case None
    then show ?thesis unfolding eq using i
      by (auto intro!: mreach_fails mreach_opened mreach_new simp: file_inode_def node_beyond)
  next
    case (Some j)
    then have "j \<in> targets mem_view w (Openat d n fl m)" using i by simp
    with Some show ?thesis unfolding eq
      by (auto intro!: mreach_fails mreach_open_inode split: option.split simp del: targets.simps)
  qed
qed (simp add: mreach_fails)

lemma map_of_filter_key: "map_of (filter (\<lambda>e. fst e \<noteq> n) xs) m = (if m = n then None else map_of xs m)"
  by (induction xs) auto

lemma entry_removed: "entry_of (mi_dir_update (filter (\<lambda>e. fst e \<noteq> n)) x) m = Some j \<Longrightarrow> entry_of x m = Some j"
  by (simp add: entry_of_def map_of_filter_key split: if_splits)

lemma mreach_dup:
  "mreach (targets mem_view w (Dup d)) (fd_of (fst (m_file d (\<lambda>i x. m_open i) w))) w (snd (m_file d (\<lambda>i x. m_open i) w))"
  by (rule m_file_cases [of d "\<lambda>i x. m_open i" w])
     (auto intro!: mreach_fails mreach_opened mreach_refl)

lemma mreach_dirops:
  "mreach (targets mem_view w (Mkdirat d n m)) None w (snd (m_mkdirat d n m w))"
  "mreach (targets mem_view w (Unlinkat d n k)) None w (snd (m_unlinkat d n k w))"
proof -
  show "mreach (targets mem_view w (Mkdirat d n m)) None w (snd (m_mkdirat d n m w))"
    unfolding m_mkdirat_def by (rule m_dir_reach) (auto intro!: mreach_new step_fails simp: dir_inode_def)
  show "mreach (targets mem_view w (Unlinkat d n k)) None w (snd (m_unlinkat d n k w))"
    unfolding m_unlinkat_def
    by (rule m_dir_reach) (auto intro!: mreach_set [OF _ entry_removed] step_fails split: option.split)
qed

lemma mreach_fdops:
  "mreach (targets mem_view w (Fchown f u)) None w (snd (k_fchown mem_kernel f u w))"
  "mreach (targets mem_view w (Fchmod f m)) None w (snd (k_fchmod mem_kernel f m w))"
  "mreach (targets mem_view w (WriteFd f bs)) None w (snd (k_write_all mem_kernel f bs w))"
  "mreach (targets mem_view w (SetLen f n)) None w (snd (k_set_len mem_kernel f n w))"
  "mreach {} None w (snd (k_fstat mem_kernel f w))" "mreach {} None w (snd (k_readdir mem_kernel f w))"
  "mreach {} None w (snd (k_read mem_kernel f n w))" "mreach {} None w (snd (k_seek mem_kernel f n w))"
  unfolding mem_kernel_def kernel.select_convs Let_def
  by (auto simp: returnE_def intro!: m_file_reach m_dir_reach mreach_set mreach_refl mreach_pos)

lemma mem_reaches:
  assumes "performs mem_kernel c r w v" and "call_ok S c"
  shows "mreach (targets mem_view w c) r w v"
proof -
  have k: "k_openat mem_kernel = m_openat" "k_mkdirat mem_kernel = m_mkdirat" "k_unlinkat mem_kernel = m_unlinkat"
    "k_dup mem_kernel = (\<lambda>d. m_file d (\<lambda>i x. m_open i))"
    by (simp_all add: mem_kernel_def)
  note laws = mreach_openat mreach_dirops mreach_dup mreach_fdops
  show ?thesis
  proof (cases c)
    case (Openat d n fl m)
    with assms laws show ?thesis by (simp only: performs.simps k)
  qed (use assms laws in \<open>simp_all only: performs.simps call_ok.simps targets.simps k simp_thms\<close>)
qed


lemma reaches_mono: "reaches V A r w v \<Longrightarrow> A \<subseteq> B \<Longrightarrow> reaches V B r w v"
  unfolding reaches_def by (elim conjE, intro conjI) (blast, meson subsetD, blast, metis subsetD)

lemma mem_unix_fs: "unix_fs mem_kernel mem_view h"
  unfolding unix_fs_def by (auto intro: reaches_mono [OF mem_reaches])

lemma mem_readdir_plain: "readdir_plain mem_kernel"
  unfolding readdir_plain_def mem_kernel_def kernel.select_convs m_dir_def
  by (auto simp: fails_def returnE_def split: option.splits if_splits)

section \<open>Evaluation\<close>

lemma namei_num:
  "namei (numeral k) w i [] = Some i"
  "namei (numeral k) w i (c # cs) =
     (case Option.bind (m_node w i) (\<lambda>x. entry_of x c) of
        None \<Rightarrow> None
      | Some j \<Rightarrow>
          (case m_node w j of
             Some y \<Rightarrow>
               if mi_kind y = Symlink \<and> cs \<noteq> []
               then namei (pred_numeral k) w (if prefix ''/'' (mi_data y) then 0 else i) (components_of (mi_data y) @ cs)
               else namei (pred_numeral k) w j cs
           | None \<Rightarrow> None))"
  by (simp_all add: numeral_eq_Suc)

lemma update_num: "(x # xs)[numeral k := y] = x # xs[pred_numeral k := y]"
  by (simp add: numeral_eq_Suc)

lemmas remove_num = remove_dir_contents.simps(2) [of "pred_numeral k" for k, folded numeral_eq_Suc]

text \<open>Operations are evaluated from the front: what follows is left alone until its state is known.\<close>

lemma run_cong:
  "s = t \<Longrightarrow> bindE m f s = bindE m f t" "s = t \<Longrightarrow> thenE m k s = thenE m k t" "s = t \<Longrightarrow> catchE m f g s = catchE m f g t"
  "s = t \<Longrightarrow> ignoreE m s = ignoreE m t"
  by simp_all

lemma sys_cong: "s = t \<Longrightarrow> sys c m s = sys c m t" "s = t \<Longrightarrow> sys_fd c m' s = sys_fd c m' t"
  by simp_all

lemma mem_cong: "s = t \<Longrightarrow> m_dir c g s = m_dir c g t" "s = t \<Longrightarrow> m_file c g s = m_file c g t"
  by simp_all

lemmas eval_cong = run_cong sys_cong mem_cong

lemmas mem_eval = mem_kernel_def m_openat_def m_mkdirat_def m_unlinkat_def m_stat_def m_open_path_def m_dir_def m_file_def
  m_open_def m_fd_def m_node_def entry_of_def open_inode_def new_inode_def set_inode_def dir_inode_def file_inode_def fails_def has_def
  resize_def put_at_def namei_num update_num
lemmas path_eval = components_of_def path_components_def List.map_filter_def c_path_def ctl_defs byte_def pb_push_def path_file_name_def
  plain_name_def
lemmas run_eval = bindE_def thenE_def catchE_def ignoreE_def returnE_def throwE_def liftR_def sys_def sys_fd_def Let_def
lemmas flag_defs = HOME_FLAGS_def BASE_FLAGS_def O_RDONLY_def O_WRONLY_def O_CREAT_def O_TRUNC_def O_NONBLOCK_def O_DIRECTORY_def O_NOFOLLOW_def
  O_CLOEXEC_def O_PATH_def AT_REMOVEDIR_def
lemmas scoped_eval = scoped_open_def sr_open_read_def sr_open_write_def sr_metadata_def sr_list_def sr_delete_def sr_display_def locate_def
  dup_dir_def open_at_def open_dir_at_def open_path_at_def mkdir_at_def fchown_def fchmod_def fd_metadata_def unlink_at_def read_dir_fd_def
  remove_num

section \<open>Witness\<close>

text \<open>A sandbox that has planted a link to \<open>/etc\<close> in its home, and a request to delete \<open>passwd\<close> behind it.\<close>

definition link_disk :: mem where
  "link_disk = \<lparr>m_inodes =
     [(dir_inode 493)\<lparr>mi_dir := [(''h'', 1), (''etc'', 2)]\<rparr>, (dir_inode 448)\<lparr>mi_dir := [(''link'', 4)]\<rparr>,
      (dir_inode 493)\<lparr>mi_dir := [(''passwd'', 3)]\<rparr>, (file_inode 420)\<lparr>mi_data := ''root''\<rparr>,
      (file_inode 511)\<lparr>mi_kind := Symlink, mi_data := ''/etc''\<rparr>], m_fds = []\<rparr>"

definition link_conn :: "mem osw conn" where
  "link_conn = \<lparr>c_req = c_req (demo_conn [(''path'', ''link/passwd'')]), c_rd = [], c_rw = rw_new open_writer True,
     c_os = \<lparr>kst = link_disk, log = []\<rparr>\<rparr>"

lemma link_nodes:
  "m_node link_disk (Suc 0) = Some ((dir_inode 448)\<lparr>mi_dir := [(''link'', 4)]\<rparr>)"
  "m_node link_disk 3 = Some ((file_inode 420)\<lparr>mi_data := ''root''\<rparr>)"
  "m_node link_disk 4 = Some ((file_inode 511)\<lparr>mi_kind := Symlink, mi_data := ''/etc''\<rparr>)"
  by (simp_all add: link_disk_def m_node_def)

lemma link_below: "below mem_view link_disk 1 i \<Longrightarrow> i = 1 \<or> i = 4"
  by (induction rule: below.induct) (auto simp: link_nodes entry_of_def dir_inode_def file_inode_def split: if_splits)

lemma link_home: "opens_home mem_kernel mem_view ''/h'' 1 link_disk"
proof -
  have "m_open_path ''/h'' HOME_FLAGS 0 link_disk = (Inr 0, link_disk\<lparr>m_fds := [(1, 0)]\<rparr>)"
    by (simp add: link_disk_def mem_eval path_eval flag_defs)
  moreover have "mreach {i. below mem_view link_disk 1 i} (Some 0) link_disk (link_disk\<lparr>m_fds := [(1, 0)]\<rparr>)"
    by (auto simp: reaches_def m_node_def m_fd_def link_disk_def intro: below_self)
  ultimately show ?thesis by (simp add: opens_home_def mem_kernel_def fd_of_def m_fd_def)
qed

theorem files_keep_outside_witness:
  "m_node (kst (c_os (snd (handle_delete 9 demo_codec mem_kernel (Some demo_entry) link_conn)))) 3 =
     Some ((file_inode 420)\<lparr>mi_data := ''root''\<rparr>)"
proof -
  have "opens_home mem_kernel mem_view (e_home demo_entry) 1 (kst (c_os link_conn))"
    using link_home by (simp add: link_conn_def)
  moreover have "\<not> below mem_view (kst (c_os link_conn)) 1 3" using link_below [of 3] by (auto simp: link_conn_def)
  moreover have "tv_node mem_view (kst (c_os link_conn)) 3 = Some ((file_inode 420)\<lparr>mi_data := ''root''\<rparr>)"
    by (simp add: link_conn_def link_nodes)
  ultimately show ?thesis
    using files_keep_outside [OF mem_readdir_plain mem_unix_fs, of demo_entry 1 link_conn 3
      "snd (handle_delete 9 demo_codec mem_kernel (Some demo_entry) link_conn)" demo_codec 9] by simp
qed

end
