(* ===== verification/Mem_Secrecy.thy ===== *)
theory Mem_Secrecy
  imports Fs_Secrecy Mem_Fs
begin

text \<open>
  The assumption of \<open>Fs_Secrecy\<close> holds for the file system in memory: two disks that agree on a set of inodes with the home, everything below it
  and every inode yet to be made cannot be told apart by disciplined calls (\<open>mem_alike_law\<close>).
\<close>

section \<open>States that differ outside \<open>A\<close>\<close>

definition alike_in :: "nat set \<Rightarrow> fd set \<Rightarrow> mem \<Rightarrow> mem \<Rightarrow> bool" where
  "alike_in A S w v \<longleftrightarrow> m_fds w = m_fds v \<and> length (m_inodes w) = length (m_inodes v) \<and>
     (\<forall>i. length (m_inodes w) \<le> i \<longrightarrow> i \<in> A) \<and> (\<forall>i \<in> A. m_node w i = m_node v i) \<and>
     (\<forall>i \<in> A. \<forall>n j. child mem_view w i n = Some j \<longrightarrow> j \<in> A) \<and> (\<forall>f \<in> S. \<forall>i. m_fd w f = Some i \<longrightarrow> i \<in> A)"

lemma alike_inI:
  assumes "m_fds w = m_fds v" "length (m_inodes w) = length (m_inodes v)" "\<And>i. length (m_inodes w) \<le> i \<Longrightarrow> i \<in> A"
    "\<And>i. i \<in> A \<Longrightarrow> m_node w i = m_node v i" "\<And>i n j. i \<in> A \<Longrightarrow> child mem_view w i n = Some j \<Longrightarrow> j \<in> A"
    "\<And>f i. f \<in> S \<Longrightarrow> m_fd w f = Some i \<Longrightarrow> i \<in> A"
  shows "alike_in A S w v"
  unfolding alike_in_def using assms by blast

lemma alike_inD:
  assumes "alike_in A S w v"
  shows "m_fds v = m_fds w" "length (m_inodes v) = length (m_inodes w)" "length (m_inodes w) \<le> i \<Longrightarrow> i \<in> A"
    "i \<in> A \<Longrightarrow> m_node v i = m_node w i" "i \<in> A \<Longrightarrow> child mem_view w i n = Some j \<Longrightarrow> j \<in> A"
    "f \<in> S \<Longrightarrow> m_fd w f = Some i \<Longrightarrow> i \<in> A" "m_fd v f = m_fd w f"
  using assms unfolding alike_in_def m_fd_def by (auto simp del: mem_sel(4))

lemma sizes: "length (m_inodes (set_inode i g w)) = length (m_inodes w)" "length (m_inodes (new_inode x d n w)) = Suc (length (m_inodes w))"
  "m_inodes (snd (m_open j w)) = m_inodes w"
  by (simp_all add: set_inode_def new_inode_def m_open_def)

text \<open>What the call changed names only what was named before, or new inodes.\<close>

lemma alike_closed:
  assumes a: "alike_in A S w v" and r: "mreach B None w w'" and B: "B \<subseteq> A" and i: "i \<in> A" "child mem_view w' i n = Some j"
  shows "j \<in> A"
proof -
  have c: "\<forall>i n j. child mem_view w' i n = Some j \<longrightarrow> child mem_view w i n = Some j \<or> j \<in> B \<or> m_node w j = None"
    using r unfolding reaches_def mem_sel(1,2) by (elim conjE)
  have "child mem_view w i n = Some j \<or> j \<in> B \<or> m_node w j = None" by (rule c [rule_format, OF i(2)])
  then show ?thesis using alike_inD(3,5) [OF a] i(1) B by (auto simp: m_node_def simp del: mem_sel(4) split: if_splits)
qed

lemma alike_set:
  assumes a: "alike_in A S w v" and i: "i \<in> A" and g: "\<And>x n j. entry_of (g x) n = Some j \<Longrightarrow> entry_of x n = Some j"
  shows "alike_in A S (set_inode i g w) (set_inode i g v)"
proof (rule alike_inI)
  have "mreach {i} None w (set_inode i g w)" by (rule mreach_set [OF _ g]) simp_all
  then show "j \<in> A" if "k \<in> A" "child mem_view (set_inode i g w) k n = Some j" for k n j
    using alike_closed [OF a _ _ that] i by blast
qed (use alike_inD [OF a] i in \<open>simp_all add: sizes\<close>)

lemma alike_new:
  assumes a: "alike_in A S w v" and d: "d \<in> A" and x: "mi_dir x = []"
  shows "alike_in A S (new_inode x d n w) (new_inode x d n v)"
proof (rule alike_inI)
  have "mreach {d} None w (new_inode x d n w)" by (rule mreach_new) (use x in auto)
  then show "j \<in> A" if "k \<in> A" "child mem_view (new_inode x d n w) k m = Some j" for k m j
    using alike_closed [OF a _ _ that] d by blast
qed (use alike_inD [OF a] d in \<open>simp_all add: sizes\<close>)

lemma node_fds: "m_node (snd (m_open j w)) = m_node w" "m_node (w\<lparr>m_fds := fs\<rparr>) = m_node w"
  by (simp_all add: m_node_def m_open_def fun_eq_iff)

lemma alike_open:
  assumes a: "alike_in A S w v" and "j \<in> A"
  shows "alike_in A (insert (length (m_fds w)) S) (snd (m_open j w)) (snd (m_open j v))"
proof (rule alike_inI)
  show "m_fds (snd (m_open j w)) = m_fds (snd (m_open j v))" using alike_inD(1) [OF a] by (simp add: m_open_def)
  show "i \<in> A" if "f \<in> insert (length (m_fds w)) S" "m_fd (snd (m_open j w)) f = Some i" for f i
    using that alike_inD(6) [OF a] assms(2) by (auto simp: node_open split: if_splits)
qed (use alike_inD [OF a] in \<open>simp_all add: sizes node_fds\<close>)

lemma alike_pos:
  assumes a: "alike_in A S w v" and "i \<in> A"
  shows "alike_in A S (w\<lparr>m_fds := (m_fds w)[f := (i, p)]\<rparr>) (v\<lparr>m_fds := (m_fds v)[f := (i, p)]\<rparr>)"
proof (rule alike_inI)
  show "k \<in> A" if "g \<in> S" "m_fd (w\<lparr>m_fds := (m_fds w)[f := (i, p)]\<rparr>) g = Some k" for g k
    using that alike_inD(6) [OF a, of g k] assms(2) by (auto simp: m_fd_def nth_update_any split: if_splits)
qed (use alike_inD [OF a] in \<open>simp_all add: node_fds\<close>)

section \<open>Calls\<close>

definition alike_call :: "nat set \<Rightarrow> fd set \<Rightarrow> (mem, 'a) io \<Rightarrow> mem \<Rightarrow> mem \<Rightarrow> bool" where
  "alike_call A S m w v \<longleftrightarrow> fst (m v) = fst (m w) \<and> alike_in A S (snd (m w)) (snd (m v))"

definition alike_open_call :: "nat set \<Rightarrow> fd set \<Rightarrow> (mem, fd) io \<Rightarrow> mem \<Rightarrow> mem \<Rightarrow> bool" where
  "alike_open_call A S m w v \<longleftrightarrow> fst (m v) = fst (m w) \<and>
     alike_in A (case fd_of (fst (m w)) of None \<Rightarrow> S | Some f \<Rightarrow> insert f S) (snd (m w)) (snd (m v))"

lemma alike_fails: "alike_in A S w v \<Longrightarrow> alike_call A S (fails e) w v" "alike_in A S w v \<Longrightarrow> alike_open_call A S (fails e) w v"
  by (simp_all add: alike_call_def alike_open_call_def fails_def fd_of_def)

lemma alike_opened: "alike_in A S w v \<Longrightarrow> j \<in> A \<Longrightarrow> alike_open_call A S (m_open j) w v"
  using alike_open [of A S w v j] alike_inD(1) [of A S w v] by (simp add: alike_open_call_def node_open fd_of_def)

lemma alike_m_file:
  assumes a: "alike_in A S w v" and "f \<in> S" and g: "\<And>i x. i \<in> A \<Longrightarrow> m_node w i = Some x \<Longrightarrow> alike_call A S (g i x) w v"
  shows "alike_call A S (m_file f g) w v"
proof (cases "m_fd w f")
  case None
  with a alike_inD(7) [OF a, of f] show ?thesis by (simp add: m_file_def alike_call_def fails_def)
next
  case (Some i)
  then have A: "i \<in> A" using alike_inD(6) [OF a assms(2)] by blast
  with Some a alike_inD(4,7) [OF a] g [OF A] show ?thesis
    by (cases "m_node w i") (simp_all add: m_file_def alike_call_def fails_def)
qed

lemma alike_m_dir:
  assumes a: "alike_in A S w v" and "f \<in> S" and g: "\<And>i x. i \<in> A \<Longrightarrow> m_node w i = Some x \<Longrightarrow> mi_kind x = Directory \<Longrightarrow> alike_call A S (g i x) w v"
  shows "alike_call A S (m_dir f g) w v"
proof (cases "m_fd w f")
  case None
  with a alike_inD(7) [OF a, of f] show ?thesis by (simp add: m_dir_def alike_call_def fails_def)
next
  case (Some i)
  then have A: "i \<in> A" using alike_inD(6) [OF a assms(2)] by blast
  with Some a alike_inD(4,7) [OF a] g [OF A] show ?thesis
    by (cases "m_node w i") (simp_all add: m_dir_def alike_call_def fails_def)
qed

lemma alike_m_open:
  assumes a: "alike_in A S w v" and "j \<in> A"
  shows "alike_open_call A S (m_open j) w v"
  using alike_open [OF assms] alike_inD(1) [OF a] by (simp add: alike_open_call_def node_open fd_of_def)

lemma alike_open_inode:
  assumes a: "alike_in A S w v" and "j \<in> A"
  shows "alike_open_call A S (open_inode fl j y) w v"
proof -
  have "alike_in A S (set_inode j (mi_data_update (\<lambda>_. [])) w) (set_inode j (mi_data_update (\<lambda>_. [])) v)"
    by (rule alike_set [OF a assms(2)]) simp
  from alike_m_open [OF this assms(2)]
  have "alike_open_call A S (\<lambda>w. m_open j (set_inode j (mi_data_update (\<lambda>_. [])) w)) w v" by (simp only: alike_open_call_def)
  then show ?thesis using alike_m_open [OF assms] alike_fails(2) [OF a] by (simp add: open_inode_def)
qed


lemma alike_openat:
  assumes a: "alike_in A S w v" and d: "d \<in> S"
  shows "alike_open_call A S (m_openat d n fl m) w v"
proof (cases "m_fd w d")
  case None
  with a alike_inD(7) [OF a, of d] show ?thesis by (simp add: m_openat_def m_dir_def alike_open_call_def fails_def fd_of_def)
next
  case (Some i)
  note v = alike_inD [OF a]
  have A: "i \<in> A" using v(6) d Some by blast
  show ?thesis
  proof (cases "m_node w i")
    case None
    with Some A v(4,7) a show ?thesis by (simp add: m_openat_def m_dir_def alike_open_call_def fails_def fd_of_def)
  next
    case (Some x)
    have runs: "m_openat d n fl m u = (if mi_kind x = Directory then
        (case entry_of x n of
           Some j \<Rightarrow> (case m_node u j of None \<Rightarrow> fails ENOENT u | Some y \<Rightarrow> open_inode fl j y u)
         | None \<Rightarrow> if has fl O_CREAT then m_open (length (m_inodes u)) (new_inode (file_inode m) i n u) else fails ENOENT u)
        else fails ENOTDIR u)" if "u = w \<or> u = v" for u
      using that Some \<open>m_fd w d = Some i\<close> A v(4,7) by (auto simp: m_openat_def m_dir_def)
    have new: "alike_open_call A S (\<lambda>u. m_open (length (m_inodes w)) (new_inode (file_inode m) i n u)) w v"
      using alike_m_open [OF alike_new [OF a A, of "file_inode m" n], of "length (m_inodes w)"] v(3)
      by (simp add: alike_open_call_def file_inode_def)
    have "alike_open_call A S (\<lambda>u. case m_node u j of None \<Rightarrow> fails ENOENT u | Some y \<Rightarrow> open_inode fl j y u) w v"
      if "entry_of x n = Some j" for j
    proof -
      have "j \<in> A" using v(5) [OF A, of n j] that Some by simp
      then show ?thesis using alike_open_inode [OF a \<open>j \<in> A\<close>, of fl] alike_fails(2) [OF a] v(4)
        by (cases "m_node w j") (simp_all add: alike_open_call_def)
    qed
    with new alike_fails(2) [OF a] v(2) show ?thesis
      by (cases "entry_of x n") (simp_all add: alike_open_call_def runs)
  qed
qed

lemma alike_calls:
  assumes a: "alike_in A S w v" and f: "f \<in> S"
  shows "alike_call A S (k_mkdirat mem_kernel f n m) w v" "alike_call A S (k_unlinkat mem_kernel f n fl) w v"
    "alike_call A S (k_fchown mem_kernel f u) w v" "alike_call A S (k_fchmod mem_kernel f m) w v"
    "alike_call A S (k_fstat mem_kernel f) w v" "alike_call A S (k_readdir mem_kernel f) w v"
    "alike_call A S (k_read mem_kernel f l) w v" "alike_call A S (k_write_all mem_kernel f bs) w v"
    "alike_call A S (k_seek mem_kernel f l) w v" "alike_call A S (k_set_len mem_kernel f l) w v"
proof -
  note v = alike_inD [OF a]
  have set: "alike_call A S (\<lambda>w. (Inr (), set_inode i g w)) w v" if "i \<in> A" "\<And>x n. entry_of (g x) n = entry_of x n" for i g
    using alike_set [OF a that(1), of g] that(2) by (simp add: alike_call_def)
  show "alike_call A S (k_fchown mem_kernel f u) w v" "alike_call A S (k_fchmod mem_kernel f m) w v"
    "alike_call A S (k_set_len mem_kernel f l) w v"
    unfolding mem_kernel_def kernel.select_convs by (intro alike_m_file [OF a f] set; simp)+
  show "alike_call A S (k_fstat mem_kernel f) w v" "alike_call A S (k_readdir mem_kernel f) w v"
    unfolding mem_kernel_def kernel.select_convs
    by (intro alike_m_file [OF a f] alike_m_dir [OF a f]; simp add: alike_call_def returnE_def a)+
  show "alike_call A S (k_seek mem_kernel f l) w v"
    unfolding mem_kernel_def kernel.select_convs using alike_pos [OF a]
    by (intro alike_m_file [OF a f]) (simp add: alike_call_def)
  show "alike_call A S (k_read mem_kernel f l) w v"
    unfolding mem_kernel_def kernel.select_convs using alike_pos [OF a] v(1)
    by (intro alike_m_file [OF a f]) (simp add: alike_call_def Let_def)
  show "alike_call A S (k_write_all mem_kernel f bs) w v"
    unfolding mem_kernel_def kernel.select_convs Let_def
  proof (rule alike_m_file [OF a f])
    fix i x assume i: "i \<in> A"
    let ?g = "mi_data_update (put_at (snd (m_fds w ! f)) bs)"
    have "alike_in A S (set_inode i ?g w) (set_inode i ?g v)" by (rule alike_set [OF a i]) simp
    from alike_pos [OF this i, of f] v(1)
    show "alike_call A S (\<lambda>w. (Inr (), (set_inode i (mi_data_update (put_at (snd (m_fds w ! f)) bs)) w)
        \<lparr>m_fds := (m_fds w)[f := (i, snd (m_fds w ! f) + length bs)]\<rparr>)) w v"
      by (simp add: alike_call_def)
  qed
  show "alike_call A S (k_mkdirat mem_kernel f n m) w v"
    unfolding mem_kernel_def kernel.select_convs m_mkdirat_def
  proof (rule alike_m_dir [OF a f])
    fix i x assume "i \<in> A"
    then show "alike_call A S (\<lambda>w. if entry_of x n \<noteq> None then fails EEXIST w else (Inr (), new_inode (dir_inode m) i n w)) w v"
      using alike_fails(1) [OF a] alike_new [OF a, of i "dir_inode m" n] by (auto simp: alike_call_def dir_inode_def)
  qed
  show "alike_call A S (k_unlinkat mem_kernel f n fl) w v"
    unfolding mem_kernel_def kernel.select_convs m_unlinkat_def
  proof (rule alike_m_dir [OF a f])
    fix i x assume i: "i \<in> A" "m_node w i = Some x" "mi_kind x = Directory"
    have same: "m_node v j = m_node w j" if "entry_of x n = Some j" for j using v(4) v(5) [OF i(1), of n j] i that by simp
    then have "Option.bind (entry_of x n) (m_node v) = Option.bind (entry_of x n) (m_node w)" by (cases "entry_of x n") auto
    moreover have "alike_in A S (set_inode i (mi_dir_update (filter (\<lambda>e. fst e \<noteq> n))) w) (set_inode i (mi_dir_update (filter (\<lambda>e. fst e \<noteq> n))) v)"
      by (rule alike_set [OF a i(1) entry_removed])
    ultimately show "alike_call A S (\<lambda>w. case Option.bind (entry_of x n) (m_node w) of
        None \<Rightarrow> fails ENOENT w
      | Some y \<Rightarrow>
          if fl = AT_REMOVEDIR \<and> mi_kind y \<noteq> Directory then fails ENOTDIR w
          else if fl = AT_REMOVEDIR \<and> mi_dir y \<noteq> [] then fails ENOTEMPTY w
          else if fl \<noteq> AT_REMOVEDIR \<and> mi_kind y = Directory then fails EISDIR w
          else (Inr (), set_inode i (mi_dir_update (filter (\<lambda>e. fst e \<noteq> n))) w)) w v"
      using a by (cases "Option.bind (entry_of x n) (m_node w)") (simp_all add: alike_call_def fails_def)
  qed
qed

lemma alike_dup: 
  assumes a: "alike_in A S w v" and f: "f \<in> S"
  shows "alike_open_call A S (k_dup mem_kernel f) w v"
proof (cases "m_fd w f")
  case None
  with a alike_inD(7) [OF a, of f] show ?thesis by (simp add: mem_kernel_def m_file_def alike_open_call_def fails_def fd_of_def)
next
  case (Some i)
  then have A: "i \<in> A" using alike_inD(6) [OF a f] by blast
  with Some a alike_inD(4,7) [OF a] alike_m_open [OF a A] show ?thesis
    by (cases "m_node w i") (simp_all add: mem_kernel_def m_file_def alike_open_call_def fails_def fd_of_def)
qed


section \<open>The law\<close>

definition mem_alike :: "string \<Rightarrow> nat \<Rightarrow> fd set \<Rightarrow> mem \<Rightarrow> mem \<Rightarrow> bool" where
  "mem_alike home h S w v \<longleftrightarrow> (\<exists>A. h \<in> A \<and> alike_in A S w v) \<and>
     (S = {} \<longrightarrow> namei 40 w 0 (components_of home) = Some h \<and> namei 40 v 0 (components_of home) = Some h)"

lemma pair_performs:
  "performs (pair_kernel K) (Openat d n fl m) r (w, v, True) x \<longleftrightarrow> r = fd_of (fst (k_openat K d n fl m w)) \<and>
     x = (snd (k_openat K d n fl m w), snd (k_openat K d n fl m v), fst (k_openat K d n fl m w) = fst (k_openat K d n fl m v))"
  "performs (pair_kernel K) (Dup d) r (w, v, True) x \<longleftrightarrow> r = fd_of (fst (k_dup K d w)) \<and>
     x = (snd (k_dup K d w), snd (k_dup K d v), fst (k_dup K d w) = fst (k_dup K d v))"
  "performs (pair_kernel K) (ByPath p) r (w, v, True) x \<longleftrightarrow> r = fd_of (fst (k_open K p HOME_FLAGS 0 w)) \<and>
     x = (snd (k_open K p HOME_FLAGS 0 w), snd (k_open K p HOME_FLAGS 0 v), fst (k_open K p HOME_FLAGS 0 w) = fst (k_open K p HOME_FLAGS 0 v))"
  by (auto simp: pair_kernel_def pair_call_def)

definition goes_alike :: "nat set \<Rightarrow> fd set \<Rightarrow> fd option \<Rightarrow> mem \<times> mem \<times> bool \<Rightarrow> bool" where
  "goes_alike A S r x \<longleftrightarrow> agreed x \<and> alike_in A (case r of None \<Rightarrow> S | Some f \<Rightarrow> insert f S) (fst x) (fst (snd x))"

lemma opened_goes_alike:
  "alike_open_call A S m w v \<Longrightarrow> goes_alike A S (fd_of (fst (m w))) (snd (m w), snd (m v), fst (m w) = fst (m v))"
  by (simp add: alike_open_call_def goes_alike_def agreed_def)

lemma called_goes_alike:
  "alike_call A S m w v \<Longrightarrow> goes_alike A S None (snd (m w), snd (m v), fst (m w) = fst (m v))"
  by (simp add: alike_call_def goes_alike_def agreed_def)

lemma disciplined_goes_alike:
  assumes a: "alike_in A S w v" and c: "call_ok S c" and p: "performs (pair_kernel mem_kernel) c r (w, v, True) x"
  shows "goes_alike A S r x"
proof -
  have k: "k_openat mem_kernel = m_openat" by (simp add: mem_kernel_def)
  show ?thesis
    using c p
  proof (cases c)
    case (Openat d n fl m)
    with c p opened_goes_alike [OF alike_openat [OF a, of d n fl m]] show ?thesis by (simp only: pair_performs k call_ok.simps)
  next
    case (Dup d)
    with c p opened_goes_alike [OF alike_dup [OF a, of d]] show ?thesis by (simp only: pair_performs call_ok.simps)
  qed (auto simp: pair_kernel_def pair_call_def intro!: called_goes_alike alike_calls [OF a])
qed


lemma home_goes_alike:
  assumes a: "alike_in A S w v" and h: "h \<in> A" "namei 40 w 0 (components_of home) = Some h" "namei 40 v 0 (components_of home) = Some h"
  shows "alike_open_call A S (k_open mem_kernel home HOME_FLAGS 0) w v"
proof (cases "m_node w h")
  case None
  with a h alike_inD(4) [OF a h(1)] show ?thesis by (simp add: mem_kernel_def m_open_path_def alike_open_call_def fails_def fd_of_def)
next
  case (Some y)
  with h alike_inD(4) [OF a h(1)] alike_open_inode [OF a h(1), of "HOME_FLAGS AND NOT O_TRUNC" y] show ?thesis
    by (simp add: mem_kernel_def m_open_path_def alike_open_call_def)
qed

lemma open_inode_fails: "fst (open_inode fl j y w) = Inl e \<Longrightarrow> snd (open_inode fl j y w) = w"
  by (auto simp: open_inode_def fails_def node_open split: if_splits)

lemma home_failed:
  assumes "fd_of (fst (k_open mem_kernel home HOME_FLAGS 0 w)) = None"
  shows "snd (k_open mem_kernel home HOME_FLAGS 0 w) = w"
  using assms open_inode_fails
  by (auto simp: mem_kernel_def m_open_path_def fails_def fd_of_def split: option.splits sum.splits)

lemma mem_alike_law: "alike mem_kernel home (mem_alike home h)"
  unfolding alike_def
proof (intro allI impI, elim conjE)
  fix S c r w v x
  assume c: "call_ok S c \<or> S = {} \<and> c = ByPath home" and E: "mem_alike home h S w v"
    and p: "performs (pair_kernel mem_kernel) c r (w, v, True) x"
  obtain A where A: "h \<in> A" "alike_in A S w v" using E by (auto simp: mem_alike_def)
  let ?S' = "case r of None \<Rightarrow> S | Some f \<Rightarrow> insert f S"
  have "goes_alike A S r x \<and> (?S' = {} \<longrightarrow> mem_alike home h ?S' (fst x) (fst (snd x)))"
  proof (cases "call_ok S c")
    case True
    then have "S \<noteq> {}" by (cases c) auto
    with disciplined_goes_alike [OF A(2) True p] show ?thesis by (cases r) auto
  next
    case False
    with c have c: "c = ByPath home" "S = {}" by auto
    note h = E [unfolded mem_alike_def, THEN conjunct2, rule_format, OF c(2)]
    have open_ok: "alike_open_call A S (k_open mem_kernel home HOME_FLAGS 0) w v"
      using home_goes_alike [OF A(2,1)] h by blast
    have x: "r = fd_of (fst (k_open mem_kernel home HOME_FLAGS 0 w))"
      "x = (snd (k_open mem_kernel home HOME_FLAGS 0 w), snd (k_open mem_kernel home HOME_FLAGS 0 v),
        fst (k_open mem_kernel home HOME_FLAGS 0 w) = fst (k_open mem_kernel home HOME_FLAGS 0 v))"
      using p unfolding c(1) pair_performs by blast+
    have "mem_alike home h ?S' (fst x) (fst (snd x))" if "?S' = {}"
    proof -
      from that have "r = None" by (cases r) auto
      moreover from this open_ok x(1) have "fd_of (fst (k_open mem_kernel home HOME_FLAGS 0 v)) = None" by (simp add: alike_open_call_def)
      ultimately show ?thesis using home_failed [of home w] home_failed [of home v] x E c(2) by simp
    qed
    then show ?thesis using opened_goes_alike [OF open_ok] x by simp
  qed
  then show "agreed x \<and> mem_alike home h ?S' (fst x) (fst (snd x))"
    using A(1) unfolding goes_alike_def mem_alike_def by blast
qed

section \<open>Witness\<close>

text \<open>The disk of \<open>Mem_Fs\<close> with another \<open>passwd\<close>, and a request for \<open>passwd\<close> through the planted link.\<close>

definition other_disk :: mem where
  "other_disk = set_inode 3 (mi_data_update (\<lambda>_. ''secret'')) link_disk"

lemma link_alike: "mem_alike ''/h'' 1 {} link_disk other_disk"
proof -
  have n: "5 \<le> i \<Longrightarrow> m_node link_disk i = None" for i
    by (simp add: m_node_def link_disk_def)
  have "alike_in {i. i = 1 \<or> 4 \<le> i} {} link_disk other_disk"
  proof (rule alike_inI)
    show "j \<in> {i. i = 1 \<or> 4 \<le> i}" if i: "i \<in> {i. i = 1 \<or> 4 \<le> i}" "child mem_view link_disk i n = Some j" for i n j
    proof -
      consider "i = Suc 0" | "i = 4" | "5 \<le> i" using i(1) by (cases "i = 4"; cases "5 \<le> i") auto
      then show ?thesis
        using i(2) by cases (auto simp: link_nodes n entry_of_def dir_inode_def file_inode_def split: if_splits)
    qed
  qed (auto simp: other_disk_def set_inode_def link_disk_def m_node_def)
  moreover have "namei 40 link_disk 0 (components_of ''/h'') = Some 1" "namei 40 other_disk 0 (components_of ''/h'') = Some 1"
    by (simp_all add: other_disk_def link_disk_def mem_eval path_eval)
  ultimately show ?thesis unfolding mem_alike_def by (intro conjI exI [of _ "{i. i = 1 \<or> 4 \<le> i}"]) simp_all
qed

theorem files_reveal_home_only_witness:
  "same_answer (handle_read demo_codec mem_kernel (Some demo_entry)) link_conn (in_state link_conn other_disk) \<and>
   m_node link_disk 3 \<noteq> m_node other_disk 3"
  using files_reveal_home_only [OF mem_readdir_plain, of demo_entry "mem_alike ''/h'' 1" link_conn other_disk demo_codec]
    mem_alike_law link_alike by (simp add: link_conn_def other_disk_def link_nodes file_inode_def)

end
