(* ===== verification/Fs_Tests.thy ===== *)
theory Fs_Tests
  imports Mem_Fs Proxy
begin

text \<open>
  The unit tests of \<open>src/files.rs\<close> and those of \<open>src/proxy.rs\<close> that need no live socket, each as a definition that makes the calls and the
  assertions of the test in its order, run on the file system in memory of \<open>Mem_Fs\<close>: the definitions of \<open>Fsutil\<close> and \<open>Proxy\<close> pass
  them all. Each test starts from the directories \<open>/home\<close> and \<open>/outside\<close> that its \<open>layout()\<close> creates.
\<close>

section \<open>What the tests do themselves\<close>

definition mem_layout :: mem where
  "mem_layout = \<lparr>m_inodes =
     [(dir_inode 493)\<lparr>mi_dir := [(''home'', 1), (''outside'', 2)]\<rparr>, dir_inode 448, dir_inode 448], m_fds = []\<rparr>"

text \<open>\<open>fs::create_dir\<close>, \<open>symlink\<close>, \<open>mkfifo\<close> and \<open>bind\<close> plant an inode at a path; \<open>fs::write\<close> and \<open>fs::read\<close> are the library's.\<close>

definition put_inode :: "string \<Rightarrow> minode \<Rightarrow> mem \<Rightarrow> mem" where
  "put_inode p x w = (let cs = components_of p in
     case namei 40 w 0 (butlast cs) of None \<Rightarrow> w | Some d \<Rightarrow> new_inode x d (last cs) w)"

definition lookup_path :: "string \<Rightarrow> mem \<Rightarrow> minode option" where
  "lookup_path p w = Option.bind (namei 40 w 0 (components_of p)) (m_node w)"

definition file_of :: "string \<Rightarrow> minode" where
  "file_of content = (file_inode 420)\<lparr>mi_data := content, mi_uid := 1000\<rparr>"

definition symlink_to :: "string \<Rightarrow> minode" where
  "symlink_to target = (file_inode 511)\<lparr>mi_kind := Symlink, mi_data := target, mi_uid := 1000\<rparr>"

definition special :: "file_kind \<Rightarrow> minode" where
  "special k = (file_inode 384)\<lparr>mi_kind := k, mi_uid := 1000\<rparr>"

definition fs_write :: "string \<Rightarrow> string \<Rightarrow> (mem osw, unit) io" where
  "fs_write p bs s = (Inr (), s\<lparr>kst := (case namei 40 (kst s) 0 (components_of p) of
     Some i \<Rightarrow> set_inode i (mi_data_update (\<lambda>_. bs)) (kst s)
   | None \<Rightarrow> put_inode p (file_of bs) (kst s))\<rparr>)"

definition fs_read :: "string \<Rightarrow> (mem osw, string option) io" where
  "fs_read p s = (Inr (map_option mi_data (lookup_path p (kst s))), s)"

definition fs_exists :: "string \<Rightarrow> (mem osw, bool) io" where
  "fs_exists p s = (Inr (lookup_path p (kst s) \<noteq> None), s)"

definition change_disk :: "(mem \<Rightarrow> mem) \<Rightarrow> (mem osw, unit) io" where
  "change_disk g s = (Inr (), s\<lparr>kst := g (kst s)\<rparr>)"

definition plant :: "string \<Rightarrow> minode \<Rightarrow> (mem osw, unit) io" where
  "plant p x s = (Inr (), s\<lparr>kst := put_inode p x (kst s)\<rparr>)"

text \<open>A failed assertion and an \<open>unwrap\<close> of an error end the test.\<close>

definition assertE :: "bool \<Rightarrow> ('s, unit) io" where
  "assertE b = (if b then returnE () else throwE (IoError InvalidInput ''assertion failed''))"

definition expect_err :: "('s, 'a) io \<Rightarrow> ('s, unit) io" where
  "expect_err m = catchE m (\<lambda>_. assertE False) (\<lambda>_. returnE ())"

definition passes :: "(mem osw, unit) io \<Rightarrow> bool" where
  "passes test \<longleftrightarrow> fst (test \<lparr>kst = mem_layout, log = []\<rparr>) = Inr ()"

definition euid :: nat where "euid = 1000"

definition test_root :: "(mem osw, scoped_root) io" where
  "test_root = scoped_open mem_kernel ''/home'' euid"

section \<open>\<open>files.rs\<close>\<close>

definition normalization_cannot_name_anything_outside_the_home :: bool where
  "normalization_cannot_name_anything_outside_the_home \<longleftrightarrow>
     list_all (\<lambda>p. let rel = normalize_relative p in \<not> prefix ''/'' rel \<and> ParentDir \<notin> set (path_components rel))
       [''/etc/passwd'', ''../../etc/passwd'', ''a/../../../etc/passwd'', ''/'', ''./x''] \<and>
     normalize_relative ''/a/b/../c'' = ''a/c''"

definition final_symlink_is_not_followed :: "(mem osw, unit) io" where
  "final_symlink_is_not_followed =
     thenE (fs_write ''/outside/secret'' ''secret'') (
     thenE (plant ''/home/escape'' (symlink_to ''/outside/secret'')) (
     bindE test_root (\<lambda>root.
     thenE (expect_err (sr_open_read mem_kernel root ''escape'')) (
     thenE (expect_err (sr_open_write mem_kernel root ''escape'' True None)) (
     bindE (fs_read ''/outside/secret'') (\<lambda>bs. assertE (bs = Some ''secret'')))))))"

definition intermediate_symlink_is_not_followed :: "(mem osw, unit) io" where
  "intermediate_symlink_is_not_followed =
     thenE (plant ''/home/escape'' (symlink_to ''/outside'')) (
     bindE test_root (\<lambda>root.
     thenE (expect_err (sr_open_write mem_kernel root ''escape/created'' True None)) (
     thenE (expect_err (sr_open_read mem_kernel root ''escape/anything'')) (
     thenE (expect_err (sr_list mem_kernel root ''escape'')) (
     bindE (fs_exists ''/outside/created'') (\<lambda>b. assertE (\<not> b)))))))"

definition deleting_a_symlink_leaves_its_target_alone :: "(mem osw, unit) io" where
  "deleting_a_symlink_leaves_its_target_alone =
     thenE (fs_write ''/outside/secret'' ''secret'') (
     thenE (plant ''/home/escape'' (symlink_to ''/outside'')) (
     bindE test_root (\<lambda>root.
     bindE (sr_delete 9 mem_kernel root ''escape'' True) (\<lambda>_.
     bindE (fs_read ''/outside/secret'') (\<lambda>bs.
     thenE (assertE (bs = Some ''secret'')) (
     bindE (fs_exists ''/home/escape'') (\<lambda>b. assertE (\<not> b))))))))"

definition stat_reports_the_link_not_its_target :: "(mem osw, unit) io" where
  "stat_reports_the_link_not_its_target =
     thenE (fs_write ''/outside/secret'' ''0123456789'') (
     thenE (plant ''/home/escape'' (symlink_to ''/outside/secret'')) (
     bindE test_root (\<lambda>root.
     bindE (sr_metadata mem_kernel root ''escape'') (\<lambda>md. assertE (is_symlink md \<and> md_len md \<noteq> 10)))))"

definition listing_reports_symlinks_without_following_them :: "(mem osw, unit) io" where
  "listing_reports_symlinks_without_following_them =
     thenE (plant ''/home/escape'' (symlink_to ''/outside'')) (
     bindE test_root (\<lambda>root.
     bindE (sr_list mem_kernel root '''') (\<lambda>entries.
       assertE (case find (\<lambda>(p, _). path_file_name p = Some ''escape'') entries of
         Some (_, md) \<Rightarrow> is_symlink md | None \<Rightarrow> False))))"

definition writes_create_the_parent_chain_and_round_trip :: "(mem osw, unit) io" where
  "writes_create_the_parent_chain_and_round_trip =
     bindE test_root (\<lambda>root.
     bindE (sr_open_write mem_kernel root ''a/b/file'' True None) (\<lambda>f.
     thenE (sys (WriteFd f ''hello'') (k_write_all mem_kernel f ''hello'')) (
     bindE (fs_read ''/home/a/b/file'') (\<lambda>bs.
     thenE (assertE (bs = Some ''hello'')) (
     bindE (sr_open_read mem_kernel root ''a/b/file'') (\<lambda>g.
     bindE (sys (ReadFd g 32) (k_read mem_kernel g 32)) (\<lambda>content.
     bindE (sys (ReadFd g 32) (k_read mem_kernel g 32)) (\<lambda>more.
       assertE (content = ''hello'' \<and> more = [])))))))))"

definition a_plain_write_truncates_and_a_ranged_write_does_not :: "(mem osw, unit) io" where
  "a_plain_write_truncates_and_a_ranged_write_does_not =
     bindE test_root (\<lambda>root.
     thenE (fs_write ''/home/f'' ''0123456789'') (
     bindE (sr_open_write mem_kernel root ''f'' False None) (\<lambda>f.
     thenE (sys (WriteFd f ''ab'') (k_write_all mem_kernel f ''ab'')) (
     bindE (fs_read ''/home/f'') (\<lambda>bs.
     thenE (assertE (bs = Some ''ab'')) (
     thenE (fs_write ''/home/f'' ''0123456789'') (
     bindE (sr_open_write mem_kernel root ''f'' False (Some 2)) (\<lambda>g.
     thenE (sys (SeekFd g 2) (k_seek mem_kernel g 2)) (
     thenE (sys (WriteFd g ''ab'') (k_write_all mem_kernel g ''ab'')) (
     bindE (fs_read ''/home/f'') (\<lambda>bs. assertE (bs = Some ''01ab456789''))))))))))))"

definition tree_disk :: mem where
  "tree_disk = \<lparr>m_inodes =
     [(dir_inode 493)\<lparr>mi_dir := [(''home'', 1), (''outside'', 2)]\<rparr>,
      (dir_inode 493)\<lparr>mi_dir := [(''tree'', 3)]\<rparr>, (dir_inode 493)\<lparr>mi_dir := [(''keep'', 7)]\<rparr>,
      (dir_inode 493)\<lparr>mi_dir := [(''sub'', 4), (''link'', 6)]\<rparr>, (dir_inode 493)\<lparr>mi_dir := [(''file'', 5)]\<rparr>, file_of ''x'',
      symlink_to ''/outside'', file_of ''keep''], m_fds = []\<rparr>"

definition recursive_delete_walks_by_descriptor_and_skips_symlinked_trees :: "(mem osw, unit) io" where
  "recursive_delete_walks_by_descriptor_and_skips_symlinked_trees =
     thenE (change_disk (\<lambda>_. tree_disk)) (
     bindE test_root (\<lambda>root.
     bindE (sr_delete 9 mem_kernel root ''tree'' True) (\<lambda>_.
     bindE (fs_exists ''/home/tree'') (\<lambda>b.
     thenE (assertE (\<not> b)) (
     bindE (fs_read ''/outside/keep'') (\<lambda>bs. assertE (bs = Some ''keep'')))))))"

definition special_files_are_refused_rather_than_blocking :: "(mem osw, unit) io" where
  "special_files_are_refused_rather_than_blocking =
     thenE (plant ''/home/pipe'' (special SpecialFile)) (
     bindE test_root (\<lambda>root. expect_err (sr_open_read mem_kernel root ''pipe'')))"

definition the_home_itself_cannot_be_deleted :: "(mem osw, unit) io" where
  "the_home_itself_cannot_be_deleted =
     bindE test_root (\<lambda>root.
     thenE (expect_err (sr_delete 9 mem_kernel root '''' True)) (
     bindE (fs_exists ''/home'') assertE))"

section \<open>\<open>proxy.rs\<close>\<close>

definition socket_entry :: "nat \<Rightarrow> sandbox_entry" where
  "socket_entry uid = demo_entry\<lparr>e_home := ''/home'', e_uid := uid\<rparr>"

definition proxy_layout :: "(mem osw, unit) io" where
  "proxy_layout = thenE (plant ''/home/.sbx'' (dir_inode 493)) (plant ''/home/.sbx/proxy'' (dir_inode 493))"

definition a_real_socket_owned_by_the_sandbox_is_accepted :: "(mem osw, unit) io" where
  "a_real_socket_owned_by_the_sandbox_is_accepted =
     thenE proxy_layout (
     thenE (plant ''/home/.sbx/proxy/8000.sock'' (special UnixSocket)) (
     bindE (open_sandbox_socket mem_kernel (socket_entry euid) 8000) (\<lambda>_. returnE ())))"

definition a_symlinked_socket_is_refused :: "(mem osw, unit) io" where
  "a_symlinked_socket_is_refused =
     thenE proxy_layout (
     thenE (plant ''/outside/victim.sock'' (special UnixSocket)) (
     thenE (plant ''/home/.sbx/proxy/8000.sock'' (symlink_to ''/outside/victim.sock'')) (
     expect_err (open_sandbox_socket mem_kernel (socket_entry euid) 8000))))"

definition a_symlinked_proxy_directory_is_refused :: "(mem osw, unit) io" where
  "a_symlinked_proxy_directory_is_refused =
     thenE (plant ''/outside/8000.sock'' (special UnixSocket)) (
     thenE (plant ''/home/.sbx'' (dir_inode 493)) (
     thenE (plant ''/home/.sbx/proxy'' (symlink_to ''/outside'')) (
     expect_err (open_sandbox_socket mem_kernel (socket_entry euid) 8000))))"

definition a_non_socket_is_refused :: "(mem osw, unit) io" where
  "a_non_socket_is_refused =
     thenE proxy_layout (
     thenE (fs_write ''/home/.sbx/proxy/8000.sock'' ''not a socket'') (
     expect_err (open_sandbox_socket mem_kernel (socket_entry euid) 8000)))"

definition a_socket_owned_by_another_uid_is_refused :: "(mem osw, unit) io" where
  "a_socket_owned_by_another_uid_is_refused =
     thenE proxy_layout (
     thenE (plant ''/home/.sbx/proxy/8000.sock'' (special UnixSocket)) (
     expect_err (open_sandbox_socket mem_kernel (socket_entry (euid + 1)) 8000)))"

definition port_must_be_a_number_in_range :: bool where
  "port_must_be_a_number_in_range \<longleftrightarrow>
     split_target [''8000''] = Some (8000, ''/'') \<and> split_target [''8000'', ''ws''] = Some (8000, ''/ws'') \<and>
     list_all (\<lambda>bad. split_target [bad] = None)
       ['''', ''0'', ''65536'', ''-1'', ''abc'', ''..'', ''8000.sock'', ''08000'' @ [LF]]"

section \<open>The runs\<close>

lemma show_8000: "show_nat 8000 = ''8000''"
  by (simp add: str_eval)

lemma expect_cong: "s = t \<Longrightarrow> expect_err m s = expect_err m t"
  by simp

lemmas fs_eval = mem_layout_def put_inode_def lookup_path_def file_of_def symlink_to_def special_def fs_write_def fs_read_def
  fs_exists_def change_disk_def plant_def assertE_def expect_err_def passes_def euid_def test_root_def tree_disk_def socket_entry_def
  proxy_layout_def open_sandbox_socket_def PROXY_SUBDIR_def socket_name_def show_8000 mem_eval path_eval run_eval flag_defs scoped_eval

lemmas fs_cong = eval_cong expect_cong

lemma normalization_passes: normalization_cannot_name_anything_outside_the_home
  by (auto simp: normalization_cannot_name_anything_outside_the_home_def normalize_relative_join resolve_def path_eval Let_def)

lemma port_test_passes: port_must_be_a_number_in_range
  by (simp add: port_must_be_a_number_in_range_def split_target_def str_eval)

lemma final_symlink_is_not_followed_passes: "passes final_symlink_is_not_followed"
  unfolding final_symlink_is_not_followed_def by (simp add: fs_eval cong: fs_cong)

lemma intermediate_symlink_is_not_followed_passes: "passes intermediate_symlink_is_not_followed"
  unfolding intermediate_symlink_is_not_followed_def by (simp add: fs_eval cong: fs_cong)

lemma deleting_a_symlink_leaves_its_target_alone_passes: "passes deleting_a_symlink_leaves_its_target_alone"
  unfolding deleting_a_symlink_leaves_its_target_alone_def by (simp add: fs_eval cong: fs_cong)

lemma stat_reports_the_link_not_its_target_passes: "passes stat_reports_the_link_not_its_target"
  unfolding stat_reports_the_link_not_its_target_def by (simp add: fs_eval cong: fs_cong)

lemma listing_reports_symlinks_without_following_them_passes: "passes listing_reports_symlinks_without_following_them"
  unfolding listing_reports_symlinks_without_following_them_def by (simp add: fs_eval cong: fs_cong)

lemma writes_create_the_parent_chain_and_round_trip_passes: "passes writes_create_the_parent_chain_and_round_trip"
  unfolding writes_create_the_parent_chain_and_round_trip_def by (simp add: fs_eval cong: fs_cong)

lemma a_plain_write_truncates_and_a_ranged_write_does_not_passes: "passes a_plain_write_truncates_and_a_ranged_write_does_not"
  unfolding a_plain_write_truncates_and_a_ranged_write_does_not_def by (simp add: fs_eval cong: fs_cong)

lemma recursive_delete_walks_by_descriptor_and_skips_symlinked_trees_passes: "passes recursive_delete_walks_by_descriptor_and_skips_symlinked_trees"
  unfolding recursive_delete_walks_by_descriptor_and_skips_symlinked_trees_def by (simp add: fs_eval cong: fs_cong)

lemma special_files_are_refused_rather_than_blocking_passes: "passes special_files_are_refused_rather_than_blocking"
  unfolding special_files_are_refused_rather_than_blocking_def by (simp add: fs_eval cong: fs_cong)

lemma the_home_itself_cannot_be_deleted_passes: "passes the_home_itself_cannot_be_deleted"
  unfolding the_home_itself_cannot_be_deleted_def by (simp add: fs_eval cong: fs_cong)

lemma a_real_socket_owned_by_the_sandbox_is_accepted_passes: "passes a_real_socket_owned_by_the_sandbox_is_accepted"
  unfolding a_real_socket_owned_by_the_sandbox_is_accepted_def by (simp add: fs_eval cong: fs_cong)

lemma a_symlinked_socket_is_refused_passes: "passes a_symlinked_socket_is_refused"
  unfolding a_symlinked_socket_is_refused_def by (simp add: fs_eval cong: fs_cong)

lemma a_symlinked_proxy_directory_is_refused_passes: "passes a_symlinked_proxy_directory_is_refused"
  unfolding a_symlinked_proxy_directory_is_refused_def by (simp add: fs_eval cong: fs_cong)

lemma a_non_socket_is_refused_passes: "passes a_non_socket_is_refused"
  unfolding a_non_socket_is_refused_def by (simp add: fs_eval cong: fs_cong)

lemma a_socket_owned_by_another_uid_is_refused_passes: "passes a_socket_owned_by_another_uid_is_refused"
  unfolding a_socket_owned_by_another_uid_is_refused_def by (simp add: fs_eval cong: fs_cong)

end
