(* ===== verification/Unit_Tests.thy ===== *)
theory Unit_Tests
  imports Daemon Sandbox_Pool
begin

text \<open>
  The unit tests inside the source files, each as a definition that makes the calls and the assertions of the test, and a lemma that the
  model passes it: those of \<open>src/http.rs\<close>, \<open>src/main.rs\<close>, \<open>src/exec.rs\<close>, \<open>src/landlock.rs\<close> and \<open>src/sandboxes.rs\<close>. The tests on files and on
  sockets are in \<open>Fs_Tests\<close>. A test that looks at the machine it runs on takes the kernel as an argument; its lemma names what it
  expects to find there.
\<close>

section \<open>\<open>http.rs\<close>\<close>

definition is_err :: "'a result \<Rightarrow> bool" where
  "is_err r \<longleftrightarrow> (case r of Inl _ \<Rightarrow> True | Inr _ \<Rightarrow> False)"

definition unwraps :: "'a result \<Rightarrow> ('a \<Rightarrow> bool) \<Rightarrow> bool" where
  "unwraps r check \<longleftrightarrow> (case r of Inl _ \<Rightarrow> False | Inr x \<Rightarrow> check x)"

definition test_head :: "string \<Rightarrow> string" where
  "test_head extra = ''GET /v1/sandboxes HTTP/1.1'' @ CRLF @ ''Host: x'' @ CRLF @ extra @ CRLF @ CRLF"

definition a_well_formed_request_parses :: bool where
  "a_well_formed_request_parses \<longleftrightarrow>
     unwraps (parse_head (test_head (''X-Sandbox-Token: abc'' @ CRLF @ ''Content-Length: 3''))) (\<lambda>request.
       rq_method request = ''GET'' \<and> rq_path request = ''/v1/sandboxes'' \<and> content_length request = 3 \<and>
       header request ''x-sandbox-token'' = Some ''abc'' \<and> rq_keep_alive request)"

definition ambiguous_framing_is_refused :: bool where
  "ambiguous_framing_is_refused \<longleftrightarrow> list_all (\<lambda>extra. is_err (parse_head (test_head extra)))
     [''X-Test: a'' @ [LF] @ ''b'',
      ''X-Test: a'' @ [CR] @ ''b'',
      ''X-Test: '' @ [NUL],
      ''Content-Length: abc'',
      ''Content-Length: '',
      ''Content-Length: -1'',
      ''Content-Length: +1'',
      ''Content-Length: 0x10'',
      ''Content-Length: 1, 1'',
      ''Content-Length: 5'' @ CRLF @ ''Content-Length: 6'',
      ''Content-Length: 5'' @ CRLF @ ''Transfer-Encoding: chunked'',
      ''Content-Length : 5'',
      ''Content-Length'' @ [CHR 0x09] @ '': 5'',
      ''Content-Length'',
      '' Content-Length: 5'',
      ''Content-Le'' @ [NUL] @ ''ngth: 5'']"

definition control_characters_in_targets_are_refused :: bool where
  "control_characters_in_targets_are_refused \<longleftrightarrow>
     list_all (\<lambda>c. is_err (parse_head (''GET /a'' @ [c] @ ''b HTTP/1.1'' @ CRLF @ ''Host: x'' @ CRLF @ CRLF)))
       [LF, CR, NUL, CHR 0x09, CHR 0x7F]"

definition identical_duplicates_are_allowed :: bool where
  "identical_duplicates_are_allowed \<longleftrightarrow>
     unwraps (parse_head (test_head (''Content-Length: 5'' @ CRLF @ ''Content-Length: 5'')))
       (\<lambda>request. content_length request = 5)"

definition a_malformed_request_line_is_refused :: bool where
  "a_malformed_request_line_is_refused \<longleftrightarrow>
     list_all (\<lambda>line. is_err (parse_head (line @ CRLF @ ''Host: x'' @ CRLF @ CRLF)))
       [''GET /x'', ''GET  /x HTTP/1.1'', ''GET /x HTTP/1.1 extra'', ''GET /x HTTP/2.0'', ''GET /x ICY/1.0'',
        ''G3T /x HTTP/1.1'', '' GET /x HTTP/1.1'', ''/x HTTP/1.1'']"

definition a_non_ascii_head_is_refused :: bool where
  "a_non_ascii_head_is_refused \<longleftrightarrow>
     is_err (parse_head (''GET /x HTTP/1.1'' @ CRLF @ ''X-Tag: caf'' @ [CHR 0xC3, CHR 0xA9] @ CRLF @ CRLF))"

definition too_many_headers_is_refused :: bool where
  "too_many_headers_is_refused \<longleftrightarrow>
     (let many = concat (map (\<lambda>i. ''X-H'' @ show_nat i @ '': v'' @ CRLF) [0..<MAX_HEADERS + 1])
      in is_err (parse_head (''GET /x HTTP/1.1'' @ CRLF @ many @ CRLF)))"

definition keep_alive_follows_the_version_and_the_connection_header :: bool where
  "keep_alive_follows_the_version_and_the_connection_header \<longleftrightarrow>
     unwraps (parse_head (''GET /x HTTP/1.1'' @ CRLF @ ''Host: x'' @ CRLF @ CRLF)) rq_keep_alive \<and>
     unwraps (parse_head (''GET /x HTTP/1.0'' @ CRLF @ ''Host: x'' @ CRLF @ CRLF)) (\<lambda>q. \<not> rq_keep_alive q) \<and>
     unwraps (parse_head (''GET /x HTTP/1.1'' @ CRLF @ ''Connection: close'' @ CRLF @ CRLF)) (\<lambda>q. \<not> rq_keep_alive q) \<and>
     unwraps (parse_head (''GET /x HTTP/1.0'' @ CRLF @ ''Connection: keep-alive'' @ CRLF @ CRLF)) rq_keep_alive"

definition the_method_is_normalized_but_the_target_is_not :: bool where
  "the_method_is_normalized_but_the_target_is_not \<longleftrightarrow>
     unwraps (parse_head (''get /V1/Files/Read?path=/A HTTP/1.1'' @ CRLF @ ''Host: x'' @ CRLF @ CRLF)) (\<lambda>request.
       rq_method request = ''GET'' \<and> rq_path request = ''/V1/Files/Read'' \<and> hm_get (params request) ''path'' = Some ''/A'')"

lemmas test_eval = http_eval test_head_def is_err_def unwraps_def

lemma http_tests_pass: a_well_formed_request_parses ambiguous_framing_is_refused control_characters_in_targets_are_refused
  identical_duplicates_are_allowed a_malformed_request_line_is_refused a_non_ascii_head_is_refused
  keep_alive_follows_the_version_and_the_connection_header
proof -
  show a_well_formed_request_parses by (simp add: a_well_formed_request_parses_def test_eval)
  show ambiguous_framing_is_refused by (simp add: ambiguous_framing_is_refused_def test_eval)
  show control_characters_in_targets_are_refused by (simp add: control_characters_in_targets_are_refused_def test_eval)
  show identical_duplicates_are_allowed by (simp add: identical_duplicates_are_allowed_def test_eval)
  show a_malformed_request_line_is_refused by (simp add: a_malformed_request_line_is_refused_def test_eval)
  show a_non_ascii_head_is_refused by (simp add: a_non_ascii_head_is_refused_def test_eval)
  show keep_alive_follows_the_version_and_the_connection_header
    by (simp add: keep_alive_follows_the_version_and_the_connection_header_def test_eval)
qed

lemma method_test_passes: the_method_is_normalized_but_the_target_is_not
  by (simp add: the_method_is_normalized_but_the_target_is_not_def test_eval urldecode_def)

lemma parse_headers_many:
  assumes "[] \<notin> set ls" and "MAX_HEADERS < n + length ls" and "n \<le> MAX_HEADERS"
  shows "\<exists>e. parse_headers ls n hs = Inl e"
  using assms
proof (induction ls arbitrary: n hs)
  case (Cons l ls)
  show ?case
  proof (cases "MAX_HEADERS < Suc n \<or> (\<exists>e. parse_header_line l hs = Inl e)")
    case False
    then obtain hs' where "parse_header_line l hs = Inr hs'" by (cases "parse_header_line l hs") auto
    with False Cons show ?thesis by auto
  qed (use Cons.prems in auto)
qed simp

lemma headers_refused:
  assumes "parse_headers (tl (split_crlf (trim_end_matches (CRLF @ CRLF) h))) 0 [] = Inl e"
  shows "is_err (parse_head h)"
  unfolding parse_head_def Let_def assms by (simp add: is_err_def split: list.split)

lemma many_headers_passes: too_many_headers_is_refused
proof -
  define hl where "hl i = ''X-H'' @ show_nat i @ '': v''" for i
  let ?ls = "''GET /x HTTP/1.1'' # map hl [0..<MAX_HEADERS + 1]"
  have chars: "c \<noteq> CR \<and> c \<noteq> LF" if "l \<in> set ?ls" "c \<in> set l" for l c
  proof -
    have "\<not> is_ascii_digit CR" "\<not> is_ascii_digit LF" by (simp_all add: str_eval)
    then have "CR \<notin> set (show_nat i)" "LF \<notin> set (show_nat i)" for i
      using show_nat_digits [of i] by (auto simp: list_all_iff)
    with that show ?thesis by (auto simp: hl_def ctl_defs)
  qed
  have eq: "''GET /x HTTP/1.1'' @ CRLF @ concat (map (\<lambda>i. ''X-H'' @ show_nat i @ '': v'' @ CRLF) [0..<MAX_HEADERS + 1]) @ CRLF =
      join CRLF ?ls @ CRLF @ CRLF"
    using join_crlf_lines [of ?ls] by (simp add: hl_def o_def)
  have "split_crlf (trim_end_matches (CRLF @ CRLF) (join CRLF ?ls @ CRLF @ CRLF)) = ?ls"
  proof (rule head_lines)
    show "last ?ls \<noteq> []" using last_in_set [of ?ls] by (auto simp: hl_def)
  qed (use chars in simp_all)
  moreover obtain e where "parse_headers (map hl [0..<MAX_HEADERS + 1]) 0 [] = Inl e"
    using parse_headers_many [of "map hl [0..<MAX_HEADERS + 1]" 0 "[]"] by (auto simp: hl_def)
  ultimately have "is_err (parse_head (join CRLF ?ls @ CRLF @ CRLF))" by (intro headers_refused) simp
  then show ?thesis unfolding too_many_headers_is_refused_def Let_def by (simp only: eq)
qed

section \<open>\<open>main.rs\<close>\<close>

definition health_advertises_the_protocol_as_an_integer :: "('w, 'z) sb_kernel_scheme \<Rightarrow> 'w world \<Rightarrow> bool" where
  "health_advertises_the_protocol_as_an_integer K state \<longleftrightarrow>
     (case fst (authenticated_health K state) of
        Inl _ \<Rightarrow> False
      | Inr payload \<Rightarrow>
          list_all (\<lambda>p. json_get p ''protocol'' = Some (JNat PROTOCOL)) [public_health, payload] \<and>
          json_get payload ''version'' = Some (JString VERSION))"

definition the_public_health_payload_carries_no_server_detail :: bool where
  "the_public_health_payload_carries_no_server_detail \<longleftrightarrow>
     list_all (\<lambda>field. json_get public_health field = None)
       [''version'', ''uptime_ms'', ''sandboxes'', ''mode'', ''auth'', ''landlock''] \<and>
     json_get public_health ''status'' = Some (JString ''ok'')"

definition route_surfaces_are_mutually_exclusive :: bool where
  "route_surfaces_are_mutually_exclusive \<longleftrightarrow>
     list_all (\<lambda>path. route_mode_allowed False (segments_of path) \<and> \<not> route_mode_allowed True (segments_of path))
       [''/v1/exec'', ''/v1/processes'', ''/v1/processes/p-1'', ''/v1/files/read'', ''/v1/files/write'', ''/v1/files/list'',
        ''/v1/files/stat'', ''/v1/files/delete'', ''/v1/files/mkdir'', ''/v1/proxy/8000'', ''/v1/proxy/8000/ws''] \<and>
     list_all (\<lambda>path. route_mode_allowed True (segments_of path) \<and> \<not> route_mode_allowed False (segments_of path))
       [''/v1/sandboxes'', ''/v1/sandboxes/abc'', ''/v1/sandboxes/abc/exec'', ''/v1/sandboxes/abc/processes'',
        ''/v1/sandboxes/abc/processes/p-1'', ''/v1/sandboxes/abc/files/read'', ''/v1/sandboxes/abc/files/write'',
        ''/v1/sandboxes/abc/proxy/8000'', ''/v1/sandboxes/abc/proxy/8000/ws'']"

definition a_required_token_must_match_exactly :: bool where
  "a_required_token_must_match_exactly \<longleftrightarrow>
     (let auth = Required ''s3cret'' in
      accepts auth (Some ''s3cret'') \<and> \<not> accepts auth None \<and> \<not> accepts auth (Some '''') \<and>
      \<not> accepts auth (Some ''s3cre'') \<and> \<not> accepts auth (Some ''s3crets'') \<and> \<not> accepts auth (Some ''S3CRET''))"

definition disabled_auth_has_to_be_asked_for_by_name :: bool where
  "disabled_auth_has_to_be_asked_for_by_name \<longleftrightarrow>
     accepts DisabledForDevelopment None \<and> \<not> accepts (Required []) None"

definition constant_time_compare_agrees_with_equality :: bool where
  "constant_time_compare_agrees_with_equality \<longleftrightarrow>
     list_all (\<lambda>(a, b). ct_eq a b \<longleftrightarrow> a = b)
       [('''', ''''), (''a'', ''a''), (''a'', ''b''), (''ab'', ''a''), (''a'', ''ab''), (''token'', ''token'')]"

definition a_sandbox_token_addresses_only_its_own_sandbox :: bool where
  "a_sandbox_token_addresses_only_its_own_sandbox \<longleftrightarrow>
     (let mine = ''sandbox-a-token''; theirs = ''sandbox-b-token'' in
      classify_scoped_token mine mine = Some ScopeSandbox \<and> classify_scoped_token theirs mine = None \<and>
      classify_scoped_token [] mine = None \<and> classify_scoped_token ''sandbox-a-toke'' mine = None)"

definition the_host_token_is_never_a_scoped_credential :: bool where
  "the_host_token_is_never_a_scoped_credential \<longleftrightarrow> classify_scoped_token ''host-management-token'' ''sandbox-a-token'' = None"

definition pool_lifecycle_and_token_recovery_are_management_routes :: bool where
  "pool_lifecycle_and_token_recovery_are_management_routes \<longleftrightarrow>
     list_all (\<lambda>path. host_route_auth (segments_of path) = Management) [''/v1/sandboxes''] \<and>
     host_route_auth (segments_of ''/v1/sandboxes/abc/token'') = Management \<and>
     list_all (\<lambda>path. host_route_auth (segments_of path) = SandboxRoute ''abc'')
       [''/v1/sandboxes/abc'', ''/v1/sandboxes/abc/exec'', ''/v1/sandboxes/abc/processes'', ''/v1/sandboxes/abc/files/read'',
        ''/v1/sandboxes/abc/proxy/8000/ws'']"

definition token_recovery_is_not_reachable_with_a_sandbox_token :: bool where
  "token_recovery_is_not_reachable_with_a_sandbox_token \<longleftrightarrow>
     host_route_auth (segments_of ''/v1/sandboxes/victim/token'') = Management"

lemmas main_eval = str_eval segments_of_def route_mode_allowed_def host_route_auth_def classify_scoped_token_def ct_eq_def ct_fold [of _ _ 0]

lemma health_test_passes: "health_advertises_the_protocol_as_an_integer K state"
  by (simp add: health_advertises_the_protocol_as_an_integer_def authenticated_health_def public_health_def bindE_def on_os_def
      now_ms_def returnE_def split_beta)

lemma main_tests_pass: the_public_health_payload_carries_no_server_detail route_surfaces_are_mutually_exclusive
  a_required_token_must_match_exactly disabled_auth_has_to_be_asked_for_by_name constant_time_compare_agrees_with_equality
  a_sandbox_token_addresses_only_its_own_sandbox the_host_token_is_never_a_scoped_credential
  pool_lifecycle_and_token_recovery_are_management_routes token_recovery_is_not_reachable_with_a_sandbox_token
proof -
  show the_public_health_payload_carries_no_server_detail
    by (simp add: the_public_health_payload_carries_no_server_detail_def public_health_def)
  show route_surfaces_are_mutually_exclusive by (simp add: route_surfaces_are_mutually_exclusive_def main_eval)
  show a_required_token_must_match_exactly by (simp add: a_required_token_must_match_exactly_def main_eval)
  show disabled_auth_has_to_be_asked_for_by_name by (simp add: disabled_auth_has_to_be_asked_for_by_name_def main_eval)
  show constant_time_compare_agrees_with_equality by (simp add: constant_time_compare_agrees_with_equality_def main_eval)
  show a_sandbox_token_addresses_only_its_own_sandbox by (simp add: a_sandbox_token_addresses_only_its_own_sandbox_def main_eval)
  show the_host_token_is_never_a_scoped_credential by (simp add: the_host_token_is_never_a_scoped_credential_def main_eval)
  show pool_lifecycle_and_token_recovery_are_management_routes
    by (simp add: pool_lifecycle_and_token_recovery_are_management_routes_def main_eval)
  show token_recovery_is_not_reachable_with_a_sandbox_token
    by (simp add: token_recovery_is_not_reachable_with_a_sandbox_token_def main_eval)
qed

section \<open>\<open>exec.rs\<close>\<close>

definition only_server_assigned_ids_are_accepted :: bool where
  "only_server_assigned_ids_are_accepted \<longleftrightarrow>
     list_all is_opaque_process_id [''p-0'', ''p-1'', ''p-42'', ''p-9007199254740993''] \<and>
     list_all (\<lambda>i. \<not> is_opaque_process_id i)
       ['''', ''p-'', ''p'', ''0'', ''42'', ''9000'', ''-1'', ''p-1a'', ''p--1'', ''P-1'', '' p-1'', ''p-1 '']"

abbreviation empty_procs :: proc_registry where
  "empty_procs \<equiv> \<lparr>pg_procs = [], pg_seq = 0, pg_active = 0\<rparr>"

definition allocated_ids_have_the_accepted_shape :: bool where
  "allocated_ids_have_the_accepted_shape \<longleftrightarrow>
     (case alloc_id empty_procs of (a, g1) \<Rightarrow> case alloc_id g1 of (b, g2) \<Rightarrow> case alloc_id g2 of (c, g3) \<Rightarrow>
        list_all is_opaque_process_id [a, b, c])"

definition ids_are_unique_and_scoped_lookup_does_not_cross_sandboxes :: bool where
  "ids_are_unique_and_scoped_lookup_does_not_cross_sandboxes \<longleftrightarrow>
     (case alloc_id empty_procs of (first, g1) \<Rightarrow> case alloc_id g1 of (second, g2) \<Rightarrow>
      let p = \<lparr>pr_id = first, pr_pid = 1, pr_handle = 0, pr_tag = None, pr_cmd = JNull, pr_started_at_ms = 0,
               pr_sandbox_id = Some ''mine'', pr_exit = None\<rparr>;
          g3 = proc_insert p g2
      in first \<noteq> second \<and>
         (case remove_by_id first (Some ''theirs'') g3 of (a, g4) \<Rightarrow>
          case remove_by_id second (Some ''mine'') g4 of (b, g5) \<Rightarrow>
          case remove_by_id first (Some ''mine'') g5 of (c, g6) \<Rightarrow>
          case remove_by_id first (Some ''mine'') g6 of (d, g7) \<Rightarrow>
            a = None \<and> b = None \<and> c \<noteq> None \<and> d = None))"

lemma show_small: "show_nat 0 = ''0''" "show_nat (Suc 0) = ''1''" "show_nat (Suc (Suc 0)) = ''2''"
  by (simp_all add: show_radix.simps digit_char_def char_of_def bit_Suc_0_iff)

lemma exec_tests_pass: only_server_assigned_ids_are_accepted allocated_ids_have_the_accepted_shape
  ids_are_unique_and_scoped_lookup_does_not_cross_sandboxes
proof -
  show only_server_assigned_ids_are_accepted
    by (simp add: only_server_assigned_ids_are_accepted_def is_opaque_process_id_def strip_prefix_def str_eval)
  show allocated_ids_have_the_accepted_shape
    by (simp add: allocated_ids_have_the_accepted_shape_def alloc_id_def show_small is_opaque_process_id_def strip_prefix_def ascii_defs
        byte_def)
  show ids_are_unique_and_scoped_lookup_does_not_cross_sandboxes
    by (simp add: ids_are_unique_and_scoped_lookup_does_not_cross_sandboxes_def alloc_id_def show_small proc_insert_def remove_by_id_def
        in_scope_def MAX_FINISHED_PROCS_def Let_def)
qed

section \<open>\<open>landlock.rs\<close>\<close>

unbundle bit_operations_syntax

definition network_and_socket_scoping_need_a_recent_abi :: bool where
  "network_and_socket_scoping_need_a_recent_abi \<longleftrightarrow>
     ''no_tcp_bind'' \<notin> set (features 1) \<and> ''no_tcp_bind'' \<notin> set (features 3) \<and> ''no_tcp_bind'' \<in> set (features 4) \<and>
     ''scoped_abstract_unix'' \<notin> set (features 5) \<and> ''scoped_abstract_unix'' \<in> set (features 6) \<and>
     ''no_tcp_bind'' \<in> set (features FULL_ABI) \<and> ''scoped_abstract_unix'' \<in> set (features FULL_ABI) \<and>
     ''scoped_abstract_unix'' \<notin> set (features (FULL_ABI - 1))"

definition features_grow_monotonically_with_the_abi :: bool where
  "features_grow_monotonically_with_the_abi \<longleftrightarrow>
     list_all (\<lambda>abi. list_all (\<lambda>f. f \<in> set (features abi)) (features (abi - 1))) [1..FULL_ABI] \<and> features 0 = []"

definition handled_bits_only_ever_widen :: bool where
  "handled_bits_only_ever_widen \<longleftrightarrow>
     list_all (\<lambda>abi. let lower = handled_fs_for (abi - 1) in lower AND handled_fs_for abi = lower) [2..FULL_ABI]"

definition building_a_ruleset_for_a_missing_home_fails ::
  "('w, 'z) ll_kernel_scheme \<Rightarrow> (fd \<times> u64) list \<Rightarrow> 'w osw \<Rightarrow> bool" where
  "building_a_ruleset_for_a_missing_home_fails K rules s \<longleftrightarrow>
     (if \<not> available K then True
      else (case fst (build_ruleset K rules ''/nonexistent/sandbox/home'' s) of Inl _ \<Rightarrow> True | Inr _ \<Rightarrow> False))"

lemma landlock_tests_pass: network_and_socket_scoping_need_a_recent_abi features_grow_monotonically_with_the_abi
  handled_bits_only_ever_widen
proof -
  show network_and_socket_scoping_need_a_recent_abi
    by (simp add: network_and_socket_scoping_need_a_recent_abi_def features_def FULL_ABI_def)
  show features_grow_monotonically_with_the_abi
    by (simp add: features_grow_monotonically_with_the_abi_def features_def FULL_ABI_def upto.simps)
  show handled_bits_only_ever_widen
    by (simp add: handled_bits_only_ever_widen_def FULL_ABI_def upto.simps handled_fs_for_def)
qed

text \<open>The test expects that there is no such directory.\<close>

lemma missing_home_test_passes:
  assumes "\<And>w. \<exists>e v. k_open K ''/nonexistent/sandbox/home'' (O_PATH OR O_CLOEXEC) 0 w = (Inl e, v)"
  shows "building_a_ruleset_for_a_missing_home_fails K rules s"
proof -
  let ?home = "''/nonexistent/sandbox/home''"
  have "\<exists>e t. add_path_rule K r ?home a s = (Inl e, t)" for r a s
    using assms [of "kst s"] by (auto simp: add_path_rule_def open_o_path_def bindE_def catchE_def sys_fd_def returnE_def throwE_def ctl_defs)
  moreover have "\<exists>e t. catchE m f (\<lambda>e. thenE (close_fd K r) (throwE e)) s = (Inl e, t)"
    if "\<exists>e t. m s = (Inl e, t)" for m f r s
    using that by (auto simp: catchE_def thenE_def bindE_def throwE_def split: prod.split sum.split)
  ultimately have "\<exists>e t. catchE (add_path_rule K r ?home a) f (\<lambda>e. thenE (close_fd K r) (throwE e)) s = (Inl e, t)" for r a f s
    by blast
  note fails = this
  have bind: "\<exists>e t. bindE m f s = (Inl e, t)" if "\<And>x s. \<exists>e t. f x s = (Inl e, t)"
    for m :: "('w osw, 'x) io" and f :: "'x \<Rightarrow> ('w osw, 'y) io" and s
  proof (cases "m s")
    case (Pair r t)
    then show ?thesis using that by (cases r) (auto simp: bindE_run)
  qed
  have "\<exists>e t. build_ruleset K rules ?home s = (Inl e, t)"
  proof (cases "k_abi K < 1")
    case False
    then show ?thesis unfolding build_ruleset_def Let_def thenE_def [of "add_system_rules K _ _"] if_not_P [OF False]
      by (intro bind fails)
  qed (simp add: build_ruleset_def throwE_def)
  then show ?thesis by (auto simp: building_a_ruleset_for_a_missing_home_fails_def)
qed

section \<open>\<open>sandboxes.rs\<close>\<close>

definition finds :: "('w osw, bool) io \<Rightarrow> 'w osw \<Rightarrow> bool" where
  "finds test s \<longleftrightarrow> fst (test s) = Inr True"

definition a_released_uid_is_reused_before_a_fresh_one :: "('w, 'z) sb_kernel_scheme \<Rightarrow> ('w osw, bool) io" where
  "a_released_uid_is_reused_before_a_fresh_one K =
     bindE (pool_take K (with_reserved [])) (\<lambda>(first, pool).
     bindE (pool_take K pool) (\<lambda>(second, pool).
     bindE (pool_take K (pool_release (the first) pool)) (\<lambda>(third, pool).
     bindE (pool_take K pool) (\<lambda>(fourth, pool).
       returnE (first = Some UID_BASE \<and> second = Some (UID_BASE + 1) \<and> third = first \<and> fourth = Some (UID_BASE + 2))))))"

definition a_quarantined_uid_is_never_handed_out :: "('w, 'z) sb_kernel_scheme \<Rightarrow> ('w osw, bool) io" where
  "a_quarantined_uid_is_never_handed_out K =
     bindE (pool_take K (pool_quarantine (UID_BASE + 2) (pool_quarantine UID_BASE (with_reserved [])))) (\<lambda>(a, pool).
     bindE (pool_take K pool) (\<lambda>(b, _).
     bindE (pool_take K (with_reserved [])) (\<lambda>(uid, _).
     bindE (pool_take K (with_reserved [the uid])) (\<lambda>(c, _).
       returnE (a = Some (UID_BASE + 1) \<and> b = Some (UID_BASE + 3) \<and> uid \<noteq> None \<and> c \<noteq> uid)))))"

definition uids_already_used_by_the_image_are_reserved :: "('w, 'z) sb_kernel_scheme \<Rightarrow> ('w osw, bool) io" where
  "uids_already_used_by_the_image_are_reserved K =
     bindE (pool_take K (with_reserved [UID_BASE, UID_BASE + 1])) (\<lambda>(uid, _). returnE (uid = Some (UID_BASE + 2)))"

definition exhaustion_is_reported_rather_than_wrapping :: "('w, 'z) sb_kernel_scheme \<Rightarrow> ('w osw, bool) io" where
  "exhaustion_is_reported_rather_than_wrapping K =
     bindE (pool_take K \<lparr>up_next = UID_MAX - UID_BASE - 1, up_free = [], up_quarantined = []\<rparr>) (\<lambda>(a, pool).
     bindE (pool_take K pool) (\<lambda>(b, pool).
     bindE (pool_take K pool) (\<lambda>(c, pool). returnE (a = Some (UID_MAX - 1) \<and> b = None \<and> c = None))))"

definition the_range_stays_inside_the_container_uid_map :: bool where
  "the_range_stays_inside_the_container_uid_map \<longleftrightarrow> 20000 \<le> UID_BASE \<and> UID_MAX \<le> 65535 \<and> UID_BASE < UID_MAX"

definition a_free_uid_with_live_processes_is_quarantined_at_hand_out :: "('w, 'z) sb_kernel_scheme \<Rightarrow> nat \<Rightarrow> ('w osw, bool) io" where
  "a_free_uid_with_live_processes_is_quarantined_at_hand_out K ours =
     bindE (pool_take K \<lparr>up_next = 0, up_free = [ours], up_quarantined = []\<rparr>) (\<lambda>(uid, pool).
       returnE (uid \<noteq> Some ours \<and> ours \<in> set (up_quarantined pool)))"

definition zombies_do_not_count_as_live_processes :: "('w, 'z) sb_kernel_scheme \<Rightarrow> nat \<Rightarrow> ('w osw, bool) io" where
  "zombies_do_not_count_as_live_processes K ours =
     bindE (pids_of_uid K ours) (\<lambda>mine.
     bindE (pids_of_uid K (u32_max - 1)) (\<lambda>others. returnE (mine \<noteq> [] \<and> others = [])))"

lemmas pool_eval = finds_def pool_take_def bindE_def returnE_def take_fresh.simps UID_BASE_def UID_MAX_def with_reserved_def
  pool_release_def pool_quarantine_def

text \<open>The first test expects that no process of the machine runs as the released uid.\<close>

lemma released_uid_test_passes:
  assumes "\<And>s. \<exists>t. pids_of_uid K UID_BASE s = (Inr [], t)"
  shows "finds (a_released_uid_is_reused_before_a_fresh_one K) s"
proof -
  obtain t where "pids_of_uid K 20000 s = (Inr [], t)" using assms [of s] by (auto simp: UID_BASE_def)
  then show ?thesis by (simp add: a_released_uid_is_reused_before_a_fresh_one_def pool_eval)
qed

lemma sandboxes_tests_pass: "finds (a_quarantined_uid_is_never_handed_out K) s" "finds (uids_already_used_by_the_image_are_reserved K) s"
  "finds (exhaustion_is_reported_rather_than_wrapping K) s" the_range_stays_inside_the_container_uid_map
proof -
  show "finds (a_quarantined_uid_is_never_handed_out K) s" by (simp add: a_quarantined_uid_is_never_handed_out_def pool_eval)
  show "finds (uids_already_used_by_the_image_are_reserved K) s" by (simp add: uids_already_used_by_the_image_are_reserved_def pool_eval)
  show "finds (exhaustion_is_reported_rather_than_wrapping K) s" by (simp add: exhaustion_is_reported_rather_than_wrapping_def pool_eval)
  show the_range_stays_inside_the_container_uid_map
    by (simp add: the_range_stays_inside_the_container_uid_map_def UID_BASE_def UID_MAX_def)
qed

text \<open>The last two expect to find the process that runs the test, and none of the highest uid.\<close>

lemma live_uid_test_passes:
  assumes "pids_of_uid K ours s = (Inr (p # ps), t)" and "ours < UID_BASE"
  shows "finds (a_free_uid_with_live_processes_is_quarantined_at_hand_out K ours) s"
  using assms by (simp add: a_free_uid_with_live_processes_is_quarantined_at_hand_out_def pool_eval)

definition proc_kernel :: "nat sb_kernel" where
  "proc_kernel = demo_sb\<lparr>
     k_read_dir := (\<lambda>p. returnE (map (\<lambda>n. Inr (n, Inl (OsError ENOENT))) [''1'', ''7'', ''cpuinfo''])),
     k_read_to_string := (\<lambda>p. returnE (if p = ''/proc/7/status''
        then ''State:'' @ [CHR 0x09] @ ''Z (zombie)'' @ [LF] @ ''Uid:'' @ [CHR 0x09] @ ''4294967294'' @ [LF]
        else ''State:'' @ [CHR 0x09] @ ''R (running)'' @ [LF] @ ''Uid:'' @ [CHR 0x09] @ ''1000'' @ [LF]))\<rparr>"

lemma proc_kernel_calls: "k_read_dir proc_kernel = (\<lambda>p. returnE (map (\<lambda>n. Inr (n, Inl (OsError ENOENT))) [''1'', ''7'', ''cpuinfo'']))"
  "k_read_to_string proc_kernel = (\<lambda>p. returnE (if p = ''/proc/7/status''
        then ''State:'' @ [CHR 0x09] @ ''Z (zombie)'' @ [LF] @ ''Uid:'' @ [CHR 0x09] @ ''4294967294'' @ [LF]
        else ''State:'' @ [CHR 0x09] @ ''R (running)'' @ [LF] @ ''Uid:'' @ [CHR 0x09] @ ''1000'' @ [LF]))"
  by (simp_all add: proc_kernel_def)

lemmas status_eval = real_uid_def is_zombie_def field_of_def nth_opt_def split_whitespace_def is_space_def str_lines_def strip_cr_def
  str_eval

lemma zombie_test_passes: "finds (zombies_do_not_count_as_live_processes proc_kernel 1000) s"
proof -
  let ?zombie = "''State:'' @ [CHR 0x09] @ ''Z (zombie)'' @ [LF] @ ''Uid:'' @ [CHR 0x09] @ ''4294967294'' @ [LF]"
  let ?running = "''State:'' @ [CHR 0x09] @ ''R (running)'' @ [LF] @ ''Uid:'' @ [CHR 0x09] @ ''1000'' @ [LF]"
  have pids: "pid_of_name ''1'' = Some 1" "pid_of_name ''7'' = Some 7" "pid_of_name ''cpuinfo'' = None"
    by (simp_all add: pid_of_name_def parse_i32_def str_eval)
  have paths: "status_path 1 = ''/proc/1/status''" "status_path 7 = ''/proc/7/status''"
    by (simp_all add: status_path_def show_int_def str_eval)
  have running: "real_uid ?running = Some 1000" "\<not> is_zombie ?running"
    by (simp_all add: status_eval)
  have zombie: "is_zombie ?zombie" by (simp add: status_eval)
  have live: "\<exists>t. pids_of_uid proc_kernel uid s = (Inr (if uid = 1000 then [1] else []), t)" for uid s
    using running zombie
    by (simp add: pids_of_uid_def proc_kernel_calls pids paths catchE_def bindE_def returnE_def path_call_def sys_def live_of_uid_def)
  obtain t where "pids_of_uid proc_kernel 1000 s = (Inr [1], t)" using live [of 1000 s] by auto
  moreover obtain u where "pids_of_uid proc_kernel 4294967294 t = (Inr [], u)" using live [of 4294967294 t] by auto
  ultimately show ?thesis by (simp add: finds_def zombies_do_not_count_as_live_processes_def bindE_run u32_max_def returnE_def)
qed

end
