(* ===== verification/Spec2Isabelle.thy ===== *)
theory Spec2Isabelle
  imports Daemon Framing Exec_Output Fuzz_Targets File_Transfer Proxy_Tunnel Mem_Secrecy Fs_Tests Unit_Tests
begin

text \<open>
  A verification development for \<open>sbx-server\<close>, the HTTP server that runs inside a job and gives clients commands,
  files and port access, either on the whole job (dedicated mode) or on many sandboxes that share it (host mode).

  \<^bold>\<open>The program and the theories.\<close> Every definition that models code keeps the name of the function it
  translates, under the source file's component:

  \<^item> \<open>src/http.rs\<close> -- \<open>Http\<close>: request heads, bodies, responses. \<open>Rust_Io\<close> holds the two halves of a connection, \<open>Json\<close>
    the boundary to \<open>serde_json\<close>, \<open>Rust_Str\<close> the string functions of the standard library the source calls.
  \<^item> \<open>src/fsutil.rs\<close> -- \<open>Fsutil\<close> on the file-system interface of \<open>Kernel\<close>; \<open>src/files.rs\<close> -- \<open>Files\<close>,
    \<open>File_Transfer\<close> (uploads and downloads of one file together), \<open>Fs_Scope\<close> (from the calls a handler makes to the
    inodes it can change) and \<open>Fs_Secrecy\<close> (and to those it can learn about).
  \<^item> \<open>src/landlock.rs\<close> -- \<open>Landlock\<close>, with the access rights as bits of 64-bit words.
  \<^item> \<open>src/sandboxes.rs\<close> -- \<open>Sandbox_Entry\<close>, \<open>State\<close> (the records), \<open>Sandboxes\<close> (the code) and \<open>Sandbox_Pool\<close> (creation and deletion side by side).
  \<^item> \<open>src/exec.rs\<close> -- \<open>Procs\<close> (the process table), \<open>Exec\<close> (commands and handlers), \<open>Exec_Life\<close> (waiters, kills, timeouts and the
    orphan reaper side by side), \<open>Exec_Output\<close> (the threads behind the pipes of a command).
  \<^item> \<open>src/proxy.rs\<close> -- \<open>Proxy\<close>, and \<open>Proxy_Tunnel\<close> (the two threads of a proxied connection side by side).
  \<^item> \<open>src/main.rs\<close> -- \<open>Server\<close> (credentials, routes, connection loop), \<open>Frames\<close> (what all handlers have in common), \<open>Isolation\<close> (what a request can reach),
    \<open>Framing\<close> (where one request ends and the next begins), \<open>Daemon\<close> (configuration,
    start-up, idle watchdog, connection cap).
  \<^item> \<open>fuzz/fuzz_targets\<close> -- \<open>Fuzz_Targets\<close>: the two targets as functions of the fuzzer's input.
  \<^item> the \<open>tests\<close> modules -- \<open>Unit_Tests\<close> and \<open>Fs_Tests\<close>: the unit tests as definitions, each with a lemma that the model passes it. Those on files
    and sockets run on \<open>Mem_Fs\<close>, a file system in memory that also shows that the assumptions of \<open>Fs_Scope\<close> and (\<open>Mem_Secrecy\<close>) \<open>Fs_Secrecy\<close> can hold.

  \<^bold>\<open>How state and effects are modelled.\<close> A fallible operation is a function from a state to a result (\<open>io_error + 'a\<close>) and the
  state after (\<open>Prelude\<close>: \<open>bindE\<close> is \<open>?\<close>, \<open>catchE\<close> a match on the result, \<open>ignoreE\<close> a \<open>let _ =\<close>). The server's shared state is the record \<open>world\<close>:
  \<open>State\<close> of \<open>main.rs\<close> with both registries, the process handles, the pids the reaper must not touch, and the operating system. A handler
  runs on \<open>conn\<close>: the request, the bytes to come, the response writer and that state. The operating system is a record of functions, one
  per system call, over an arbitrary state: each call may change that state in any way, which stands for whatever other processes do. Theorems that
  need documented behaviour of a call name it as a hypothesis (\<open>readdir_plain\<close>, \<open>reads_bounded\<close>, \<open>serves_file\<close>, \<open>disk_opens\<close>, \<open>disk_writes\<close>, \<open>disk_reads\<close>, \<open>backend_alive\<close>, \<open>unix_fs\<close>, \<open>opens_home\<close>, \<open>alike\<close>). A log of the
  calls made lets theorems speak about which calls an operation makes.

  What runs in several threads is written twice. The sequential code of an operation is a definition; where threads interleave, the
  sections between two accesses to shared state are the rules of a step relation (\<open>thread_step\<close> and \<open>host_step\<close>, \<open>proc_step\<close>, \<open>life_step\<close>, \<open>io_step\<close>, \<open>tunnel_step\<close>, \<open>slot_step\<close>), invariants hold
  by rule induction (locale \<open>inductive_invariant\<close>), and \<open>operations_run_machine\<close> shows that the sequential code is a run of the machine.

  \<^bold>\<open>What the lemmas show.\<close>

  \<^item> HTTP: accepted heads are well formed and free of control bytes; reading takes exactly one head or body off the connection however the
    stream is cut; uploads and streamed responses arrive whole; query strings and chunked bodies round-trip; head size is bounded.
  \<^item> Files: path normalisation refines lexical resolution; in host mode every call is relative to a descriptor obtained from the home, one
    plain name at a time, no link followed, so that no inode outside the home ever changes, even while the sandbox rearranges its home,
    and no answer depends on one; ranged reads and paging are exact; each handler answers once; the write endpoint
    implements a function on the file's content, and chunked uploads in any order download as the whole file.
  \<^item> Landlock: exactly what the ruleset of a sandbox permits, read off the calls that build it, on every version of the interface (before version 3
    truncation, before version 5 device ioctl cannot be restricted); a ruleset is returned complete or not at all.
  \<^item> Sandboxes: capacity, uid uniqueness and quarantine in every interleaving; outcome of a deletion; creation fails closed; the pre-exec hook.
  \<^item> Commands: isolation of what is spawned, nothing starts after a deletion, the event stream, termination of the waiter, signals and the
    reaper only ever hit the right process, but for commands whose pid the system hands out again in the window between a wait and the
    untracking (\<open>owned_pid_race\<close>), the process table; output in order and before the exit event, and every thread ends.
  \<^item> Proxy: it stays inside the sandbox, talks only to the sandbox's uid and writes to nothing but the connection it made; the forwarded head parses back; every byte is carried,
    in order and in every interleaving of the two directions, and a tunnel ends once the backend does and the client has taken what it is sent.
  \<^item> Server: credentials, the two exclusive surfaces, isolation between sandboxes, no byte of a \<open>Content-Length\<close> body taken for a request (of a chunked one it is, \<open>chunked_body_left\<close>), termination of the connection loop, start-up (every variable of the environment pinned), watchdog, cap.

  Interfaces are locales: \<open>hash_map\<close> (maps of the standard library), \<open>frame_relation\<close> with \<open>files_frame\<close>, \<open>conn_base\<close> and \<open>conn_frame\<close> (what every
  operation leaves alone),
  \<open>tracking_kernels\<close> (two kernels side by side), \<open>uid_allocator\<close> (the pool's promise to the registry), \<open>inductive_invariant\<close>; each is interpreted on the model's own definitions.

  \<^bold>\<open>Fuel.\<close> Loops over the bytes of a connection, over a body, a file or a directory listing recurse on a measure and need none. The connection loop
  \<open>serve\<close> has a bound on the number of requests, and \<open>connection_ends\<close> shows that one more than the size of the input is enough.
  Recursive deletion is bounded by \<open>n_depth\<close>, the stack; running out is a result of its own. \<open>waitid\<close> may be interrupted without end: \<open>await_exit\<close> is a partial function, and
  \<open>wait_and_report_ends\<close> says when it returns.

  \<^bold>\<open>Not modelled.\<close> Socket options and deadlines other than the head deadline; log lines; closing of descriptors when values are dropped; constant-time behaviour of the comparison (its
  result is); the keep-alive pings of the event stream. In \<open>Exec_Output\<close> the pipes of a command are finite lists of reads; \<open>wait_and_report\<close> in \<open>Exec\<close> is without the drain of
  the output readers and the blocking send of the exit event, which are steps of \<open>Exec_Output\<close>. The unit test that needs a live listener, shell scripts and workflows are left out. Counters that cannot reach their width in practice are natural numbers; times, sizes and access rights keep their width.
\<close>

section \<open>From start-up to a request\<close>

text \<open>
  C1: sandboxes are isolated from each other, end to end. Take a server that has started and whose registry has since been changed
  only by creations, deletions and activity stamps, in any interleaving. A request below \<open>/v1/sandboxes/<sid>\<close> that does not carry the token
  of a live sandbox \<open>sid\<close> changes nothing in the server or on the connection but the refusal; whatever a request does carry, every other
  sandbox keeps its entry and every running process of another owner stays registered.
\<close>

theorem server_isolates_sandboxes:
  assumes start: "start_server K bind env args s = Inr (cf, w0)" and run: "runs K (w0, replicate n Idle) (c_os c, ts)"
    and host: "w_host_mode (c_os c)" and scoped: "scoped_to sid (segments_of (rq_path (c_req c)))"
    and route: "route C K N c = (r, c')"
  shows "((\<forall>e. reg_get (w_sandboxes (c_os c)) sid = Some e \<longrightarrow> header (c_req c) ''x-sandbox-token'' \<noteq> Some (e_token e)) \<longrightarrow>
      c_os c' = c_os c \<and> c_rd c' = c_rd c) \<and>
    (\<forall>other. other \<noteq> sid \<longrightarrow> reg_get (w_sandboxes (c_os c')) other = reg_get (w_sandboxes (c_os c)) other) \<and>
    (\<forall>owner. owner \<noteq> Some sid \<longrightarrow> running_of owner (w_procs (c_os c')) = running_of owner (w_procs (c_os c)))"
proof -
  have "host_init (w0, replicate n Idle)" by (rule start_host_init [OF start]) auto
  then have "reach host_init (host_step K) (w0, replicate n Idle)" by (rule reach_init)
  then have "reach host_init (host_step K) (c_os c, ts)" by (rule reach_runs) (rule run)
  then have keyed: "reg_keyed (w_sandboxes (c_os c))" using keyed.reach_inv [of K "(c_os c, ts)"] by simp
  have "c_os c' = c_os c \<and> c_rd c' = c_rd c"
    if "\<forall>e. reg_get (w_sandboxes (c_os c)) sid = Some e \<longrightarrow> header (c_req c) ''x-sandbox-token'' \<noteq> Some (e_token e)"
    using resp_frame [of "rw_error C 403 ''invalid or missing X-Sandbox-Token''" c r c']
      scoped_refused [OF host scoped that, of C K N] route by simp
  with sandbox_isolation [OF scoped keyed route] show ?thesis by blast
qed

section \<open>Witnesses\<close>

lemma demo_px_start:
  "k_abi demo_px = 6" "k_now_ms demo_px = (\<lambda>w. (5, w))" "k_read_dir demo_px = (\<lambda>p. returnE [])"
  "k_read_to_string demo_px = (\<lambda>p. returnE ''x'')"
  by (simp_all add: demo_px_def demo_ex_def ex_kernel.defs px_kernel.defs demo_sb_simps demo_simps fun_eq_iff)

lemma demo_host_start:
  obtains cf w where
    "start_server demo_px (\<lambda>_. returnE ()) [(''SBX_TOKEN'', ''s''), (''SBX_HOST_MODE'', ''1'')] [] \<lparr>kst = 4, log = []\<rparr> = Inr (cf, w)"
    "w_host_mode w"
    "w_sandboxes w = \<lparr>rg_map = [], rg_capacity = 64, rg_reserved = 0, rg_allow_unconfined = False, rg_uids = with_reserved [], rg_deleted = []\<rparr>"
proof -
  let ?env = "[(''SBX_TOKEN'', ''s''), (''SBX_HOST_MODE'', ''1'')]"
  obtain cf where cf: "parse_config ?env [] = Inr cf" "cf_host_mode cf" "cf_min_abi cf = 6" "cf_capacity cf = 64" "\<not> cf_allow_unconfined cf"
    by (simp add: parse_config_def bindS_def env_number_def auth_of_def hm_get_def str_eval Let_def FULL_ABI_def)
  have no_users: "passwd_uids ''x'' = []" by (simp add: passwd_uids_def str_lines_def nth_opt_def strip_cr_def List.map_filter_simps str_eval)
  obtain reg s1 where reg: "open_server demo_px (\<lambda>_. returnE ()) cf \<lparr>kst = 4, log = []\<rparr> = (Inr (5, 5, reg), s1)"
    "reg = \<lparr>rg_map = [], rg_capacity = 64, rg_reserved = 0, rg_allow_unconfined = False, rg_uids = with_reserved [], rg_deleted = []\<rparr>"
    by (simp add: open_server_def registry_new_def uids_already_in_use_def now_ms_def raw_os_def path_call_def demo_simps str_eval
        no_users demo_px_start cf)
  obtain rules s2 where "pin_system_dirs demo_px cf s1 = (Inr rules, s2)"
    using system_dir_rules_spec [of demo_px s1] by (cases "available demo_px") (auto simp: pin_system_dirs_def returnE_def cf)
  then show thesis by (intro that) (simp add: start_server_def bindS_def cf reg demo_px_start, simp_all)
qed

theorem server_isolates_sandboxes_witness:
  "\<exists>cf w0 w r c'. start_server demo_px (\<lambda>_. returnE ()) [(''SBX_TOKEN'', ''s''), (''SBX_HOST_MODE'', ''1'')] [] \<lparr>kst = 4, log = []\<rparr> = Inr (cf, w0) \<and>
     runs demo_px (w0, [Idle]) (w, [Idle]) \<and> reg_get (w_sandboxes w) ''ab'' = Some demo_sandbox \<and>
     route demo_codec demo_px demo_env (demo_request ''POST'' ''/v1/sandboxes/ab/exec'' [(''x-sandbox-token'', ''s'')] w) = (r, c') \<and> c_os c' = w"
proof -
  obtain cf w0 where w0: "start_server demo_px (\<lambda>_. returnE ()) [(''SBX_TOKEN'', ''s''), (''SBX_HOST_MODE'', ''1'')] [] \<lparr>kst = 4, log = []\<rparr> = Inr (cf, w0)"
    "w_host_mode w0"
    "w_sandboxes w0 = \<lparr>rg_map = [], rg_capacity = 64, rg_reserved = 0, rg_allow_unconfined = False, rg_uids = with_reserved [], rg_deleted = []\<rparr>"
    by (rule demo_host_start)
  let ?g1 = "(w_sandboxes w0)\<lparr>rg_reserved := 1\<rparr>"
  let ?w1 = "w0\<lparr>w_sandboxes := ?g1\<rparr>"
  let ?g2 = "?g1\<lparr>rg_uids := (with_reserved [])\<lparr>up_next := 1\<rparr>\<rparr>"
  let ?w2 = "w0\<lparr>w_sandboxes := ?g2\<rparr>"
  let ?w = "w0\<lparr>w_sandboxes := ?g2\<lparr>rg_map := [(''ab'', demo_sandbox)]\<rparr>\<rparr>"
  have s1: "runs demo_px (w0, [] @ Idle # []) (?w1, [] @ SlotHeld # [])"
    using t_reserve [of w0 0 ?w1 demo_px] w0 by (intro runs_thread) (simp add: on_reg_eq fetch_reserve_def)
  have s2: "runs demo_px (?w1, [] @ SlotHeld # []) (?w2, [] @ Building 20000 # [])"
    using t_take [of demo_px ?w1 "Some 20000" ?w2] w0
    by (intro runs_thread) (simp add: take_uid_def pool_take_def bindE_def returnE_def take_fresh.simps UID_BASE_def UID_MAX_def with_reserved_def)
  have s3: "runs demo_px (?w2, [] @ Building 20000 # []) (?w, [] @ Idle # [])"
    using t_insert [of demo_sandbox 20000 ?w2 "()" ?w demo_px] w0
    by (intro runs_thread) (simp add: on_reg_eq insert_entry_def reg_get_def hm_get_def hm_insert_def)
  have run: "runs demo_px (w0, [Idle]) (?w, [Idle])" using runs_trans [OF runs_trans [OF s1 s2] s3] by simp
  let ?c = "demo_request ''POST'' ''/v1/sandboxes/ab/exec'' [(''x-sandbox-token'', ''s'')] ?w"
  obtain r c' where r: "route demo_codec demo_px demo_env ?c = (r, c')" by fastforce
  have get: "reg_get (w_sandboxes ?w) ''ab'' = Some demo_sandbox" by (simp add: reg_get_def hm_get_def)
  have "scoped_to ''ab'' (segments_of (rq_path (c_req ?c)))"
    by (simp add: scoped_to_def host_route_auth_def demo_request_def demo_segments)
  moreover have "header (c_req ?c) ''x-sandbox-token'' = Some ''s''" by (simp add: demo_request_def header_def hm_get_def str_eval)
  moreover have "c_os ?c = ?w" by (simp add: demo_request_def)
  moreover have "replicate 1 Idle = [Idle]" by simp
  ultimately have "c_os c' = ?w"
    using server_isolates_sandboxes [of demo_px "\<lambda>_. returnE ()" _ _ _ cf w0 1 ?c "[Idle]" "''ab''" demo_codec demo_env r c'] w0(1, 2) run r get
    by simp
  with w0(1) run get r show ?thesis by blast
qed

end
